(* ===== verification/Ucore_Prelude.thy ===== *)
theory Ucore_Prelude
  imports Main "HOL-Library.Word" "HOL-Library.Monad_Syntax"
begin

unbundle bit_operations_syntax

text \<open>
  Shared vocabulary of the development: machine integer types, the kernel's error codes
  (src/ucore_os/libs/error.h), assertion failures as the value \<open>None\<close>, the rounding macros of
  src/ucore_os/libs/defs.h, and generic lemmas on options, lists, intervals and words.

  Conventions. A kernel function that can fail an \<open>assert\<close> or call \<open>panic\<close> returns an
  \<open>option\<close>: \<open>None\<close> is the panic, which stops the kernel. An \<open>int\<close> result of the C code keeps its
  value, so an error return is \<open>- E_INVAL\<close> and so on. A C pointer is an index (a page frame
  number, a process number, ...) and the null pointer is \<open>None\<close> of an \<open>option\<close>.
\<close>

named_theorems kdefs \<open>definitions of the small helpers of the models\<close>

type_synonym u8 = "8 word"
type_synonym u16 = "16 word"
type_synonym u32 = "32 word"
type_synonym u64 = "64 word"

section \<open>Assertions and panics\<close>

definition kassert :: "bool \<Rightarrow> unit option" where
  "kassert b = (if b then Some () else None)"

abbreviation panic :: "'a option" where
  "panic \<equiv> None"

lemma kassert_simps [simp]:
  "kassert True = Some ()"
  "kassert False = None"
  "kassert b = Some u \<longleftrightarrow> b"
  "kassert b = None \<longleftrightarrow> \<not> b"
  by (auto simp: kassert_def)

lemma bind_kassert [simp]:
  "(kassert b \<bind> f) = Some r \<longleftrightarrow> b \<and> f () = Some r"
  "(kassert b \<bind> f) = None \<longleftrightarrow> \<not> b \<or> f () = None"
  by (auto simp: kassert_def)

lemma bind_kassert_True [simp]: "b \<Longrightarrow> (kassert b \<bind> f) = f ()"
  by (simp add: kassert_def)

lemma bind_SomeE:
  assumes "(x \<bind> f) = Some r"
  obtains y where "x = Some y" and "f y = Some r"
  using assms by (cases x) auto

section \<open>Error codes\<close>

definition E_UNSPECIFIED :: int where [kdefs]: "E_UNSPECIFIED = 1"
definition E_BAD_PROC :: int where [kdefs]: "E_BAD_PROC = 2"
definition E_INVAL :: int where [kdefs]: "E_INVAL = 3"
definition E_NO_MEM :: int where [kdefs]: "E_NO_MEM = 4"
definition E_NO_FREE_PROC :: int where [kdefs]: "E_NO_FREE_PROC = 5"
definition E_FAULT :: int where [kdefs]: "E_FAULT = 6"
definition E_INVAL_ELF :: int where [kdefs]: "E_INVAL_ELF = 8"
definition E_KILLED :: int where [kdefs]: "E_KILLED = 9"
definition E_TOO_BIG :: int where [kdefs]: "E_TOO_BIG = 12"
definition E_NO_DEV :: int where [kdefs]: "E_NO_DEV = 13"
definition E_NA_DEV :: int where [kdefs]: "E_NA_DEV = 14"
definition E_BUSY :: int where [kdefs]: "E_BUSY = 15"
definition E_NOENT :: int where [kdefs]: "E_NOENT = 16"
definition E_ISDIR :: int where [kdefs]: "E_ISDIR = 17"
definition E_NOTDIR :: int where [kdefs]: "E_NOTDIR = 18"
definition E_UNIMP :: int where [kdefs]: "E_UNIMP = 20"
definition E_MAX_OPEN :: int where [kdefs]: "E_MAX_OPEN = 22"
definition E_EXISTS :: int where [kdefs]: "E_EXISTS = 23"

section \<open>Rounding (defs.h)\<close>

definition ROUNDDOWN :: "u32 \<Rightarrow> u32 \<Rightarrow> u32" where
  "ROUNDDOWN a n = a - a mod n"

definition ROUNDUP :: "u32 \<Rightarrow> u32 \<Rightarrow> u32" where
  "ROUNDUP a n = ROUNDDOWN (a + n - 1) n"

definition ROUNDUP_DIV :: "u32 \<Rightarrow> u32 \<Rightarrow> u32" where
  "ROUNDUP_DIV a n = (a + n - 1) div n"

lemma unat_ROUNDDOWN: "unat (ROUNDDOWN a n) = unat a - unat a mod unat n"
proof -
  have "a mod n \<le> a"
    by (simp add: word_le_nat_alt unat_mod)
  then show ?thesis
    by (simp add: ROUNDDOWN_def unat_sub unat_mod)
qed

lemma ROUNDDOWN_le: "ROUNDDOWN a n \<le> a"
  by (simp add: word_le_nat_alt unat_ROUNDDOWN)

lemma ROUNDDOWN_aligned: "unat (ROUNDDOWN a n) mod unat n = 0"
  by (simp add: unat_ROUNDDOWN minus_mod_eq_mult_div)

end
