(* ===== verification/Lib_List.thy ===== *)
theory Lib_List
  imports Ucore_Prelude
begin

text \<open>
  The circular doubly linked lists of src/ucore_os/libs/list.h on an explicit heap of
  \<open>list_entry\<close> cells, and their contract as a locale: a list head with its entries
  represents a HOL list, and each operation acts on that list as its comment says.
  The other theories keep the represented list in their state and use the list operations
  \<open>ins_after\<close>, \<open>ins_before\<close> and \<open>remove1\<close> that are shown here to be what the pointer code does.
\<close>

section \<open>The pointer code\<close>

record list_heap =
  le_prev :: "nat \<Rightarrow> nat"
  le_next :: "nat \<Rightarrow> nat"

definition list_init :: "nat \<Rightarrow> list_heap \<Rightarrow> list_heap" where
  "list_init elm h = h\<lparr>le_next := (le_next h)(elm := elm), le_prev := (le_prev h)(elm := elm)\<rparr>"

text \<open>\<open>raw_list_add\<close> and \<open>raw_list_del\<close> are \<open>__list_add\<close> and \<open>__list_del\<close>, one assignment after the other.\<close>

definition raw_list_add :: "nat \<Rightarrow> nat \<Rightarrow> nat \<Rightarrow> list_heap \<Rightarrow> list_heap" where
  "raw_list_add elm prev next h0 =
     (let h1 = h0\<lparr>le_prev := (le_prev h0)(next := elm)\<rparr>;
          h2 = h1\<lparr>le_next := (le_next h1)(prev := elm)\<rparr>;
          h3 = h2\<lparr>le_next := (le_next h2)(elm := next)\<rparr>
      in h3\<lparr>le_prev := (le_prev h3)(elm := prev)\<rparr>)"

definition raw_list_del :: "nat \<Rightarrow> nat \<Rightarrow> list_heap \<Rightarrow> list_heap" where
  "raw_list_del prev next h0 =
     (let h1 = h0\<lparr>le_next := (le_next h0)(prev := next)\<rparr>
      in h1\<lparr>le_prev := (le_prev h1)(next := prev)\<rparr>)"

definition list_add_before :: "nat \<Rightarrow> nat \<Rightarrow> list_heap \<Rightarrow> list_heap" where
  "list_add_before listelm elm h = raw_list_add elm (le_prev h listelm) listelm h"

definition list_add_after :: "nat \<Rightarrow> nat \<Rightarrow> list_heap \<Rightarrow> list_heap" where
  "list_add_after listelm elm h = raw_list_add elm listelm (le_next h listelm) h"

definition list_add :: "nat \<Rightarrow> nat \<Rightarrow> list_heap \<Rightarrow> list_heap" where
  "list_add listelm elm h = list_add_after listelm elm h"

definition list_del :: "nat \<Rightarrow> list_heap \<Rightarrow> list_heap" where
  "list_del listelm h = raw_list_del (le_prev h listelm) (le_next h listelm) h"

definition list_del_init :: "nat \<Rightarrow> list_heap \<Rightarrow> list_heap" where
  "list_del_init listelm h = list_init listelm (list_del listelm h)"

definition list_empty :: "nat \<Rightarrow> list_heap \<Rightarrow> bool" where
  "list_empty l h \<longleftrightarrow> le_next h l = l"

definition list_next :: "nat \<Rightarrow> list_heap \<Rightarrow> nat" where
  "list_next listelm h = le_next h listelm"

definition list_prev :: "nat \<Rightarrow> list_heap \<Rightarrow> nat" where
  "list_prev listelm h = le_prev h listelm"


text \<open>The traversal idiom \<open>while ((le = list_next(le)) != list)\<close>: the entries visited, in order.\<close>

partial_function (option) list_walk :: "nat \<Rightarrow> nat \<Rightarrow> list_heap \<Rightarrow> nat list option" where
  "list_walk list le h =
     (let le' = list_next le h
      in if le' = list then Some [] else do { r \<leftarrow> list_walk list le' h; Some (le' # r) })"

lemmas list_defs [kdefs] =
  list_init_def raw_list_add_def raw_list_del_def list_add_before_def list_add_after_def
  list_add_def list_del_def list_del_init_def list_empty_def list_next_def list_prev_def

section \<open>The list a head represents\<close>

text \<open>\<open>chain f x xs y\<close>: following \<open>f\<close> from \<open>x\<close> visits \<open>xs\<close> and then arrives at \<open>y\<close>.\<close>

fun chain :: "(nat \<Rightarrow> nat) \<Rightarrow> nat \<Rightarrow> nat list \<Rightarrow> nat \<Rightarrow> bool" where
  "chain f x [] y \<longleftrightarrow> f x = y"
| "chain f x (z # zs) y \<longleftrightarrow> f x = z \<and> chain f z zs y"

definition dlist :: "list_heap \<Rightarrow> nat \<Rightarrow> nat list \<Rightarrow> bool" where
  "dlist h l xs \<longleftrightarrow>
     distinct (l # xs) \<and> chain (le_next h) l xs l \<and> chain (le_prev h) l (rev xs) l"

lemma chain_split: "chain f x (xs @ ys) y \<Longrightarrow> f (last (x # xs)) = hd (ys @ [y])"
  by (induction xs arbitrary: x) (cases ys; auto)+

lemma chain_upd [simp]: "u \<notin> set (x # xs) \<Longrightarrow> chain (f(u := v)) x xs y = chain f x xs y"
  by (induction xs arbitrary: x) auto

lemma chain_congI:
  "chain f x xs y \<Longrightarrow> (\<And>z. z \<in> set (x # xs) \<Longrightarrow> g z = f z) \<Longrightarrow> chain g x xs y"
  by (induction xs arbitrary: x) auto

lemma chain_insert:
  assumes "chain f x (xs @ ys) y" "distinct (x # xs @ ys)" "e \<notin> set (x # xs @ ys)"
  shows "chain (f(last (x # xs) := e, e := hd (ys @ [y]))) x (xs @ e # ys) y"
  using assms
proof (induction xs arbitrary: x)
  case Nil
  then show ?case by (cases ys) (auto elim!: chain_congI)
next
  case (Cons z zs)
  have "chain (f(last (z # zs) := e, e := hd (ys @ [y]))) z (zs @ e # ys) y"
    by (rule Cons.IH) (use Cons.prems in auto)
  moreover have "x \<noteq> last (z # zs)" "x \<noteq> e" "f x = z"
    using Cons.prems last_in_set [of "z # zs"] by auto
  then have "(f(last (z # zs) := e, e := hd (ys @ [y]))) x = z" by simp
  moreover have "last (x # z # zs) = last (z # zs)" by simp
  ultimately show ?case by (simp only: append_Cons chain.simps)
qed

lemma chain_delete:
  assumes "chain f x (xs @ e # ys) y" "distinct (x # xs @ e # ys)"
  shows "chain (f(last (x # xs) := hd (ys @ [y]))) x (xs @ ys) y"
  using assms
proof (induction xs arbitrary: x)
  case Nil
  then show ?case by (cases ys) (auto elim!: chain_congI)
next
  case (Cons z zs)
  have "chain (f(last (z # zs) := hd (ys @ [y]))) z (zs @ ys) y"
    by (rule Cons.IH) (use Cons.prems in auto)
  moreover have "x \<noteq> last (z # zs)" "f x = z"
    using Cons.prems last_in_set [of "z # zs"] by auto
  then have "(f(last (z # zs) := hd (ys @ [y]))) x = z" by simp
  moreover have "last (x # z # zs) = last (z # zs)" by simp
  ultimately show ?case by (simp only: append_Cons chain.simps)
qed

lemma hd_rev_last: "hd (rev xs @ [l]) = last (l # xs)" "last (l # rev ys) = hd (ys @ [l])"
  by (cases xs rule: rev_cases; auto) (cases ys; auto)

text \<open>What inserting next to an entry does to the represented list.\<close>

fun ins_after :: "'a \<Rightarrow> 'a \<Rightarrow> 'a list \<Rightarrow> 'a list" where
  "ins_after x e [] = []"
| "ins_after x e (y # ys) = (if x = y then y # e # ys else y # ins_after x e ys)"

fun ins_before :: "'a \<Rightarrow> 'a \<Rightarrow> 'a list \<Rightarrow> 'a list" where
  "ins_before x e [] = []"
| "ins_before x e (y # ys) = (if x = y then e # y # ys else y # ins_before x e ys)"

lemma ins_after_split: "x \<notin> set xs \<Longrightarrow> ins_after x e (xs @ x # ys) = xs @ x # e # ys"
  by (induction xs) auto

lemma ins_before_split: "x \<notin> set xs \<Longrightarrow> ins_before x e (xs @ x # ys) = xs @ e # x # ys"
  by (induction xs) auto

lemma set_ins_after: "x \<in> set xs \<Longrightarrow> set (ins_after x e xs) = insert e (set xs)"
  by (induction xs) auto

lemma set_ins_before: "x \<in> set xs \<Longrightarrow> set (ins_before x e xs) = insert e (set xs)"
  by (induction xs) auto

lemma remove1_split: "x \<notin> set xs \<Longrightarrow> remove1 x (xs @ x # ys) = xs @ ys"
  by (simp add: remove1_append)

text \<open>The two neighbours of a position in a represented list.\<close>

lemma dlist_next_split:
  "dlist h l (xs @ ys) \<Longrightarrow> le_next h (last (l # xs)) = hd (ys @ [l])"
  unfolding dlist_def by (blast intro: chain_split)

lemma dlist_prev_split:
  "dlist h l (xs @ ys) \<Longrightarrow> le_prev h (hd (ys @ [l])) = last (l # xs)"
  using chain_split [of "le_prev h" l "rev ys" "rev xs" l]
  by (simp add: dlist_def hd_rev_last del: last.simps)

text \<open>Inserting between two neighbours, and deleting between them.\<close>

lemma dlist_raw_add:
  assumes d: "dlist h l (xs @ ys)" and e: "e \<notin> set (l # xs @ ys)"
  shows "dlist (raw_list_add e (last (l # xs)) (hd (ys @ [l])) h) l (xs @ e # ys)"
proof -
  let ?h = "raw_list_add e (last (l # xs)) (hd (ys @ [l])) h"
  have "le_next ?h = (le_next h)(last (l # xs) := e, e := hd (ys @ [l]))"
    and "le_prev ?h = (le_prev h)(last (l # rev ys) := e, e := hd (rev xs @ [l]))"
    by (simp_all add: raw_list_add_def Let_def hd_rev_last del: last.simps)
  moreover have "chain ((le_next h)(last (l # xs) := e, e := hd (ys @ [l]))) l (xs @ e # ys) l"
    by (rule chain_insert) (use d e in \<open>auto simp: dlist_def\<close>)
  moreover have "chain ((le_prev h)(last (l # rev ys) := e, e := hd (rev xs @ [l]))) l (rev ys @ e # rev xs) l"
    by (rule chain_insert) (use d e in \<open>auto simp: dlist_def\<close>)
  ultimately show ?thesis
    using d e by (simp add: dlist_def)
qed

lemma dlist_raw_del:
  assumes d: "dlist h l (xs @ e # ys)"
  shows "dlist (raw_list_del (last (l # xs)) (hd (ys @ [l])) h) l (xs @ ys)"
proof -
  let ?h = "raw_list_del (last (l # xs)) (hd (ys @ [l])) h"
  have "le_next ?h = (le_next h)(last (l # xs) := hd (ys @ [l]))"
    and "le_prev ?h = (le_prev h)(last (l # rev ys) := hd (rev xs @ [l]))"
    by (simp_all add: raw_list_del_def Let_def hd_rev_last del: last.simps)
  moreover have "chain ((le_next h)(last (l # xs) := hd (ys @ [l]))) l (xs @ ys) l"
    by (rule chain_delete) (use d in \<open>auto simp: dlist_def\<close>)
  moreover have "chain ((le_prev h)(last (l # rev ys) := hd (rev xs @ [l]))) l (rev ys @ rev xs) l"
    by (rule chain_delete) (use d in \<open>auto simp: dlist_def\<close>)
  ultimately show ?thesis
    using d by (simp add: dlist_def)
qed

lemma dlist_init: "dlist (list_init l h) l []"
  by (simp add: dlist_def list_init_def)

lemma dlist_empty: "dlist h l xs \<Longrightarrow> list_empty l h \<longleftrightarrow> xs = []"
  by (cases xs) (auto simp: dlist_def list_empty_def)

lemma dlist_add_after:
  assumes "dlist h l (xs @ ys)" and "e \<notin> set (l # xs @ ys)"
  shows "dlist (list_add_after (last (l # xs)) e h) l (xs @ e # ys)"
  using dlist_raw_add [OF assms] dlist_next_split [OF assms(1)]
  by (simp only: list_add_after_def)

lemma dlist_add_before:
  assumes "dlist h l (xs @ ys)" and "e \<notin> set (l # xs @ ys)"
  shows "dlist (list_add_before (hd (ys @ [l])) e h) l (xs @ e # ys)"
  using dlist_raw_add [OF assms] dlist_prev_split [OF assms(1)]
  by (simp only: list_add_before_def)

lemma dlist_del:
  assumes "dlist h l (xs @ e # ys)"
  shows "dlist (list_del e h) l (xs @ ys)"
proof -
  have "le_prev h e = last (l # xs)"
    using dlist_prev_split [OF assms] by simp
  moreover have "le_next h e = hd (ys @ [l])"
    using dlist_next_split [of h l "xs @ [e]" ys] assms by simp
  ultimately show ?thesis
    using dlist_raw_del [OF assms] by (simp only: list_del_def)
qed

text \<open>Lists of other heads are not touched.\<close>

lemma dlist_frame:
  assumes "dlist h k ks" "e \<notin> set (k # ks)" "a \<notin> set (k # ks)" "b \<notin> set (k # ks)"
  shows "dlist (raw_list_add e a b h) k ks" "dlist (raw_list_del a b h) k ks"
  using assms by (auto simp: dlist_def raw_list_add_def raw_list_del_def Let_def elim!: chain_congI)

lemma list_walk_chain:
  "chain (le_next h) le xs l \<Longrightarrow> l \<notin> set xs \<Longrightarrow> list_walk l le h = Some xs"
  by (induction xs arbitrary: le)
     (subst list_walk.simps; simp add: list_next_def Let_def)+

lemma dlist_walk: "dlist h l xs \<Longrightarrow> list_walk l l h = Some xs"
  by (simp add: dlist_def list_walk_chain)

section \<open>The contract\<close>

text \<open>
  What the kernel relies on: a head \<open>l\<close> represents a list; a new entry goes where the
  operation's comment says; \<open>del\<close> takes one entry out; \<open>nxt\<close> and \<open>prv\<close> of the head are the
  two ends. The lemmas below are the three disciplines the kernel builds from them: a FIFO
  queue (\<open>add_before\<close> at the head, take \<open>nxt\<close>), a stack (\<open>add_after\<close> at the head, take
  \<open>nxt\<close>), and a FIFO read from the other end (\<open>add_after\<close> at the head, take \<open>prv\<close>).
\<close>

locale circular_list =
  fixes init :: "'p \<Rightarrow> 'h \<Rightarrow> 'h"
    and add_after :: "'p \<Rightarrow> 'p \<Rightarrow> 'h \<Rightarrow> 'h"
    and add_before :: "'p \<Rightarrow> 'p \<Rightarrow> 'h \<Rightarrow> 'h"
    and del :: "'p \<Rightarrow> 'h \<Rightarrow> 'h"
    and nxt :: "'p \<Rightarrow> 'h \<Rightarrow> 'p"
    and prv :: "'p \<Rightarrow> 'h \<Rightarrow> 'p"
    and rep :: "'h \<Rightarrow> 'p \<Rightarrow> 'p list \<Rightarrow> bool"
  assumes rep_init: "rep (init l h) l []"
    and rep_distinct: "rep h l xs \<Longrightarrow> distinct (l # xs)"
    and rep_add_after:
      "rep h l (xs @ ys) \<Longrightarrow> e \<notin> set (l # xs @ ys) \<Longrightarrow> rep (add_after (last (l # xs)) e h) l (xs @ e # ys)"
    and rep_add_before:
      "rep h l (xs @ ys) \<Longrightarrow> e \<notin> set (l # xs @ ys) \<Longrightarrow> rep (add_before (hd (ys @ [l])) e h) l (xs @ e # ys)"
    and rep_del: "rep h l (xs @ e # ys) \<Longrightarrow> rep (del e h) l (xs @ ys)"
    and rep_nxt: "rep h l (xs @ ys) \<Longrightarrow> nxt (last (l # xs)) h = hd (ys @ [l])"
    and rep_prv: "rep h l (xs @ ys) \<Longrightarrow> prv (hd (ys @ [l])) h = last (l # xs)"
begin

lemma enqueue: "rep h l xs \<Longrightarrow> e \<notin> set (l # xs) \<Longrightarrow> rep (add_before l e h) l (xs @ [e])"
  using rep_add_before [of h l xs "[]" e] by simp

lemma push: "rep h l xs \<Longrightarrow> e \<notin> set (l # xs) \<Longrightarrow> rep (add_after l e h) l (e # xs)"
  using rep_add_after [of h l "[]" xs e] by simp

lemma remove:
  assumes "rep h l zs" "e \<in> set zs"
  shows "rep (del e h) l (remove1 e zs)"
proof -
  obtain xs ys where zs: "zs = xs @ e # ys" and e: "e \<notin> set xs"
    using split_list_first [OF assms(2)] by blast
  show ?thesis
    using rep_del [of h l xs e ys] assms(1) by (simp add: zs remove1_split [OF e])
qed

lemma first: "rep h l (x # xs) \<Longrightarrow> nxt l h = x \<and> rep (del x h) l xs"
  using rep_nxt [of h l "[]" "x # xs"] rep_del [of h l "[]" x xs] by simp

lemma end_of_list: "rep h l xs \<Longrightarrow> prv l h = last (l # xs)"
  using rep_prv [of h l xs "[]"] by simp

lemma last_out: "rep h l (xs @ [x]) \<Longrightarrow> prv l h = x \<and> rep (del x h) l xs"
  using end_of_list [of h l "xs @ [x]"] rep_del [of h l xs x "[]"] by simp

lemma insert_after:
  assumes "rep h l zs" "p \<in> set zs" "e \<notin> set (l # zs)"
  shows "rep (add_after p e h) l (ins_after p e zs)"
proof -
  obtain xs ys where zs: "zs = xs @ p # ys" and p: "p \<notin> set xs"
    using split_list_first [OF assms(2)] by blast
  show ?thesis
    using rep_add_after [of h l "xs @ [p]" ys e] assms
    by (simp add: zs ins_after_split [OF p])
qed

lemma insert_before:
  assumes "rep h l zs" "p \<in> set zs" "e \<notin> set (l # zs)"
  shows "rep (add_before p e h) l (ins_before p e zs)"
proof -
  obtain xs ys where zs: "zs = xs @ p # ys" and p: "p \<notin> set xs"
    using split_list_first [OF assms(2)] by blast
  show ?thesis
    using rep_add_before [of h l xs "p # ys" e] assms
    by (simp add: zs ins_before_split [OF p])
qed

lemma enqueue_all:
  assumes "rep h l xs" "distinct es" "set es \<inter> set (l # xs) = {}"
  shows "rep (fold (add_before l) es h) l (xs @ es)"
  using assms
proof (induction es arbitrary: h xs)
  case Nil
  then show ?case by simp
next
  case (Cons e es)
  then have "rep (add_before l e h) l (xs @ [e])" by (auto intro!: enqueue)
  then have "rep (fold (add_before l) es (add_before l e h)) l ((xs @ [e]) @ es)"
    by (rule Cons.IH) (use Cons.prems in auto)
  then show ?case by simp
qed

end

interpretation ucore_list:
  circular_list list_init list_add_after list_add_before list_del list_next list_prev dlist
proof unfold_locales
  show "dlist (list_init l h) l []" for l h
    by (rule dlist_init)
next
  show "dlist h l xs \<Longrightarrow> distinct (l # xs)" for h l xs
    by (simp add: dlist_def)
next
  show "dlist h l (xs @ ys) \<Longrightarrow> list_next (last (l # xs)) h = hd (ys @ [l])" for h l xs ys
    using dlist_next_split by (simp only: list_next_def)
next
  show "dlist h l (xs @ ys) \<Longrightarrow> list_prev (hd (ys @ [l])) h = last (l # xs)" for h l xs ys
    using dlist_prev_split by (simp only: list_prev_def)
qed (rule dlist_add_after dlist_add_before dlist_del; assumption)+

section \<open>Properties\<close>

text \<open>Draining a list from the front, as the wake-up and run-queue loops do.\<close>

fun drain :: "nat \<Rightarrow> nat \<Rightarrow> list_heap \<Rightarrow> nat list \<times> list_heap" where
  "drain 0 l h = ([], h)"
| "drain (Suc n) l h =
     (if list_empty l h then ([], h)
      else let le = list_next l h; (r, h') = drain n l (list_del le h) in (le # r, h'))"

lemma drain_rep: "dlist h l xs \<Longrightarrow> length xs \<le> n \<Longrightarrow> \<exists>h'. drain n l h = (xs, h') \<and> dlist h' l []"
proof (induction n arbitrary: h xs)
  case 0
  then show ?case by simp
next
  case (Suc n)
  show ?case
  proof (cases xs)
    case Nil
    then show ?thesis using Suc.prems by (simp add: dlist_empty)
  next
    case (Cons x ys)
    with Suc.prems have "dlist (list_del x h) l ys" "list_next l h = x"
      using ucore_list.first by auto
    moreover from this(1) obtain h' where "drain n l (list_del x h) = (ys, h')" "dlist h' l []"
      using Suc Cons by auto
    ultimately show ?thesis
      using Suc.prems Cons by (simp add: dlist_empty)
  qed
qed

text \<open>
  C5: entries put in with \<open>list_add_before(head, e)\<close> come out of the head in the order they
  were put in, behind the entries that were already there, and leave an empty list.
\<close>

theorem list_fifo:
  assumes "dlist h l xs" and "distinct es" and "set es \<inter> set (l # xs) = {}"
  shows "\<exists>h'. drain (length (xs @ es)) l (fold (list_add_before l) es h) = (xs @ es, h') \<and> list_empty l h'"
proof -
  have "dlist (fold (list_add_before l) es h) l (xs @ es)"
    using assms by (rule ucore_list.enqueue_all)
  then obtain h' where "drain (length (xs @ es)) l (fold (list_add_before l) es h) = (xs @ es, h')"
    and "dlist h' l []"
    using drain_rep [of _ l "xs @ es" "length (xs @ es)"] by blast
  then show ?thesis by (auto simp: dlist_empty)
qed

definition heap0 :: list_heap where
  "heap0 = list_init 0 \<lparr>le_prev = (\<lambda>_. 7), le_next = (\<lambda>_. 9)\<rparr>"

theorem list_fifo_witness:
  "dlist heap0 0 [] \<and> (\<exists>h'. drain 3 0 (fold (list_add_before 0) [5, 2, 8] heap0) = ([5, 2, 8], h') \<and> list_empty 0 h')"
proof -
  have h: "dlist heap0 0 []" by (simp add: heap0_def dlist_init)
  show ?thesis using h list_fifo [OF h, of "[5, 2, 8]"] by (simp add: eval_nat_numeral)
qed

text \<open>
  C6: an entry taken out right after it was inserted anywhere in a list leaves every link of
  every other entry as it was.
\<close>

theorem list_add_del_roundtrip:
  assumes "dlist h l (xs @ ys)" and "e \<notin> set (l # xs @ ys)" and "z \<noteq> e"
  shows "le_next (list_del e (list_add_after (last (l # xs)) e h)) z = le_next h z \<and>
    le_prev (list_del e (list_add_after (last (l # xs)) e h)) z = le_prev h z"
proof -
  let ?a = "last (l # xs)" and ?b = "hd (ys @ [l])"
  have n: "le_next h ?a = ?b" and p: "le_prev h ?b = ?a"
    by (rule dlist_next_split dlist_prev_split, rule assms(1))+
  have "?a \<noteq> e" "?b \<noteq> e"
    using assms(2) last_in_set [of "l # xs"] hd_in_set [of "ys @ [l]"] by auto
  then show "le_next (list_del e (list_add_after ?a e h)) z = le_next h z \<and>
    le_prev (list_del e (list_add_after ?a e h)) z = le_prev h z"
    using n p assms(3) unfolding list_defs Let_def
    by (auto simp del: last.simps)
qed

theorem list_add_del_roundtrip_witness:
  "le_next (list_del 5 (list_add_after 0 5 heap0)) 0 = 0"
  using list_add_del_roundtrip [of heap0 0 "[]" "[]" 5 0]
  by (simp add: heap0_def dlist_init) (simp add: list_init_def)

end
