(* ===== verification/Lib_String.thy ===== *)
theory Lib_String
  imports Ucore_Prelude "HOL-Library.Char_ord"
begin

text \<open>
  The string library src/ucore_os/libs/string.c over a byte memory, and the inline-assembly versions
  of src/ucore_os/libs/x86.h that the kernel build selects for some of its functions.

  A pointer is a natural number and memory maps addresses to bytes; no object reaches the end of the
  address space. A loop that runs to the terminating NUL is a partial function: \<open>None\<close> means it never
  returns. The lemmas give each function its usual contract, in particular that it returns on
  terminated strings, and show that the assembly versions agree with the portable ones.
\<close>

type_synonym mem = "nat \<Rightarrow> char"

abbreviation NUL :: char where "NUL \<equiv> CHR 0x00"
abbreviation uchar :: "char \<Rightarrow> int" where "uchar c \<equiv> int (of_char c)"

section \<open>Strings\<close>

partial_function (option) strlen_loop :: "mem \<Rightarrow> nat \<Rightarrow> nat \<Rightarrow> nat option" where
  "strlen_loop m s cnt = (if m s \<noteq> NUL then strlen_loop m (s + 1) (cnt + 1) else Some cnt)"

definition strlen :: "mem \<Rightarrow> nat \<Rightarrow> nat option" where
  "strlen m s = strlen_loop m s 0"

function strnlen_loop :: "mem \<Rightarrow> nat \<Rightarrow> nat \<Rightarrow> nat \<Rightarrow> nat" where
  "strnlen_loop m s len cnt = (if cnt < len \<and> m s \<noteq> NUL then strnlen_loop m (s + 1) len (cnt + 1) else cnt)"
  by pat_completeness auto
termination by (relation "measure (\<lambda>(m, s, len, cnt). len - cnt)") auto

declare strnlen_loop.simps [simp del]

definition strnlen :: "mem \<Rightarrow> nat \<Rightarrow> nat \<Rightarrow> nat" where
  "strnlen m s len = strnlen_loop m s len 0"

partial_function (option) strcpy_loop :: "nat \<Rightarrow> nat \<Rightarrow> mem \<Rightarrow> mem option" where
  "strcpy_loop p src m = (if m src \<noteq> NUL then strcpy_loop (p + 1) (src + 1) (m(p := m src)) else Some (m(p := m src)))"

definition strcpy :: "nat \<Rightarrow> nat \<Rightarrow> mem \<Rightarrow> (nat \<times> mem) option" where
  "strcpy dst src m = do { m' \<leftarrow> strcpy_loop dst src m; Some (dst, m') }"

definition strcat :: "nat \<Rightarrow> nat \<Rightarrow> mem \<Rightarrow> (nat \<times> mem) option" where
  "strcat dst src m = do { n \<leftarrow> strlen m dst; strcpy (dst + n) src m }"

fun strncpy_loop :: "nat \<Rightarrow> nat \<Rightarrow> nat \<Rightarrow> mem \<Rightarrow> mem" where
  "strncpy_loop p src 0 m = m"
| "strncpy_loop p src (Suc len) m = strncpy_loop (p + 1) (if m src \<noteq> NUL then src + 1 else src) len (m(p := m src))"

definition strncpy :: "nat \<Rightarrow> nat \<Rightarrow> nat \<Rightarrow> mem \<Rightarrow> nat \<times> mem" where
  "strncpy dst src len m = (dst, strncpy_loop dst src len m)"

partial_function (option) strcmp :: "mem \<Rightarrow> nat \<Rightarrow> nat \<Rightarrow> int option" where
  "strcmp m s1 s2 = (if m s1 \<noteq> NUL \<and> m s1 = m s2 then strcmp m (s1 + 1) (s2 + 1) else Some (uchar (m s1) - uchar (m s2)))"

fun strncmp :: "mem \<Rightarrow> nat \<Rightarrow> nat \<Rightarrow> nat \<Rightarrow> int" where
  "strncmp m s1 s2 0 = 0"
| "strncmp m s1 s2 (Suc n) =
     (if m s1 \<noteq> NUL \<and> m s1 = m s2 then strncmp m (s1 + 1) (s2 + 1) n else uchar (m s1) - uchar (m s2))"

partial_function (option) strchr :: "mem \<Rightarrow> nat \<Rightarrow> char \<Rightarrow> nat option option" where
  "strchr m s c = (if m s \<noteq> NUL then (if m s = c then Some (Some s) else strchr m (s + 1) c) else Some None)"

partial_function (option) strfind :: "mem \<Rightarrow> nat \<Rightarrow> char \<Rightarrow> nat option" where
  "strfind m s c = (if m s \<noteq> NUL then (if m s = c then Some s else strfind m (s + 1) c) else Some s)"

section \<open>Numbers\<close>

partial_function (option) skip_blanks :: "mem \<Rightarrow> nat \<Rightarrow> nat option" where
  "skip_blanks m s = (if m s = CHR '' '' \<or> m s = CHR 0x09 then skip_blanks m (s + 1) else Some s)"

definition digit_val :: "char \<Rightarrow> int option" where
  "digit_val c =
     (if CHR ''0'' \<le> c \<and> c \<le> CHR ''9'' then Some (uchar c - uchar (CHR ''0''))
      else if CHR ''a'' \<le> c \<and> c \<le> CHR ''z'' then Some (uchar c - uchar (CHR ''a'') + 10)
      else if CHR ''A'' \<le> c \<and> c \<le> CHR ''Z'' then Some (uchar c - uchar (CHR ''A'') + 10)
      else None)"

text \<open>\<open>long\<close> has 32 bits; its overflow, which the code does not detect, wraps around.\<close>

partial_function (option) strtol_digits :: "mem \<Rightarrow> nat \<Rightarrow> int \<Rightarrow> u32 \<Rightarrow> (nat \<times> u32) option" where
  "strtol_digits m s base val =
     (case digit_val (m s) of
        None \<Rightarrow> Some (s, val)
      | Some dig \<Rightarrow> if dig \<ge> base then Some (s, val) else strtol_digits m (s + 1) base (val * word_of_int base + word_of_int dig))"

definition strtol :: "mem \<Rightarrow> nat \<Rightarrow> int \<Rightarrow> (int \<times> nat) option" where
  "strtol m s base = do {
     s \<leftarrow> skip_blanks m s;
     let (s, neg) = (if m s = CHR ''+'' then (s + 1, False) else if m s = CHR ''-'' then (s + 1, True) else (s, False));
     let (s, base) =
       (if (base = 0 \<or> base = 16) \<and> m s = CHR ''0'' \<and> m (s + 1) = CHR ''x'' then (s + 2, 16)
        else if base = 0 \<and> m s = CHR ''0'' then (s + 1, 8)
        else if base = 0 then (s, 10) else (s, base));
     (s, val) \<leftarrow> strtol_digits m s base 0;
     Some (sint (if neg then - val else val), s)
   }"

section \<open>Memory blocks\<close>

fun memset_loop :: "nat \<Rightarrow> char \<Rightarrow> nat \<Rightarrow> mem \<Rightarrow> mem" where
  "memset_loop p c 0 m = m"
| "memset_loop p c (Suc n) m = memset_loop (p + 1) c n (m(p := c))"

definition memset :: "nat \<Rightarrow> char \<Rightarrow> nat \<Rightarrow> mem \<Rightarrow> nat \<times> mem" where
  "memset s c n m = (s, memset_loop s c n m)"

fun copy_up :: "nat \<Rightarrow> nat \<Rightarrow> nat \<Rightarrow> mem \<Rightarrow> mem" where
  "copy_up d s 0 m = m"
| "copy_up d s (Suc n) m = copy_up (d + 1) (s + 1) n (m(d := m s))"

fun copy_down :: "nat \<Rightarrow> nat \<Rightarrow> nat \<Rightarrow> mem \<Rightarrow> mem" where
  "copy_down d s 0 m = m"
| "copy_down d s (Suc n) m = copy_down (d - 1) (s - 1) n (m(d - 1 := m (s - 1)))"

definition memmove :: "nat \<Rightarrow> nat \<Rightarrow> nat \<Rightarrow> mem \<Rightarrow> nat \<times> mem" where
  "memmove dst src n m =
     (dst, if src < dst \<and> src + n > dst then copy_down (dst + n) (src + n) n m else copy_up dst src n m)"

definition memcpy :: "nat \<Rightarrow> nat \<Rightarrow> nat \<Rightarrow> mem \<Rightarrow> nat \<times> mem" where
  "memcpy dst src n m = (dst, copy_up dst src n m)"

fun memcmp :: "mem \<Rightarrow> nat \<Rightarrow> nat \<Rightarrow> nat \<Rightarrow> int" where
  "memcmp m s1 s2 0 = 0"
| "memcmp m s1 s2 (Suc n) = (if m s1 \<noteq> m s2 then uchar (m s1) - uchar (m s2) else memcmp m (s1 + 1) (s2 + 1) n)"

section \<open>The x86 versions\<close>

text \<open>
  The string instructions with the direction flag clear, or set for the \<open>_down\<close> versions, and the count
  register as the last number before the memory.
\<close>

fun rep_stosb :: "nat \<Rightarrow> char \<Rightarrow> nat \<Rightarrow> mem \<Rightarrow> mem" where
  "rep_stosb edi al 0 m = m"
| "rep_stosb edi al (Suc ecx) m = rep_stosb (edi + 1) al ecx (m(edi := al))"

fun rep_movsb :: "nat \<Rightarrow> nat \<Rightarrow> nat \<Rightarrow> mem \<Rightarrow> nat \<times> nat \<times> mem" where
  "rep_movsb edi esi 0 m = (edi, esi, m)"
| "rep_movsb edi esi (Suc ecx) m = rep_movsb (edi + 1) (esi + 1) ecx (m(edi := m esi))"

fun rep_movsl :: "nat \<Rightarrow> nat \<Rightarrow> nat \<Rightarrow> mem \<Rightarrow> nat \<times> nat \<times> mem" where
  "rep_movsl edi esi 0 m = (edi, esi, m)"
| "rep_movsl edi esi (Suc ecx) m =
     rep_movsl (edi + 4) (esi + 4) ecx
       (m(edi := m esi, edi + 1 := m (esi + 1), edi + 2 := m (esi + 2), edi + 3 := m (esi + 3)))"

fun rep_movsb_down :: "int \<Rightarrow> int \<Rightarrow> nat \<Rightarrow> mem \<Rightarrow> mem" where
  "rep_movsb_down edi esi 0 m = m"
| "rep_movsb_down edi esi (Suc ecx) m = rep_movsb_down (edi - 1) (esi - 1) ecx (m(nat edi := m (nat esi)))"

partial_function (option) x86_strcmp :: "mem \<Rightarrow> nat \<Rightarrow> nat \<Rightarrow> int option" where
  "x86_strcmp m esi edi =
     (let al = m esi in
      if al \<noteq> m edi then Some (if of_char al < (of_char (m edi) :: nat) then - 1 else 1)
      else if al \<noteq> NUL then x86_strcmp m (esi + 1) (edi + 1) else Some 0)"

partial_function (option) x86_strcpy_loop :: "nat \<Rightarrow> nat \<Rightarrow> mem \<Rightarrow> mem option" where
  "x86_strcpy_loop edi esi m =
     (let al = m esi; m1 = m(edi := al) in if al \<noteq> NUL then x86_strcpy_loop (edi + 1) (esi + 1) m1 else Some m1)"

definition x86_strcpy :: "nat \<Rightarrow> nat \<Rightarrow> mem \<Rightarrow> (nat \<times> mem) option" where
  "x86_strcpy dst src m = do { m' \<leftarrow> x86_strcpy_loop dst src m; Some (dst, m') }"

definition x86_memset :: "nat \<Rightarrow> char \<Rightarrow> nat \<Rightarrow> mem \<Rightarrow> nat \<times> mem" where
  "x86_memset s c n m = (s, rep_stosb s c n m)"

definition x86_memcpy :: "nat \<Rightarrow> nat \<Rightarrow> nat \<Rightarrow> mem \<Rightarrow> nat \<times> mem" where
  "x86_memcpy dst src n m =
     (let (edi, esi, m1) = rep_movsl dst src (n div 4) m; ecx = n mod 4
      in (dst, if ecx = 0 then m1 else snd (snd (rep_movsb edi esi ecx m1))))"

definition x86_memmove :: "nat \<Rightarrow> nat \<Rightarrow> nat \<Rightarrow> mem \<Rightarrow> nat \<times> mem" where
  "x86_memmove dst src n m =
     (if dst < src then x86_memcpy dst src n m
      else (dst, rep_movsb_down (int n - 1 + int dst) (int n - 1 + int src) n m))"

text \<open>
  The macro \<open>do_div(n, base)\<close>: a 64-bit number divided by a 32-bit one with the 32-bit instruction
  \<open>divl\<close>, which faults (\<open>None\<close>) when the quotient does not fit; the result is the quotient, stored
  back to \<open>n\<close>, and the remainder.
\<close>

definition divl :: "u32 \<Rightarrow> u32 \<Rightarrow> u32 \<Rightarrow> (u32 \<times> u32) option" where
  "divl edx eax d =
     (let n = unat edx * 2 ^ 32 + unat eax in
      if d = 0 \<or> n div unat d \<ge> 2 ^ 32 then None else Some (of_nat (n div unat d), of_nat (n mod unat d)))"

definition do_div :: "u64 \<Rightarrow> u32 \<Rightarrow> (u64 \<times> u32) option" where
  "do_div n base = do {
     let low = ucast n;
     let high = ucast (drop_bit 32 n);
     let (upper, high) = (if high \<noteq> 0 then (high mod base, high div base) else (high, high));
     (low, rem) \<leftarrow> divl upper low base;
     Some (push_bit 32 (ucast high) OR ucast low, rem)
   }"

section \<open>Memory blocks: contracts\<close>

lemma copy_up_app:
  assumes "\<not> (s < d \<and> d < s + n)"
  shows "copy_up d s n m a = (if d \<le> a \<and> a < d + n then m (a - d + s) else m a)"
  using assms
proof (induction n arbitrary: d s m)
  case (Suc n)
  define m' where "m' = m(d := m s)"
  have m': "m' d = m s" "x \<noteq> d \<Longrightarrow> m' x = m x" for x by (simp_all add: m'_def)
  have "\<not> (s + 1 < d + 1 \<and> d + 1 < s + 1 + n)" using Suc.prems by auto
  note ih = Suc.IH [OF this, of m']
  have step: "copy_up d s (Suc n) m a = copy_up (d + 1) (s + 1) n m' a" by (simp add: m'_def)
  consider "a = d" | "a < d" | "d < a" by linarith
  then show ?case
  proof cases
    case 3
    then have "a - (d + 1) + (s + 1) = a - d + s" by simp
    moreover have "a - d + s \<noteq> d" if "a < d + Suc n" using 3 Suc.prems that by auto
    ultimately show ?thesis using ih 3 m' step by auto
  qed (use ih m' step in auto)
qed auto

lemma copy_down_app:
  assumes "s < d" and "n \<le> s"
  shows "copy_down d s n m a = (if d - n \<le> a \<and> a < d then m (a + s - d) else m a)"
  using assms
proof (induction n arbitrary: d s m)
  case (Suc n)
  define m' where "m' = m(d - 1 := m (s - 1))"
  have m': "m' (d - 1) = m (s - 1)" "x \<noteq> d - 1 \<Longrightarrow> m' x = m x" for x by (simp_all add: m'_def)
  have "s - 1 < d - 1" "n \<le> s - 1" using Suc.prems by auto
  note ih = Suc.IH [OF this, of m']
  have step: "copy_down d s (Suc n) m a = copy_down (d - 1) (s - 1) n m' a" by (simp add: m'_def)
  consider "a = d - 1" | "a < d - 1" | "d \<le> a" by linarith
  then show ?case
  proof cases
    case 2
    then have "a + (s - 1) - (d - 1) = a + s - d" "d - 1 - n = d - Suc n" "a + s - d \<noteq> d - 1" using Suc.prems by auto
    then show ?thesis using ih 2 m' step Suc.prems by auto
  qed (use ih m' step Suc.prems in auto)
qed auto

lemma memmove_app:
  "memmove dst src n m = (dst, \<lambda>a. if dst \<le> a \<and> a < dst + n then m (a - dst + src) else m a)"
proof (cases "src < dst \<and> src + n > dst")
  case True
  have "copy_down (dst + n) (src + n) n m a = (if dst \<le> a \<and> a < dst + n then m (a - dst + src) else m a)" for a
    using copy_down_app [of "src + n" "dst + n" n m a] True by (simp add: algebra_simps)
  then show ?thesis using True by (simp add: memmove_def fun_eq_iff)
next
  case False
  then show ?thesis using copy_up_app [of src dst n m] by (auto simp: memmove_def fun_eq_iff)
qed

lemma rep_movsb_eq: "rep_movsb d s n m = (d + n, s + n, copy_up d s n m)"
  by (induction n arbitrary: d s m) simp_all

lemma copy_up_add: "copy_up d s (k + n) m = copy_up (d + k) (s + k) n (copy_up d s k m)"
  by (induction k arbitrary: d s m) simp_all

lemma rep_movsl_eq:
  assumes "\<not> (s < d \<and> d < s + 4 * n)"
  shows "rep_movsl d s n m = (d + 4 * n, s + 4 * n, copy_up d s (4 * n) m)"
  using assms
proof (induction n arbitrary: d s m)
  case (Suc n)
  let ?m = "m(d := m s, d + 1 := m (s + 1), d + 2 := m (s + 2), d + 3 := m (s + 3))"
  have c4: "?m a = copy_up d s 4 m a" for a
  proof -
    have "\<not> (s < d \<and> d < s + 4)" using Suc.prems by auto
    note c = copy_up_app [OF this, of m a]
    consider "a < d \<or> d + 4 \<le> a" | "a = d" | "a = d + 1" | "a = d + 2" | "a = d + 3" by linarith
    then show ?thesis using c by cases (auto simp: ac_simps)
  qed
  have "rep_movsl (d + 4) (s + 4) n ?m = (d + 4 + 4 * n, s + 4 + 4 * n, copy_up (d + 4) (s + 4) (4 * n) ?m)"
    using Suc.prems by (intro Suc.IH) auto
  moreover have "?m = copy_up d s 4 m" by (rule ext) (rule c4)
  ultimately show ?case using copy_up_add [of d s 4 "4 * n" m] by (simp del: fun_upd_apply)
qed simp

lemma rep_movsb_down_eq:
  "rep_movsb_down (int (d + n) - 1) (int (s + n) - 1) n m = copy_down (d + n) (s + n) n m"
proof (induction n arbitrary: m)
  case (Suc n)
  have e: "int (d + Suc n) - 1 = int (d + n)" "int (s + Suc n) - 1 = int (s + n)" by simp_all
  show ?case unfolding e using Suc by (simp del: fun_upd_apply of_nat_add)
qed simp

lemma x86_memcpy_app:
  assumes "\<not> (src < dst \<and> dst < src + n)"
  shows "x86_memcpy dst src n m = memcpy dst src n m"
proof -
  have "\<not> (src < dst \<and> dst < src + 4 * (n div 4))" using assms by auto
  note l = rep_movsl_eq [OF this, of m]
  have "copy_up dst src n m =
      copy_up (dst + 4 * (n div 4)) (src + 4 * (n div 4)) (n mod 4) (copy_up dst src (4 * (n div 4)) m)"
    using copy_up_add [of dst src "4 * (n div 4)" "n mod 4" m] by (simp add: ac_simps)
  then show ?thesis using l by (simp add: x86_memcpy_def memcpy_def rep_movsb_eq Let_def)
qed

lemma x86_memmove_app: "x86_memmove dst src n m = memmove dst src n m"
proof (cases "dst < src")
  case True
  then show ?thesis using x86_memcpy_app [of src dst n m] by (simp add: x86_memmove_def memmove_def memcpy_def)
next
  case False
  have d: "x86_memmove dst src n m = (dst, copy_down (dst + n) (src + n) n m)"
    using False rep_movsb_down_eq [of dst n src m] by (simp add: x86_memmove_def algebra_simps)
  show ?thesis
  proof (cases "src < dst")
    case True
    then have "copy_down (dst + n) (src + n) n m a = (if dst \<le> a \<and> a < dst + n then m (a - dst + src) else m a)" for a
      using copy_down_app [of "src + n" "dst + n" n m a] by (simp add: algebra_simps)
    then show ?thesis using d by (simp add: memmove_app fun_eq_iff)
  next
    case same: False
    have "copy_down (a + n) (a + n) n m = m" for a by (induction n arbitrary: a) simp_all
    then show ?thesis using d False same by (auto simp: memmove_app)
  qed
qed

text \<open>
  C18: \<open>memmove\<close> is right for overlapping blocks: afterwards the destination holds what the source held
  before, byte for byte, and no other byte changes; the x86 version of the kernel build, which
  copies upwards by double words or downwards by bytes, computes the same.
\<close>

theorem memmove_correct:
  "memmove dst src n m = (dst, \<lambda>a. if dst \<le> a \<and> a < dst + n then m (a - dst + src) else m a) \<and>
   x86_memmove dst src n m = memmove dst src n m"
  by (simp add: memmove_app x86_memmove_app)

section \<open>Strings: contracts\<close>

text \<open>The bytes \<open>xs\<close>, none of them NUL, stand at \<open>s\<close> followed by a NUL.\<close>

fun cstring :: "mem \<Rightarrow> nat \<Rightarrow> string \<Rightarrow> bool" where
  "cstring m s [] \<longleftrightarrow> m s = NUL"
| "cstring m s (x # xs) \<longleftrightarrow> m s = x \<and> x \<noteq> NUL \<and> cstring m (s + 1) xs"

lemma cstring_cong: "(\<And>i. i \<le> length xs \<Longrightarrow> m (s + i) = m' (t + i)) \<Longrightarrow> cstring m s xs = cstring m' t xs"
proof (induction xs arbitrary: s t)
  case Nil
  then show ?case by force
next
  case (Cons x xs)
  have "cstring m (s + 1) xs = cstring m' (t + 1) xs" using Cons.prems [of "Suc i" for i] by (intro Cons.IH) auto
  then show ?case using Cons.prems [of 0] by simp
qed

lemma cstring_append:
  "cstring m s (xs @ ys) \<longleftrightarrow> (\<forall>i<length xs. m (s + i) = xs ! i \<and> xs ! i \<noteq> NUL) \<and> cstring m (s + length xs) ys"
  by (induction xs arbitrary: s) (auto simp: less_Suc_eq_0_disj)

lemma cstring_unique: "cstring m s xs \<Longrightarrow> cstring m s ys \<Longrightarrow> xs = ys"
proof (induction xs arbitrary: s ys)
  case Nil
  then show ?case by (cases ys) auto
next
  case (Cons x xs)
  then show ?case by (cases ys) auto
qed

lemma strlen_loop_ok: "cstring m s xs \<Longrightarrow> strlen_loop m s cnt = Some (cnt + length xs)"
  by (induction xs arbitrary: s cnt) (simp_all add: strlen_loop.simps)

lemma strlen_ok: "cstring m s xs \<Longrightarrow> strlen m s = Some (length xs)"
  by (simp add: strlen_def strlen_loop_ok)

lemma strnlen_loop_ok:
  "cstring m s xs \<Longrightarrow> cnt \<le> len \<Longrightarrow> strnlen_loop m s len cnt = min len (cnt + length xs)"
  by (induction xs arbitrary: s cnt) (subst strnlen_loop.simps; auto)+

lemma strnlen_ok: "cstring m s xs \<Longrightarrow> strnlen m s len = min len (length xs)"
  by (simp add: strnlen_def strnlen_loop_ok)

lemma strcpy_loop_ok:
  assumes "cstring m src xs" and "\<not> (src < dst \<and> dst \<le> src + length xs)"
  shows "strcpy_loop dst src m = Some (copy_up dst src (length xs + 1) m)"
  using assms
proof (induction xs arbitrary: dst src m)
  case Nil
  then show ?case by (simp add: strcpy_loop.simps fun_eq_iff)
next
  case (Cons x xs)
  define m' where "m' = m(dst := m src)"
  have "cstring m' (src + 1) xs"
    using Cons.prems cstring_cong [of xs m "src + 1" m' "src + 1"] by (auto simp: m'_def)
  moreover have "\<not> (src + 1 < dst + 1 \<and> dst + 1 \<le> src + 1 + length xs)" using Cons.prems(2) by auto
  ultimately have "strcpy_loop (dst + 1) (src + 1) m' = Some (copy_up (dst + 1) (src + 1) (length xs + 1) m')" by (rule Cons.IH)
  moreover have "strcpy_loop dst src m = strcpy_loop (dst + 1) (src + 1) m'"
    using Cons.prems by (simp add: strcpy_loop.simps [of dst] m'_def)
  moreover have "copy_up dst src (Suc (length xs + 1)) m = copy_up (dst + 1) (src + 1) (length xs + 1) m'"
    unfolding m'_def by (rule copy_up.simps)
  ultimately show ?case by simp
qed

lemma strcpy_ok:
  assumes "cstring m src xs" and "\<not> (src < dst \<and> dst \<le> src + length xs)"
  shows "\<exists>m'. strcpy dst src m = Some (dst, m') \<and> cstring m' dst xs \<and> (\<forall>a. a < dst \<or> dst + length xs < a \<longrightarrow> m' a = m a)"
proof -
  define m' where "m' = copy_up dst src (length xs + 1) m"
  have "\<not> (src < dst \<and> dst < src + (length xs + 1))" using assms(2) by auto
  note c = copy_up_app [OF this, of m, folded m'_def]
  have "cstring m' dst xs" using assms(1) cstring_cong [of xs m src m' dst] by (simp add: c ac_simps)
  then show ?thesis using strcpy_loop_ok [OF assms, folded m'_def] c by (auto simp: strcpy_def)
qed

text \<open>
  C20: \<open>strcat\<close> of a string to another with room behind it returns, appends it, and writes nowhere else.
\<close>

theorem strcat_appends:
  assumes "cstring m dst xs" and "cstring m src ys" and "\<not> (src < dst + length xs + length ys + 1 \<and> dst \<le> src + length ys)"
  shows "\<exists>m'. strcat dst src m = Some (dst + length xs, m') \<and> cstring m' dst (xs @ ys) \<and> cstring m' src ys \<and>
    (\<forall>a. a < dst + length xs \<or> dst + length xs + length ys < a \<longrightarrow> m' a = m a)"
proof -
  let ?d = "dst + length xs"
  have "\<not> (src < ?d \<and> ?d \<le> src + length ys)" using assms(3) by auto
  from strcpy_ok [OF assms(2) this] obtain m' where
    c: "strcpy ?d src m = Some (?d, m')" "cstring m' ?d ys" "\<And>a. a < ?d \<or> ?d + length ys < a \<Longrightarrow> m' a = m a" by blast
  have "cstring m' dst (xs @ ys)" using assms(1) c(2,3) cstring_append [of m dst xs "[]"] by (simp add: cstring_append)
  moreover have "cstring m' src ys" using assms(2,3) c(3) cstring_cong [of ys m src m' src] by auto
  ultimately show ?thesis using c strlen_ok [OF assms(1)] by (simp add: strcat_def)
qed

theorem strcat_appends_witness:
  "\<exists>m'. strcat 0 8 (\<lambda>a. if a = 0 then CHR ''a'' else if a = 8 then CHR ''b'' else NUL) = Some (1, m') \<and> cstring m' 0 ''ab''"
  using strcat_appends [of "\<lambda>a. if a = 0 then CHR ''a'' else if a = 8 then CHR ''b'' else NUL" 0 "''a''" 8 "''b''"] by auto

lemma of_char_zero [simp]: "(of_char c :: nat) = 0 \<longleftrightarrow> c = NUL" "(0 < (of_char c :: nat)) \<longleftrightarrow> c \<noteq> NUL"
  using of_char_eq_iff [of c NUL, where 'a = nat] by (auto simp del: of_char_eq_iff)

lemma char_less_iff: "(c :: char) < d \<longleftrightarrow> uchar c < uchar d"
  by (simp add: less_char_def)

lemma strcmp_ok:
  assumes "cstring m s xs" and "cstring m t ys"
  shows "\<exists>r. strcmp m s t = Some r \<and> (r = 0 \<longleftrightarrow> xs = ys) \<and> (r < 0 \<longleftrightarrow> ord_class.lexordp xs ys)"
  using assms
proof (induction xs arbitrary: s t ys)
  case Nil
  then show ?case by (cases ys) (auto simp: strcmp.simps [of m s])
next
  case (Cons x xs)
  show ?case
  proof (cases "m s = m t")
    case True
    then obtain zs where ys: "ys = x # zs" using Cons.prems by (cases ys) auto
    have "strcmp m s t = strcmp m (s + 1) (t + 1)" using True Cons.prems by (simp add: strcmp.simps [of m s])
    then show ?thesis using Cons ys by auto
  next
    case False
    then have e: "strcmp m s t = Some (uchar x - uchar (m t))" using Cons.prems by (simp add: strcmp.simps [of m s])
    have n: "ys = [] \<or> (\<exists>zs. ys = m t # zs)" using Cons.prems by (cases ys) auto
    have "uchar (m s) < uchar (m t) \<or> uchar (m t) < uchar (m s)" using False by (metis of_char_eq_iff linorder_neqE of_nat_less_iff)
    then show ?thesis using n e False Cons.prems by (auto simp: char_less_iff)
  qed
qed

lemma x86_strcmp_sgn:
  assumes "cstring m s xs" and "strcmp m s t = Some r"
  shows "x86_strcmp m s t = Some (sgn r)"
  using assms
proof (induction xs arbitrary: s t)
  case Nil
  then show ?case by (auto simp: strcmp.simps [of m s] x86_strcmp.simps [of m s] Let_def)
next
  case (Cons x xs)
  show ?case
  proof (cases "m s = m t")
    case True
    then have "strcmp m (s + 1) (t + 1) = Some r" using Cons.prems by (simp add: strcmp.simps [of m s])
    then show ?thesis using Cons True by (simp add: x86_strcmp.simps [of m s] Let_def)
  next
    case False
    then have "r = uchar (m s) - uchar (m t)" "of_char (m s) \<noteq> (of_char (m t) :: nat)" using Cons.prems by (simp_all add: strcmp.simps [of m s])
    then show ?thesis using False by (auto simp: x86_strcmp.simps [of m s] Let_def sgn_if)
  qed
qed

text \<open>
  C19: \<open>strcmp\<close> returns on any two strings; the result is 0 exactly for equal strings and otherwise
  has the sign of the difference of the first two bytes, as unsigned values, that differ; the x86
  version returns that sign.
\<close>

theorem strcmp_lexicographic:
  assumes "cstring m s xs" and "cstring m t ys"
  shows "\<exists>r. strcmp m s t = Some r \<and> x86_strcmp m s t = Some (sgn r) \<and> (r = 0 \<longleftrightarrow> xs = ys) \<and> (r < 0 \<longleftrightarrow> ord_class.lexordp xs ys)"
  using strcmp_ok [OF assms] x86_strcmp_sgn [OF assms(1)] by blast

theorem strcmp_lexicographic_witness:
  "\<exists>r. strcmp (\<lambda>a. if a = 0 then CHR ''a'' else if a = 8 then CHR ''b'' else NUL) 0 8 = Some r \<and> r < 0"
  using strcmp_lexicographic [of "\<lambda>a. if a = 0 then CHR ''a'' else if a = 8 then CHR ''b'' else NUL" 0 "''a''" 8 "''b''"]
  by (auto simp: char_less_iff)

lemma strncmp_ok:
  assumes "cstring m s xs" and "cstring m t ys"
  shows "strncmp m s t n = 0 \<longleftrightarrow> take n xs = take n ys"
  using assms
proof (induction n arbitrary: s t xs ys)
  case (Suc n)
  then show ?case by (cases xs; cases ys) auto
qed simp

lemma memcmp_ok: "memcmp m s t n = 0 \<longleftrightarrow> (\<forall>i<n. m (s + i) = m (t + i))"
  by (induction n arbitrary: s t) (auto simp: less_Suc_eq_0_disj)

lemma strchr_ok:
  assumes "cstring m s xs"
  shows "strchr m s c = Some (if c \<in> set xs then Some (s + length (takeWhile (\<lambda>x. x \<noteq> c) xs)) else None)"
    and "strfind m s c = Some (s + length (takeWhile (\<lambda>x. x \<noteq> c) xs))"
  using assms by (induction xs arbitrary: s) (auto simp: strchr.simps [of m] strfind.simps [of m])

lemma memset_ok: "memset_loop s c n m = (\<lambda>a. if s \<le> a \<and> a < s + n then c else m a)"
  by (induction n arbitrary: s m) (auto simp: fun_eq_iff)

section \<open>Division\<close>

lemma divl_fits:
  assumes "edx < (d :: u32)"
  shows "(unat edx * 2 ^ 32 + unat (eax :: u32)) div unat d < 2 ^ 32"
proof -
  have "unat edx + 1 \<le> unat d" using assms by (simp add: word_less_nat_alt)
  then have "(unat edx + 1) * 2 ^ 32 \<le> unat d * 2 ^ 32" by (rule mult_le_mono1)
  moreover have "unat eax < 2 ^ 32" using unsigned_less [of eax, where 'a = nat] by simp
  ultimately have "unat edx * 2 ^ 32 + unat eax < unat d * 2 ^ 32" by simp
  then show ?thesis by (simp add: less_mult_imp_div_less mult.commute)
qed

lemma divl_ok:
  assumes "edx < d"
  shows "\<exists>q r. divl edx eax d = Some (q, r) \<and> unat q = (unat edx * 2 ^ 32 + unat eax) div unat d \<and>
    unat r = (unat edx * 2 ^ 32 + unat eax) mod unat d"
proof -
  let ?n = "unat edx * 2 ^ 32 + unat eax"
  have "d \<noteq> 0" using assms by auto
  then have "?n mod unat d < unat d" by (intro mod_less_divisor) (simp add: unat_gt_0)
  then have "?n mod unat d < 2 ^ 32" using unsigned_less [of d, where 'a = nat] by simp
  then have "unat (of_nat (?n mod unat d) :: u32) = ?n mod unat d" by (simp add: unsigned_of_nat take_bit_nat_eq_self)
  moreover have "unat (of_nat (?n div unat d) :: u32) = ?n div unat d"
    using divl_fits [OF assms, of eax] by (simp add: unsigned_of_nat take_bit_nat_eq_self)
  moreover have "divl edx eax d = Some (of_nat (?n div unat d), of_nat (?n mod unat d))"
    using \<open>d \<noteq> 0\<close> divl_fits [OF assms, of eax] by (simp add: divl_def Let_def not_le)
  ultimately show ?thesis by (intro exI conjI)
qed

lemma unat_ucast_up: "unat (ucast (x :: u32) :: u64) = unat x"
  by (simp add: unsigned_ucast_eq take_bit_nat_eq_self unsigned_take_bit_eq order_less_le_trans [OF unsigned_less])

lemma unat_pair: "unat (push_bit 32 (ucast h) OR ucast l :: u64) = unat (h :: u32) * 2 ^ 32 + unat (l :: u32)"
proof -
  have "push_bit 32 (ucast h) OR ucast l = (push_bit 32 (ucast h) + ucast l :: u64)"
    by (intro disjunctive_add [symmetric]) (auto simp: bit_push_bit_iff bit_ucast_iff dest: bit_imp_le_length)
  moreover have "unat h * 2 ^ 32 + unat l < 2 ^ 64"
    using unsigned_less [of h, where 'a = nat] unsigned_less [of l, where 'a = nat] by simp
  ultimately show ?thesis
    by (simp add: unsigned_push_bit_eq unat_word_ariths unat_ucast_up push_bit_eq_mult take_bit_eq_mod)
qed

lemma do_div_ok:
  assumes "base \<noteq> 0"
  shows "do_div n base = Some (n div ucast base, ucast (n mod ucast base))"
proof -
  define h :: u32 where "h = ucast (drop_bit 32 n)"
  define l :: u32 where "l = ucast n"
  define hi lo b where "hi = unat h" and "lo = unat l" and "b = unat base"
  have b: "0 < b" "unat (ucast base :: u64) = b" using assms by (simp_all add: b_def unat_gt_0 unat_ucast_up)
  have n: "unat n = hi * 2 ^ 32 + lo"
    using unsigned_less [of n, where 'a = nat]
    by (simp add: hi_def lo_def h_def l_def unsigned_ucast_eq drop_bit_eq_div take_bit_eq_mod unat_div less_mult_imp_div_less)
  have "hi * 2 ^ 32 + lo = (hi mod b) * 2 ^ 32 + lo + ((hi div b) * 2 ^ 32) * b"
  proof -
    have "hi * 2 ^ 32 = ((hi div b) * b + hi mod b) * 2 ^ 32" by simp
    then show ?thesis by (simp only: add_mult_distrib) (simp add: ac_simps)
  qed
  then have e: "unat n div b = (hi div b) * 2 ^ 32 + ((hi mod b) * 2 ^ 32 + lo) div b"
    "unat n mod b = ((hi mod b) * 2 ^ 32 + lo) mod b"
    unfolding n using b(1) by (simp_all only: div_mult_self1 mod_mult_self1 neq0_conv)
  have "h mod base < base" using assms by (simp add: word_mod_less_divisor word_gt_0)
  from divl_ok [OF this] obtain q r where d: "divl (h mod base) l base = Some (q, r)"
    "unat q = (hi mod b * 2 ^ 32 + lo) div b" "unat r = (hi mod b * 2 ^ 32 + lo) mod b"
    by (metis b_def hi_def lo_def unat_mod)
  have "do_div n base = Some (push_bit 32 (ucast (h div base)) OR ucast q, r)"
    using d(1) by (cases "h = 0") (simp_all add: do_div_def Let_def h_def [symmetric] l_def [symmetric])
  moreover have "push_bit 32 (ucast (h div base)) OR ucast q = n div ucast base"
    by (intro word_unat_eq_iff [THEN iffD2]) (simp add: unat_pair unat_div b(2) e(1) d(2) hi_def [symmetric] b_def [symmetric])
  moreover have "r = ucast (n mod ucast base)"
  proof -
    have "unat n mod b < b" using b(1) by simp
    then have "unat n mod b < 2 ^ 32" using unsigned_less [of base, where 'a = nat] by (simp add: b_def)
    moreover have "unat (n mod ucast base) = unat n mod b" by (simp only: unat_mod b(2))
    ultimately have "unat (ucast (n mod ucast base) :: u32) = unat n mod b" by (simp only: unsigned_ucast_eq) (simp add: take_bit_nat_eq_self)
    then show ?thesis using d(3) e(2) by (intro word_unat_eq_iff [THEN iffD2]) simp
  qed
  ultimately show ?thesis by simp
qed

text \<open>
  C21: \<open>do_div\<close> divides a 64-bit number by any non-zero 32-bit one without a divide fault: the two
  32-bit steps give the exact 64-bit quotient and the remainder.
\<close>

theorem do_div_correct:
  assumes "base \<noteq> 0"
  shows "do_div n base = Some (n div ucast base, ucast (n mod ucast base))"
  using assms by (rule do_div_ok)

theorem do_div_correct_witness: "do_div 0x123456789 10 = Some (0x123456789 div 10, 5)"
  using do_div_correct [of 10 "0x123456789"] by simp

end
