(* ===== verification/Lib_Printfmt.thy ===== *)
theory Lib_Printfmt
  imports Lib_String
begin

text \<open>
  The formatter src/ucore_os/libs/printfmt.c: \<open>printnum\<close>, \<open>vprintfmt\<close> with all its conversions, and
  \<open>vsnprintf\<close>.

  The output function \<open>putch\<close> is a parameter that acts on a state. A format string is the list of its
  bytes, its end standing for the NUL; the bytes of an escape sequence read so far are kept, so that
  going back to the \<open>%\<close> is putting them back. The variable arguments are a list of 32-bit and 64-bit
  integers and strings; reading one that is absent or of another kind has no defined result (\<open>None\<close>).
  The field width and precision are unbounded integers.
\<close>

datatype va_arg = VInt u32 | VLong u64 | VStr "string option"

definition MAXERROR :: int where "MAXERROR = 24"

definition error_string :: "int \<Rightarrow> string option" where
  "error_string err = (if err < 0 \<or> err > MAXERROR then None else
     [None, Some ''unspecified error'', Some ''bad process'', Some ''invalid parameter'', Some ''out of memory'',
      Some ''out of processes'', Some ''segmentation fault'', None, Some ''invalid elf file'', Some ''process is killed'',
      Some ''panic failure'', None, None, Some ''no such device'', Some ''device not available'', Some ''device/file is busy'',
      Some ''no such file or directory'', Some ''is a directory'', Some ''not a directory'', Some ''cross device link'',
      Some ''unimplemented feature'', Some ''illegal seek'', Some ''too many files are open'',
      Some ''file or directory already exists'', Some ''directory is not empty''] ! nat err)"

partial_function (option) printnum :: "(char \<Rightarrow> 's \<Rightarrow> 's) \<Rightarrow> u64 \<Rightarrow> u32 \<Rightarrow> int \<Rightarrow> char \<Rightarrow> 's \<Rightarrow> 's option" where
  "printnum putch num base width padc st = do {
     (result, rem) \<leftarrow> do_div num base;
     st \<leftarrow> (if num \<ge> ucast base then printnum putch result base (width - 1) padc st
             else Some ((putch padc ^^ nat (width - 1)) st));
     if unat rem < 16 then Some (putch (''0123456789abcdef'' ! unat rem) st) else None
   }"

definition getuint :: "va_arg list \<Rightarrow> nat \<Rightarrow> (u64 \<times> va_arg list) option" where
  "getuint ap lflag =
     (if lflag \<ge> 2 then (case ap of VLong n # ap \<Rightarrow> Some (n, ap) | _ \<Rightarrow> None)
      else (case ap of VInt n # ap \<Rightarrow> Some (ucast n, ap) | _ \<Rightarrow> None))"

definition getint :: "va_arg list \<Rightarrow> nat \<Rightarrow> (u64 \<times> va_arg list) option" where
  "getint ap lflag =
     (if lflag \<ge> 2 then (case ap of VLong n # ap \<Rightarrow> Some (n, ap) | _ \<Rightarrow> None)
      else (case ap of VInt n # ap \<Rightarrow> Some (scast n, ap) | _ \<Rightarrow> None))"

text \<open>The digits of a field width: the value, the bytes read, the rest of the format.\<close>

fun scan_width :: "int \<Rightarrow> char \<Rightarrow> string \<Rightarrow> int \<times> string \<times> string" where
  "scan_width precision ch [] = (precision * 10 + uchar ch - uchar (CHR ''0''), [], [])"
| "scan_width precision ch (c # fmt) =
     (let precision = precision * 10 + uchar ch - uchar (CHR ''0'') in
      if c < CHR ''0'' \<or> c > CHR ''9'' then (precision, [], c # fmt)
      else (let (p, read, rest) = scan_width precision c fmt in (p, c # read, rest)))"

fun put_string :: "(char \<Rightarrow> 's \<Rightarrow> 's) \<Rightarrow> bool \<Rightarrow> string \<Rightarrow> int \<Rightarrow> int \<Rightarrow> 's \<Rightarrow> int \<times> 's" where
  "put_string putch altflag [] precision width st = (width, st)"
| "put_string putch altflag (ch # p) precision width st =
     (if precision < 0 \<or> precision - 1 \<ge> 0 then
        put_string putch altflag p (if precision < 0 then precision else precision - 1) (width - 1)
          (putch (if altflag \<and> (ch < CHR '' '' \<or> ch > CHR ''~'') then CHR ''?'' else ch) st)
      else (width, st))"

definition put_str_arg :: "(char \<Rightarrow> 's \<Rightarrow> 's) \<Rightarrow> bool \<Rightarrow> char \<Rightarrow> int \<Rightarrow> int \<Rightarrow> string option \<Rightarrow> 's \<Rightarrow> 's" where
  "put_str_arg putch altflag padc width precision arg st =
     (let p = (case arg of None \<Rightarrow> ''(null)'' | Some p \<Rightarrow> p);
          n = (if precision < 0 then length p else min (nat precision) (length p));
          (width, st) = (if width > 0 \<and> padc \<noteq> CHR ''-''
                         then (min (width - int n) 0, (putch padc ^^ nat (width - int n)) st) else (width, st));
          (width, st) = put_string putch altflag p precision width st
      in (putch (CHR '' '') ^^ nat width) st)"

datatype vp_mode = Text | Escape (vp_read: string) char int int nat bool

fun vp_total :: "vp_mode \<Rightarrow> string \<Rightarrow> nat" where
  "vp_total Text fmt = length fmt"
| "vp_total (Escape read padc width precision lflag altflag) fmt = length read + length fmt"

lemma scan_width_len: "scan_width p c fmt = (q, read, rest) \<Longrightarrow> read @ rest = fmt"
  by (induction p c fmt arbitrary: q read rest rule: scan_width.induct) (auto simp: Let_def split: if_splits prod.splits)

text \<open>
  \<open>pe\<close> is the action of \<open>%e\<close>, which calls the formatter again; \<open>num\<close> is the common tail of the numeric
  conversions.
\<close>

function vp :: "(u32 \<Rightarrow> 's \<Rightarrow> 's option) \<Rightarrow> (char \<Rightarrow> 's \<Rightarrow> 's) \<Rightarrow> vp_mode \<Rightarrow> string \<Rightarrow> va_arg list \<Rightarrow> 's \<Rightarrow> 's option" where
  "vp pe putch Text [] ap st = Some st"
| "vp pe putch Text (ch # fmt) ap st =
     (if ch \<noteq> CHR ''%'' then vp pe putch Text fmt ap (putch ch st)
      else vp pe putch (Escape [] (CHR '' '') (- 1) (- 1) 0 False) fmt ap st)"
| "vp pe putch (Escape read padc width precision lflag altflag) [] ap st = vp pe putch Text read ap (putch (CHR ''%'') st)"
| "vp pe putch (Escape read padc width precision lflag altflag) (ch # fmt) ap st =
     (if ch = CHR ''-'' then vp pe putch (Escape (read @ [ch]) (CHR ''-'') width precision lflag altflag) fmt ap st
      else if ch = CHR ''0'' then vp pe putch (Escape (read @ [ch]) (CHR ''0'') width precision lflag altflag) fmt ap st
      else if CHR ''1'' \<le> ch \<and> ch \<le> CHR ''9'' then
        (case scan_width 0 ch fmt of (precision, more, rest) \<Rightarrow>
           vp pe putch (Escape (read @ ch # more) padc (if width < 0 then precision else width)
             (if width < 0 then - 1 else precision) lflag altflag) rest ap st)
      else if ch = CHR ''*'' then
        (case ap of
           VInt n # ap \<Rightarrow> vp pe putch (Escape (read @ [ch]) padc (if width < 0 then sint n else width)
             (if width < 0 then - 1 else sint n) lflag altflag) fmt ap st
         | _ \<Rightarrow> None)
      else if ch = CHR ''.'' then
        vp pe putch (Escape (read @ [ch]) padc (if width < 0 then 0 else width) precision lflag altflag) fmt ap st
      else if ch = CHR ''#'' then vp pe putch (Escape (read @ [ch]) padc width precision lflag True) fmt ap st
      else if ch = CHR ''l'' then vp pe putch (Escape (read @ [ch]) padc width precision (lflag + 1) altflag) fmt ap st
      else if ch = CHR ''c'' then
        (case ap of VInt n # ap \<Rightarrow> vp pe putch Text fmt ap (putch (char_of (unat n)) st) | _ \<Rightarrow> None)
      else if ch = CHR ''e'' then
        (case ap of VInt n # ap \<Rightarrow> do { st \<leftarrow> pe n st; vp pe putch Text fmt ap st } | _ \<Rightarrow> None)
      else if ch = CHR ''s'' then
        (case ap of VStr p # ap \<Rightarrow> vp pe putch Text fmt ap (put_str_arg putch altflag padc width precision p st) | _ \<Rightarrow> None)
      else if ch = CHR ''d'' then
        do {
          (num, ap) \<leftarrow> getint ap lflag;
          st \<leftarrow> (if num <s 0 then printnum putch (- num) 10 width padc (putch (CHR ''-'') st)
                 else printnum putch num 10 width padc st);
          vp pe putch Text fmt ap st
        }
      else if ch = CHR ''u'' then
        do { (num, ap) \<leftarrow> getuint ap lflag; st \<leftarrow> printnum putch num 10 width padc st; vp pe putch Text fmt ap st }
      else if ch = CHR ''o'' then
        do { (num, ap) \<leftarrow> getuint ap lflag; st \<leftarrow> printnum putch num 8 width padc st; vp pe putch Text fmt ap st }
      else if ch = CHR ''p'' then
        (case ap of
           VInt n # ap \<Rightarrow> do {
             st \<leftarrow> printnum putch (ucast n) 16 width padc (putch (CHR ''x'') (putch (CHR ''0'') st));
             vp pe putch Text fmt ap st
           }
         | _ \<Rightarrow> None)
      else if ch = CHR ''x'' then
        do { (num, ap) \<leftarrow> getuint ap lflag; st \<leftarrow> printnum putch num 16 width padc st; vp pe putch Text fmt ap st }
      else if ch = CHR ''%'' then vp pe putch Text fmt ap (putch ch st)
      else vp pe putch Text (read @ ch # fmt) ap (putch (CHR ''%'') st))"
  by pat_completeness auto
termination
  by (relation "inv_image (less_than <*lex*> less_than <*lex*> less_than)
      (\<lambda>(pe, putch, mode, fmt, ap, st). (vp_total mode fmt, if mode = Text then 0 else 1, length fmt))")
    (auto dest: scan_width_len [OF sym])

declare vp.simps [simp del]

definition print_error :: "(char \<Rightarrow> 's \<Rightarrow> 's) \<Rightarrow> u32 \<Rightarrow> 's \<Rightarrow> 's option" where
  "print_error putch n st =
     (let err = (if n <s 0 then - n else n) in
      if sint err > MAXERROR then vp (\<lambda>_ _. None) putch Text ''error %d'' [VInt err] st
      else if sint err < 0 then None
      else (case error_string (sint err) of
              None \<Rightarrow> vp (\<lambda>_ _. None) putch Text ''error %d'' [VInt err] st
            | Some p \<Rightarrow> vp (\<lambda>_ _. None) putch Text ''%s'' [VStr (Some p)] st))"

definition vprintfmt :: "(char \<Rightarrow> 's \<Rightarrow> 's) \<Rightarrow> string \<Rightarrow> va_arg list \<Rightarrow> 's \<Rightarrow> 's option" where
  "vprintfmt putch fmt ap st = vp (print_error putch) putch Text fmt ap st"

record sprintbuf =
  sb_buf :: nat
  sb_ebuf :: nat
  sb_cnt :: nat

definition sprintputch :: "char \<Rightarrow> sprintbuf \<times> mem \<Rightarrow> sprintbuf \<times> mem" where
  "sprintputch ch = (\<lambda>(b, m).
     (let b = b\<lparr>sb_cnt := sb_cnt b + 1\<rparr> in
      if sb_buf b < sb_ebuf b then (b\<lparr>sb_buf := sb_buf b + 1\<rparr>, m(sb_buf b := ch)) else (b, m)))"

text \<open>\<open>str + size - 1\<close> is signed here: for \<open>size = 0\<close> the end of the buffer is before its start.\<close>

definition vsnprintf :: "nat option \<Rightarrow> nat \<Rightarrow> string \<Rightarrow> va_arg list \<Rightarrow> mem \<Rightarrow> (int \<times> mem) option" where
  "vsnprintf str sz fmt ap m =
     (case str of
        None \<Rightarrow> Some (- E_INVAL, m)
      | Some str \<Rightarrow>
          if int str > int str + int sz - 1 then Some (- E_INVAL, m)
          else do {
            (b, m) \<leftarrow> vprintfmt sprintputch fmt ap (\<lparr>sb_buf = str, sb_ebuf = str + sz - 1, sb_cnt = 0\<rparr>, m);
            Some (int (sb_cnt b), m(sb_buf b := NUL))
          })"

section \<open>The output function is used only to output\<close>

text \<open>
  Two output functions that agree on a relation of their states give related results: the formatter
  only calls \<open>putch\<close> and never looks at the state.
\<close>

definition putch_rel :: "('s \<Rightarrow> 't \<Rightarrow> bool) \<Rightarrow> (char \<Rightarrow> 's \<Rightarrow> 's) \<Rightarrow> (char \<Rightarrow> 't \<Rightarrow> 't) \<Rightarrow> bool" where
  "putch_rel R f g \<longleftrightarrow> (\<forall>c s t. R s t \<longrightarrow> R (f c s) (g c t))"

lemma putch_relD: "putch_rel R f g \<Longrightarrow> R s t \<Longrightarrow> R (f c s) (g c t)"
  by (simp add: putch_rel_def)

lemma putch_rel_pow: "putch_rel R f g \<Longrightarrow> R s t \<Longrightarrow> R ((f c ^^ n) s) ((g c ^^ n) t)"
  by (induction n) (auto intro: putch_relD)

lemma rel_bind: "rel_option R x y \<Longrightarrow> (\<And>a b. R a b \<Longrightarrow> rel_option Q (f a) (g b)) \<Longrightarrow> rel_option Q (x \<bind> f) (y \<bind> g)"
  by (cases x; cases y) auto

lemma rel_if: "rel_option R a a' \<Longrightarrow> rel_option R b b' \<Longrightarrow> rel_option R (if P then a else b) (if P then a' else b')"
  by simp

lemma put_string_rel:
  assumes "putch_rel R f g" and "R s t"
  shows "fst (put_string f alt p pr w s) = fst (put_string g alt p pr w t) \<and>
    R (snd (put_string f alt p pr w s)) (snd (put_string g alt p pr w t))"
  using assms(2)
proof (induction p arbitrary: pr w s t)
  case (Cons c p)
  have "R (f d s) (g d t)" for d using assms(1) Cons.prems by (rule putch_relD)
  then show ?case using Cons by simp
qed simp

lemma put_str_arg_rel:
  assumes p: "putch_rel R f g" and r: "R s t"
  shows "R (put_str_arg f alt padc w pr a s) (put_str_arg g alt padc w pr a t)"
proof -
  let ?p = "case a of None \<Rightarrow> ''(null)'' | Some p \<Rightarrow> p"
  define w1 k where "w1 = (if w > 0 \<and> padc \<noteq> CHR ''-'' then min (w - int (if pr < 0 then length ?p else min (nat pr) (length ?p))) 0 else w)"
    and "k = (if w > 0 \<and> padc \<noteq> CHR ''-'' then nat (w - int (if pr < 0 then length ?p else min (nat pr) (length ?p))) else 0)"
  have e: "put_str_arg h alt padc w pr a u =
      (let (w2, u2) = put_string h alt ?p pr w1 ((h padc ^^ k) u) in (h (CHR '' '') ^^ nat w2) u2)" for h u
    by (simp add: put_str_arg_def w1_def k_def Let_def split: if_splits)
  have "R ((f padc ^^ k) s) ((g padc ^^ k) t)" using p r by (rule putch_rel_pow)
  from put_string_rel [OF p this, of alt ?p pr w1] show ?thesis unfolding e
    using putch_rel_pow [OF p] by (auto split: prod.split)
qed

lemma putch_rel_fold: "putch_rel R f g \<Longrightarrow> R s t \<Longrightarrow> R (fold f cs s) (fold g cs t)"
  by (induction cs arbitrary: s t) (auto dest: putch_relD)

text \<open>The digits of a number, most significant first.\<close>

abbreviation digit_char :: "nat \<Rightarrow> char" where
  "digit_char d \<equiv> ''0123456789abcdef'' ! d"

function digits :: "nat \<Rightarrow> nat \<Rightarrow> nat list" where
  "digits b n = (if b < 2 \<or> n < b then [n] else digits b (n div b) @ [n mod b])"
  by pat_completeness auto
termination by (relation "measure snd") auto

declare digits.simps [simp del]

lemma digits_lt: "2 \<le> b \<Longrightarrow> d \<in> set (digits b n) \<Longrightarrow> d < b"
proof (induction b n rule: digits.induct)
  case (1 b n)
  then show ?case by (cases "n < b") (auto simp: digits.simps [of b n])
qed

lemma digits_value: "2 \<le> b \<Longrightarrow> foldl (\<lambda>v d. v * b + d) 0 (digits b n) = n"
proof (induction b n rule: digits.induct)
  case (1 b n)
  then show ?case by (cases "n < b") (auto simp: digits.simps [of b n])
qed

definition numeral_text :: "nat \<Rightarrow> nat \<Rightarrow> int \<Rightarrow> char \<Rightarrow> string" where
  "numeral_text b n width padc = replicate (nat (width - int (length (digits b n)))) padc @ map digit_char (digits b n)"

lemma numeral_text_step:
  assumes "2 \<le> b" and "b \<le> n"
  shows "numeral_text b n w c = numeral_text b (n div b) (w - 1) c @ [digit_char (n mod b)]"
  using assms digits.simps [of b n] by (simp add: numeral_text_def algebra_simps)

lemma fold_replicate_pow: "fold f (replicate k c) st = (f c ^^ k) st"
  by (induction k arbitrary: st) (simp_all add: funpow_swap1)

lemma printnum_ok:
  assumes "2 \<le> unat base" and "unat base \<le> 16"
  shows "printnum putch n base w c st = Some (fold putch (numeral_text (unat base) (unat n) w c) st)"
  using assms
proof (induction "unat n" arbitrary: n w st rule: less_induct)
  case less
  let ?b = "unat base"
  have b0: "base \<noteq> 0" using less.prems by auto
  have ub: "unat (ucast base :: u64) = ?b" by (rule unat_ucast_up)
  have q: "unat (n div ucast base) = unat n div ?b" by (simp only: unat_div ub)
  have "unat n mod ?b < 16" using less.prems mod_less_divisor [of ?b "unat n"] by linarith
  moreover have "unat (n mod ucast base) = unat n mod ?b" by (simp only: unat_mod ub)
  ultimately have r: "unat (ucast (n mod ucast base) :: u32) = unat n mod ?b"
    by (simp only: unsigned_ucast_eq) (simp add: take_bit_nat_eq_self)
  show ?case
  proof (cases "?b \<le> unat n")
    case True
    have "unat n div ?b < unat n" using True less.prems by (intro div_less_dividend) auto
    then have "printnum putch (n div ucast base) base (w - 1) c st =
        Some (fold putch (numeral_text ?b (unat n div ?b) (w - 1) c) st)"
      using less.hyps [of "n div ucast base"] less.prems unfolding q by blast
    moreover have "ucast base \<le> n" using True by (simp add: word_le_nat_alt ub)
    ultimately show ?thesis
      using numeral_text_step [OF less.prems(1) True] r \<open>unat n mod ?b < 16\<close>
      by (simp add: printnum.simps [of putch n] do_div_ok [OF b0])
  next
    case False
    then have "\<not> ucast base \<le> n" "digits ?b (unat n) = [unat n]" by (simp_all add: word_le_nat_alt ub digits.simps [of ?b "unat n"])
    then show ?thesis
      using False r \<open>unat n mod ?b < 16\<close>
      by (simp add: printnum.simps [of putch n] do_div_ok [OF b0] numeral_text_def fold_replicate_pow)
  qed
qed

lemma printnum_rel:
  assumes "2 \<le> unat base" and "unat base \<le> 16" and "putch_rel R f g" and "R s t"
  shows "rel_option R (printnum f n base w c s) (printnum g n base w c t)"
  using assms by (simp add: printnum_ok putch_rel_fold)

lemma vp_rel:
  assumes p: "putch_rel R f g" and e: "\<And>n s t. R s t \<Longrightarrow> rel_option R (pe1 n s) (pe2 n t)"
  shows "R s t \<Longrightarrow> rel_option R (vp pe1 f mode fmt ap s) (vp pe2 g mode fmt ap t)"
proof (induction "(vp_total mode fmt, if mode = Text then 0 else 1 :: nat, length fmt)" arbitrary: mode fmt ap s t
    rule: wf_induct_rule [OF wf_lex_prod [OF wf_less_than wf_lex_prod [OF wf_less_than wf_less_than]]])
  case 1
  note ih = 1(1)
  have put: "R (f c s) (g c t)" if "R s t" for c s t using p that by (rule putch_relD)
  show ?case
  proof (cases mode)
    case Text
    then show ?thesis
      using 1(2) by (cases fmt) (auto simp: vp.simps intro!: ih put)
  next
    case (Escape read padc width precision lflag altflag)
    show ?thesis
    proof (cases fmt)
      case Nil
      then show ?thesis using Escape 1(2) by (auto simp: vp.simps intro!: ih put)
    next
      case (Cons ch rest)
      have cont: "rel_option R (vp pe1 f Text rest ap' s') (vp pe2 g Text rest ap' t')" if "R s' t'" for ap' s' t'
        using that Escape Cons by (intro ih) auto
      have flag: "rel_option R (vp pe1 f (Escape (read @ [ch]) c w pr lf al) rest ap' s') (vp pe2 g (Escape (read @ [ch]) c w pr lf al) rest ap' t')"
        if "R s' t'" for c w pr lf al ap' s' t'
        using that Escape Cons by (intro ih) auto
      have wid: "rel_option R (vp pe1 f (Escape (read @ ch # more) c w pr lf al) rest' ap s) (vp pe2 g (Escape (read @ ch # more) c w pr lf al) rest' ap t)"
        if "scan_width 0 ch rest = (q, more, rest')" for q more rest' c w pr lf al
        using 1(2) scan_width_len [OF that] Escape Cons by (intro ih) auto
      have redo: "rel_option R (vp pe1 f Text (read @ ch # rest) ap s') (vp pe2 g Text (read @ ch # rest) ap t')" if "R s' t'" for s' t'
        using that Escape Cons by (intro ih) auto
      have num: "rel_option R (printnum f n b w c s' \<bind> vp pe1 f Text rest ap') (printnum g n b w c t' \<bind> vp pe2 g Text rest ap')"
        if "2 \<le> unat b" "unat b \<le> 16" "R s' t'" for n b w c ap' s' t'
        using printnum_rel [OF that(1,2) p that(3)] cont by (rule rel_bind)
      have err: "rel_option R (pe1 n s \<bind> vp pe1 f Text rest ap') (pe2 n t \<bind> vp pe2 g Text rest ap')" for n ap'
        using e [OF 1(2)] cont by (rule rel_bind)
      have get: "rel_option R (getuint ap lflag \<bind> (\<lambda>(n, ap'). k1 n ap')) (getuint ap lflag \<bind> (\<lambda>(n, ap'). k2 n ap'))"
        "rel_option R (getint ap lflag \<bind> (\<lambda>(n, ap'). k1 n ap')) (getint ap lflag \<bind> (\<lambda>(n, ap'). k2 n ap'))"
        if "\<And>n ap'. rel_option R (k1 n ap') (k2 n ap')" for k1 k2
        using that by (cases "getuint ap lflag"; cases "getint ap lflag"; auto)+
      have sg: "rel_option R (if b then printnum f n1 10 w c s1 else printnum f n2 10 w c s2)
          (if b then printnum g n1 10 w c t1 else printnum g n2 10 w c t2)"
        if "R s1 t1" "R s2 t2" for b n1 n2 w c s1 s2 t1 t2
        using that printnum_rel [OF _ _ p, of 10] by simp
      obtain q more rest' where sw: "scan_width 0 ch rest = (q, more, rest')" by (cases "scan_width 0 ch rest")
      have arg: "rel_option R (case ap of VInt n # ap' \<Rightarrow> i1 n ap' | _ \<Rightarrow> None) (case ap of VInt n # ap' \<Rightarrow> i2 n ap' | _ \<Rightarrow> None)"
        if "\<And>n ap'. rel_option R (i1 n ap') (i2 n ap')" for i1 i2
        using that by (auto split: list.split va_arg.split)
      have str: "rel_option R (case ap of VStr n # ap' \<Rightarrow> i1 n ap' | _ \<Rightarrow> None) (case ap of VStr n # ap' \<Rightarrow> i2 n ap' | _ \<Rightarrow> None)"
        if "\<And>n ap'. rel_option R (i1 n ap') (i2 n ap')" for i1 i2
        using that by (auto split: list.split va_arg.split)
      have ns: "2 \<le> unat (10 :: u32)" "unat (10 :: u32) \<le> 16" "2 \<le> unat (8 :: u32)" "unat (8 :: u32) \<le> 16"
        "2 \<le> unat (16 :: u32)" "unat (16 :: u32) \<le> 16" by simp_all
      show ?thesis unfolding Escape Cons vp.simps(4) sw prod.case
        by (intro rel_if cont flag wid [OF sw] redo arg str err get num put put_str_arg_rel [OF p] rel_bind [OF sg] ns 1(2))
    qed
  qed
qed

lemma print_error_rel:
  assumes "putch_rel R f g" and "R s t"
  shows "rel_option R (print_error f n s) (print_error g n t)"
proof -
  have "rel_option R (vp (\<lambda>_ _. None) f Text fmt ap s) (vp (\<lambda>_ _. None) g Text fmt ap t)" for fmt ap
    using assms by (intro vp_rel) auto
  then show ?thesis by (auto simp: print_error_def Let_def split: option.split)
qed

text \<open>The text a format produces, if its arguments fit.\<close>

definition fmt_text :: "string \<Rightarrow> va_arg list \<Rightarrow> string option" where
  "fmt_text fmt ap = vprintfmt (\<lambda>c cs. cs @ [c]) fmt ap []"

lemma vprintfmt_text: "vprintfmt putch fmt ap st = map_option (\<lambda>cs. fold putch cs st) (fmt_text fmt ap)"
proof -
  let ?R = "\<lambda>s cs. s = fold putch cs st"
  have p: "putch_rel ?R putch (\<lambda>c cs. cs @ [c])" by (simp add: putch_rel_def)
  have "rel_option ?R (vprintfmt putch fmt ap st) (fmt_text fmt ap)"
    unfolding vprintfmt_def fmt_text_def using p by (intro vp_rel print_error_rel) auto
  then show ?thesis by (auto elim!: option.rel_cases)
qed

lemma sprintputch_fold:
  assumes "sb_buf b \<le> sb_ebuf b"
  defines "k \<equiv> sb_ebuf b - sb_buf b"
  shows "fold sprintputch cs (b, m) =
    (b\<lparr>sb_buf := sb_buf b + min k (length cs), sb_cnt := sb_cnt b + length cs\<rparr>,
     \<lambda>a. if sb_buf b \<le> a \<and> a < sb_buf b + min k (length cs) then cs ! (a - sb_buf b) else m a)"
  using assms(1) unfolding k_def
proof (induction cs arbitrary: b m)
  case (Cons c cs)
  show ?case
  proof (cases "sb_buf b < sb_ebuf b")
    case True
    let ?b = "b\<lparr>sb_cnt := sb_cnt b + 1, sb_buf := sb_buf b + 1\<rparr>"
    have "fold sprintputch (c # cs) (b, m) = fold sprintputch cs (?b, m(sb_buf b := c))"
      using True by (simp add: sprintputch_def Let_def)
    also have "\<dots> = (?b\<lparr>sb_buf := sb_buf ?b + min (sb_ebuf ?b - sb_buf ?b) (length cs), sb_cnt := sb_cnt ?b + length cs\<rparr>,
        \<lambda>a. if sb_buf ?b \<le> a \<and> a < sb_buf ?b + min (sb_ebuf ?b - sb_buf ?b) (length cs) then cs ! (a - sb_buf ?b) else (m(sb_buf b := c)) a)"
      using True by (intro Cons.IH) simp
    also have "\<dots> = (b\<lparr>sb_buf := sb_buf b + min (sb_ebuf b - sb_buf b) (length (c # cs)), sb_cnt := sb_cnt b + length (c # cs)\<rparr>,
        \<lambda>a. if sb_buf b \<le> a \<and> a < sb_buf b + min (sb_ebuf b - sb_buf b) (length (c # cs)) then (c # cs) ! (a - sb_buf b) else m a)"
      using True by (auto simp: fun_eq_iff nth_Cons' min_def)
    finally show ?thesis .
  next
    case False
    then have "sb_ebuf b = sb_buf b" using Cons.prems by simp
    moreover have "fold sprintputch (c # cs) (b, m) = fold sprintputch cs (b\<lparr>sb_cnt := sb_cnt b + 1\<rparr>, m)"
      using False by (simp add: sprintputch_def Let_def)
    ultimately show ?thesis using Cons.IH [of "b\<lparr>sb_cnt := sb_cnt b + 1\<rparr>" m] by (auto simp: fun_eq_iff)
  qed
qed (auto simp: fun_eq_iff)

lemma vsnprintf_text:
  assumes "fmt_text fmt ap = Some cs"
  shows "vsnprintf (Some str) sz fmt ap m =
     (if sz = 0 then Some (- E_INVAL, m)
      else Some (int (length cs), \<lambda>a. if str \<le> a \<and> a < str + min (sz - 1) (length cs) then cs ! (a - str)
                                    else if a = str + min (sz - 1) (length cs) then NUL else m a)) \<and>
   vsnprintf None sz fmt ap m = Some (- E_INVAL, m)"
proof (cases "sz = 0")
  case False
  let ?b = "\<lparr>sb_buf = str, sb_ebuf = str + sz - 1, sb_cnt = 0\<rparr>"
  have "sb_buf ?b \<le> sb_ebuf ?b" using False by simp
  from sprintputch_fold [OF this, of cs m] show ?thesis
    using assms False by (auto simp: vsnprintf_def vprintfmt_text fun_eq_iff)
qed (simp add: vsnprintf_def)

lemma fmt_text_d:
  "fmt_text ''%d'' [VInt n] = Some (if sint n < 0 then CHR ''-'' # map digit_char (digits 10 (nat (- sint n)))
                                   else map digit_char (digits 10 (nat (sint n))))"
proof -
  let ?n = "scast n :: u64"
  have si: "sint ?n = sint n" by (simp add: sint_up_scast is_up)
  have t: "numeral_text 10 k (- 1) c = map digit_char (digits 10 k)" for k c by (simp add: numeral_text_def)
  have rng: "- (2 ^ 31) \<le> sint n" "sint n < 2 ^ 31" using sint_ge [of n] sint_lt [of n] by simp_all
  have u: "uint ?n = sint n mod 2 ^ 64" using si by (simp add: uint_sint take_bit_eq_mod)
  have "unat (- ?n) = nat (- sint n)" if "sint n < 0"
  proof -
    have "uint (- ?n) = (- sint n) mod 2 ^ 64" using u by (simp add: uint_word_ariths mod_minus_eq)
    also have "\<dots> = - sint n" using that rng by (intro mod_pos_pos_trivial) simp_all
    finally show ?thesis by (simp add: unat_eq_nat_uint)
  qed
  moreover have "unat ?n = nat (sint n)" if "\<not> sint n < 0"
    using u that rng by (simp add: unat_eq_nat_uint mod_pos_pos_trivial)
  moreover have "?n <s 0 \<longleftrightarrow> sint n < 0" by (simp add: word_sless_alt si)
  moreover have f: "fold (\<lambda>c cs. cs @ [c]) xs ys = ys @ xs" for xs ys :: string
    by (induction xs arbitrary: ys) auto
  ultimately show ?thesis
    by (simp add: fmt_text_def vprintfmt_def vp.simps getint_def printnum_ok t f)
qed

text \<open>
  C22: \<open>snprintf\<close> never writes outside its buffer: it writes the first \<open>size - 1\<close> bytes of the formatted
  text and a NUL, changes no other byte, and returns the length of the whole text; with a null or empty
  buffer it returns the error and writes nothing.
\<close>

theorem snprintf_bounded:
  assumes "fmt_text fmt ap = Some cs"
  shows "vsnprintf (Some str) sz fmt ap m =
     (if sz = 0 then Some (- E_INVAL, m)
      else Some (int (length cs), \<lambda>a. if str \<le> a \<and> a < str + min (sz - 1) (length cs) then cs ! (a - str)
                                    else if a = str + min (sz - 1) (length cs) then NUL else m a)) \<and>
   vsnprintf None sz fmt ap m = Some (- E_INVAL, m)"
  using assms by (rule vsnprintf_text)

theorem snprintf_bounded_witness:
  "vsnprintf (Some 100) 3 ''%d'' [VInt 1234] (\<lambda>_. NUL) = Some (4, (\<lambda>_. NUL)(100 := CHR ''1'', 101 := CHR ''2'', 102 := NUL))"
proof -
  have "digits 10 1234 = [1, 2, 3, 4]" by (simp add: digits.simps [of 10])
  then have "fmt_text ''%d'' [VInt 1234] = Some ''1234''" by (simp add: fmt_text_d)
  then show ?thesis using snprintf_bounded [of "''%d''" "[VInt 1234]" "''1234''" 100 3 "\<lambda>_. NUL"]
    by (auto simp: fun_eq_iff nth_Cons')
qed

lemma digit_val_char: "d < 16 \<Longrightarrow> digit_val (digit_char d) = Some (int d) \<and> digit_char d \<noteq> NUL"
proof -
  assume "d < 16"
  moreover have "list_all (\<lambda>d. digit_val (digit_char d) = Some (int d) \<and> digit_char d \<noteq> NUL) [0..<16]" by code_simp
  ultimately show ?thesis by (simp add: list_all_iff)
qed

lemma strtol_digits_ok:
  assumes "cstring m s (map digit_char ds)" and "\<forall>d\<in>set ds. d < base" and "base \<le> 16"
  shows "strtol_digits m s (int base) v = Some (s + length ds, foldl (\<lambda>v d. v * of_nat base + of_nat d) v ds)"
  using assms
proof (induction ds arbitrary: s v)
  case Nil
  then show ?case by (simp add: strtol_digits.simps digit_val_def less_eq_char_def)
next
  case (Cons d ds)
  then show ?case using digit_val_char [of d] by (simp add: strtol_digits.simps [of m s])
qed

lemma foldl_of_nat: "foldl (\<lambda>v d. v * of_nat b + of_nat d) (of_nat v :: u32) ds = of_nat (foldl (\<lambda>v d. v * b + d) v ds)"
  by (induction ds arbitrary: v) (simp_all flip: of_nat_mult of_nat_add)

lemma strtol_decimal:
  assumes "cstring m s (map digit_char (digits 10 k))"
  shows "strtol m s 10 = Some (sint (of_nat k :: u32), s + length (digits 10 k))"
    and "m t = CHR ''-'' \<Longrightarrow> s = t + 1 \<Longrightarrow> strtol m t 10 = Some (sint (- of_nat k :: u32), s + length (digits 10 k))"
proof -
  have d: "\<forall>d\<in>set (digits 10 k). d < 10" using digits_lt [of 10] by simp
  have "strtol_digits m s (int 10) (of_nat 0) = Some (s + length (digits 10 k), of_nat k)"
    using strtol_digits_ok [OF assms d, of "of_nat 0"] foldl_of_nat [of 10 0 "digits 10 k"] digits_value [of 10 k] by simp
  then have sd: "strtol_digits m s 10 0 = Some (s + length (digits 10 k), of_nat k)" by simp
  have "digits 10 k \<noteq> []" by (subst digits.simps) simp
  then obtain e es where e: "digits 10 k = e # es" "e < 10" using d by (cases "digits 10 k") auto
  have "list_all (\<lambda>e. digit_char e \<noteq> CHR '' '' \<and> digit_char e \<noteq> CHR 0x09 \<and> digit_char e \<noteq> CHR ''+'' \<and> digit_char e \<noteq> CHR ''-'') [0..<10]"
    by code_simp
  then have c: "m s \<noteq> CHR '' ''" "m s \<noteq> CHR 0x09" "m s \<noteq> CHR ''+''" "m s \<noteq> CHR ''-''"
    using assms e by (auto simp: list_all_iff)
  then show "strtol m s 10 = Some (sint (of_nat k :: u32), s + length (digits 10 k))"
    using sd by (simp add: strtol_def skip_blanks.simps)
  show "strtol m t 10 = Some (sint (- of_nat k :: u32), s + length (digits 10 k))" if "m t = CHR ''-''" "s = t + 1"
    using that sd by (simp add: strtol_def skip_blanks.simps)
qed

lemma digits_length: "2 \<le> b \<Longrightarrow> n < b ^ k \<Longrightarrow> 0 < k \<Longrightarrow> length (digits b n) \<le> k"
proof (induction b n arbitrary: k rule: digits.induct)
  case (1 b n)
  show ?case
  proof (cases "n < b")
    case True
    then show ?thesis using "1.prems" by (simp add: digits.simps [of b n])
  next
    case False
    then obtain j where j: "k = Suc j" "0 < j" using "1.prems" by (cases k; cases "k - 1") auto
    then have "n div b < b ^ j" using "1.prems" by (simp add: less_mult_imp_div_less mult.commute)
    then have "length (digits b (n div b)) \<le> j" using 1 False j by auto
    then show ?thesis using False "1.prems"(1) j by (simp add: digits.simps [of b n])
  qed
qed

lemma cstring_written:
  assumes "\<forall>c\<in>set cs. c \<noteq> NUL"
  shows "cstring (\<lambda>a. if s \<le> a \<and> a < s + length cs then cs ! (a - s) else if a = s + length cs then NUL else m a) s cs"
  using assms cstring_append [of _ s cs "[]"] by simp

text \<open>
  C23: numbers survive printing and parsing: \<open>snprintf\<close> with \<open>%d\<close> into a buffer of at least 12 bytes,
  followed by \<open>strtol\<close> in base 10, gives back every 32-bit integer and stops at the terminating NUL.
\<close>

theorem printf_strtol_roundtrip:
  assumes "12 \<le> sz"
  shows "\<exists>cnt m'. vsnprintf (Some str) sz ''%d'' [VInt n] m = Some (cnt, m') \<and> strtol m' str 10 = Some (sint n, str + nat cnt)"
proof -
  define k where "k = nat (if sint n < 0 then - sint n else sint n)"
  define cs where "cs = (if sint n < 0 then CHR ''-'' # map digit_char (digits 10 k) else map digit_char (digits 10 k))"
  have t: "fmt_text ''%d'' [VInt n] = Some cs" by (simp add: fmt_text_d cs_def k_def)
  have "- (2 ^ 31) \<le> sint n" "sint n < 2 ^ 31" using sint_ge [of n] sint_lt [of n] by simp_all
  then have "k < 10 ^ 10" by (auto simp: k_def)
  then have l: "length cs < sz" using assms digits_length [of 10 k 10] by (simp add: cs_def)
  have "digit_char d \<noteq> NUL" if "d \<in> set (digits 10 k)" for d using digits_lt [OF _ that] digit_val_char [of d] by simp
  then have nn: "\<forall>c\<in>set cs. c \<noteq> NUL" by (auto simp: cs_def)
  define m' where "m' = (\<lambda>a. if str \<le> a \<and> a < str + length cs then cs ! (a - str) else if a = str + length cs then NUL else m a)"
  have w: "vsnprintf (Some str) sz ''%d'' [VInt n] m = Some (int (length cs), m')"
  proof -
    have e: "min (sz - 1) (length cs) = length cs" "sz \<noteq> 0" using l by auto
    show ?thesis using vsnprintf_text [OF t, of str sz m, unfolded e(1)] e(2) by (simp add: m'_def)
  qed
  have c: "cstring m' str cs" unfolding m'_def using nn by (rule cstring_written)
  have "int k = (if sint n < 0 then - sint n else sint n)" by (simp add: k_def)
  then have "(of_int (int k) :: u32) = (if sint n < 0 then - n else n)" by simp
  then have v: "(of_nat k :: u32) = (if sint n < 0 then - n else n)" by simp
  have "strtol m' str 10 = Some (sint n, str + length cs)"
  proof (cases "sint n < 0")
    case True
    then have "cstring m' (str + 1) (map digit_char (digits 10 k))" "m' str = CHR ''-''" using c by (simp_all add: cs_def)
    from strtol_decimal(2) [OF this refl] show ?thesis using True v by (simp add: cs_def)
  next
    case False
    then have "cstring m' str (map digit_char (digits 10 k))" using c by (simp add: cs_def)
    from strtol_decimal(1) [OF this] show ?thesis using False v by (simp add: cs_def)
  qed
  then show ?thesis using w by simp
qed

theorem printf_strtol_roundtrip_witness:
  "\<exists>cnt m'. vsnprintf (Some 0) 12 ''%d'' [VInt (- 1)] (\<lambda>_. NUL) = Some (cnt, m') \<and> strtol m' 0 10 = Some (- 1, nat cnt)"
  using printf_strtol_roundtrip [of 12 0 "- 1"] by simp

end
