(* ===== verification/Lib_Heap.thy ===== *)
theory Lib_Heap
  imports Ucore_Prelude "HOL-Library.Tree_Multiset"
begin

text \<open>
  The intrusive skew heap src/ucore_os/libs/skew_heap.h, the multiplicative hash of libs/hash.c and the
  generator of libs/rand.c.

  The heap code links nodes by pointers in a store; \<open>cmp\<close> (the code's \<open>comp\<close>) is the caller's comparison. It is shown to
  implement the functional skew heap \<open>smerge\<close> on trees of node addresses, parent links included, and
  the functional one to keep the heap order and exactly the nodes it was given.
\<close>

section \<open>Definitions\<close>

record skew_heap_entry =
  sh_parent :: "nat option"
  sh_left :: "nat option"
  sh_right :: "nat option"

type_synonym sheap = "nat \<Rightarrow> skew_heap_entry"

definition skew_heap_init :: "nat \<Rightarrow> sheap \<Rightarrow> sheap" where
  "skew_heap_init a h = h(a := \<lparr>sh_parent = None, sh_left = None, sh_right = None\<rparr>)"

abbreviation set_parent :: "nat option \<Rightarrow> nat option \<Rightarrow> sheap \<Rightarrow> sheap" where
  "set_parent p q h \<equiv> (case p of None \<Rightarrow> h | Some c \<Rightarrow> h(c := (h c)\<lparr>sh_parent := q\<rparr>))"

partial_function (option) skew_heap_merge :: "(nat \<Rightarrow> nat \<Rightarrow> int) \<Rightarrow> nat option \<Rightarrow> nat option \<Rightarrow> sheap \<Rightarrow> (nat option \<times> sheap) option" where
  "skew_heap_merge cmp pa pb h =
     (case pa of
        None \<Rightarrow> Some (pb, h)
      | Some a \<Rightarrow>
          (case pb of
             None \<Rightarrow> Some (pa, h)
           | Some b \<Rightarrow>
               if cmp a b = - 1 then do {
                 let r = sh_left (h a);
                 (l, h) \<leftarrow> skew_heap_merge cmp (sh_right (h a)) pb h;
                 let h = h(a := (h a)\<lparr>sh_left := l, sh_right := r\<rparr>);
                 Some (pa, set_parent l (Some a) h)
               }
               else do {
                 let r = sh_left (h b);
                 (l, h) \<leftarrow> skew_heap_merge cmp pa (sh_right (h b)) h;
                 let h = h(b := (h b)\<lparr>sh_left := l, sh_right := r\<rparr>);
                 Some (pb, set_parent l (Some b) h)
               }))"

definition skew_heap_insert :: "(nat \<Rightarrow> nat \<Rightarrow> int) \<Rightarrow> nat option \<Rightarrow> nat \<Rightarrow> sheap \<Rightarrow> (nat option \<times> sheap) option" where
  "skew_heap_insert cmp pa b h = skew_heap_merge cmp pa (Some b) (skew_heap_init b h)"

definition skew_heap_remove :: "(nat \<Rightarrow> nat \<Rightarrow> int) \<Rightarrow> nat option \<Rightarrow> nat \<Rightarrow> sheap \<Rightarrow> (nat option \<times> sheap) option" where
  "skew_heap_remove cmp pa b h = do {
     let p = sh_parent (h b);
     (rep, h) \<leftarrow> skew_heap_merge cmp (sh_left (h b)) (sh_right (h b)) h;
     let h = set_parent rep p h;
     Some (case p of
        None \<Rightarrow> (rep, h)
      | Some q \<Rightarrow>
          (pa, if sh_left (h q) = Some b then h(q := (h q)\<lparr>sh_left := rep\<rparr>) else h(q := (h q)\<lparr>sh_right := rep\<rparr>)))
   }"

definition hash32 :: "u32 \<Rightarrow> nat \<Rightarrow> u32" where
  "hash32 val bits = drop_bit (32 - bits) (val * 0x9e370001)"

definition RAND_MAX :: u64 where "RAND_MAX = 2147483647"

text \<open>\<open>rand\<close> returns the value and the new \<open>next\<close>.\<close>

definition rand :: "u64 \<Rightarrow> u64 \<times> u64" where
  "rand nxt = (let nxt = (nxt * 0x5DEECE66D + 0xB) AND (push_bit 48 1 - 1) in ((drop_bit 12 nxt) mod (RAND_MAX + 1), nxt))"

definition srand :: "u32 \<Rightarrow> u64" where
  "srand seed = ucast seed"

section \<open>The functional skew heap\<close>

fun smerge :: "(nat \<Rightarrow> nat \<Rightarrow> int) \<Rightarrow> nat tree \<Rightarrow> nat tree \<Rightarrow> nat tree" where
  "smerge cmp Leaf t = t"
| "smerge cmp s Leaf = s"
| "smerge cmp (Node la a ra) (Node lb b rb) =
     (if cmp a b = - 1 then Node (smerge cmp ra (Node lb b rb)) a la else Node (smerge cmp (Node la a ra) rb) b lb)"

lemma smerge_Leaf2 [simp]: "smerge cmp t Leaf = t"
  by (cases t) auto

lemma mset_smerge [simp]: "mset_tree (smerge cmp s t) = mset_tree s + mset_tree t"
  by (induction cmp s t rule: smerge.induct) (auto simp: ac_simps)

lemma set_smerge [simp]: "set_tree (smerge cmp s t) = set_tree s \<union> set_tree t"
  by (simp flip: set_mset_tree)

text \<open>
  \<open>cmp\<close> compares keys: the usual three-way comparison, as the stride scheduler's. \<open>sorder\<close> is the heap
  order: no node has a smaller key than its parent.
\<close>

definition compares :: "(nat \<Rightarrow> nat \<Rightarrow> int) \<Rightarrow> (nat \<Rightarrow> int) \<Rightarrow> bool" where
  "compares cmp key \<longleftrightarrow> (\<forall>a b. cmp a b = sgn (key a - key b))"

fun sorder :: "(nat \<Rightarrow> int) \<Rightarrow> nat tree \<Rightarrow> bool" where
  "sorder key Leaf \<longleftrightarrow> True"
| "sorder key (Node l a r) \<longleftrightarrow> (\<forall>x\<in>set_tree l \<union> set_tree r. key a \<le> key x) \<and> sorder key l \<and> sorder key r"

lemma sorder_smerge: "compares cmp key \<Longrightarrow> sorder key s \<Longrightarrow> sorder key t \<Longrightarrow> sorder key (smerge cmp s t)"
proof (induction cmp s t rule: smerge.induct)
  case (3 cmp la a ra lb b rb)
  have "cmp a b = - 1 \<longleftrightarrow> key a < key b" using 3(3) by (simp add: compares_def sgn_if)
  then show ?case using 3 by (auto 0 3 intro: order.trans order.strict_implies_order)
qed simp_all

section \<open>The pointer code implements it\<close>

definition child_of :: "sheap \<Rightarrow> nat option \<Rightarrow> nat \<Rightarrow> bool" where
  "child_of h p a \<longleftrightarrow> (case p of None \<Rightarrow> True | Some c \<Rightarrow> sh_parent (h c) = Some a)"

fun srep :: "sheap \<Rightarrow> nat option \<Rightarrow> nat tree \<Rightarrow> bool" where
  "srep h p Leaf \<longleftrightarrow> p = None"
| "srep h p (Node l a r) \<longleftrightarrow> p = Some a \<and> srep h (sh_left (h a)) l \<and> srep h (sh_right (h a)) r \<and>
     child_of h (sh_left (h a)) a \<and> child_of h (sh_right (h a)) a"

abbreviation snodes :: "nat tree \<Rightarrow> nat list" where "snodes \<equiv> inorder"

fun root_of :: "nat tree \<Rightarrow> nat option" where
  "root_of Leaf = None"
| "root_of (Node l a r) = Some a"

lemma srep_root: "srep h p t \<Longrightarrow> p = root_of t"
  by (cases t) auto

lemma root_of_in: "root_of t = Some a \<Longrightarrow> a \<in> set_tree t"
  by (cases t) auto

text \<open>The parent link of the root is not part of the representation.\<close>

lemma srep_frame:
  assumes "srep h p t" and "\<And>x. x \<in> set_tree t \<Longrightarrow> sh_left (h' x) = sh_left (h x) \<and> sh_right (h' x) = sh_right (h x)"
    and "\<And>x. x \<in> set_tree t \<Longrightarrow> root_of t \<noteq> Some x \<Longrightarrow> sh_parent (h' x) = sh_parent (h x)" and "distinct (inorder t)"
  shows "srep h' p t"
  using assms
proof (induction t arbitrary: p)
  case (Node l a r)
  have d: "a \<notin> set_tree l" "a \<notin> set_tree r" "distinct (inorder l)" "distinct (inorder r)" using Node.prems(4) by auto
  have par: "sh_parent (h' x) = sh_parent (h x)" if "x \<in> set_tree l \<union> set_tree r" for x
    using Node.prems(3) [of x] that d by auto
  have ch: "sh_left (h' a) = sh_left (h a)" "sh_right (h' a) = sh_right (h a)" using Node.prems(2) by auto
  have "child_of h' q a = child_of h q a" if "srep h q s" "s = l \<or> s = r" for q s
    using that srep_root [OF that(1)] root_of_in [of s] par by (auto simp: child_of_def split: option.split)
  moreover have "srep h' (sh_left (h a)) l" "srep h' (sh_right (h a)) r"
    using Node.prems d par by (auto intro!: Node.IH)
  ultimately show ?case using Node.prems(1) ch by auto
qed simp

definition merged :: "sheap \<Rightarrow> nat option \<times> sheap \<Rightarrow> nat tree \<Rightarrow> bool" where
  "merged h = (\<lambda>(p, h') t. srep h' p t \<and> (\<forall>x. x \<notin> set_tree t \<longrightarrow> h' x = h x) \<and>
     (\<forall>x. p = Some x \<longrightarrow> sh_parent (h' x) = sh_parent (h x)))"

lemma merge_link:
  assumes m: "merged h (l, h1) tll" and r: "srep h rp trr" and ch: "child_of h rp a"
    and d: "distinct (inorder (Node tll a trr))"
  defines "h2 \<equiv> h1(a := (h1 a)\<lparr>sh_left := l, sh_right := rp\<rparr>)"
  shows "merged h (Some a, set_parent l (Some a) h2) (Node tll a trr)"
proof -
  define h3 where "h3 = set_parent l (Some a) h2"
  have l: "srep h1 l tll" "\<And>x. x \<notin> set_tree tll \<Longrightarrow> h1 x = h x" using m by (auto simp: merged_def)
  have dd: "a \<notin> set_tree tll" "a \<notin> set_tree trr" "set_tree tll \<inter> set_tree trr = {}" "distinct (inorder tll)" "distinct (inorder trr)"
    using d by auto
  have lin: "c \<in> set_tree tll" if "l = Some c" for c using srep_root [OF l(1)] that root_of_in by simp
  have f3: "h3 x = h1 x" if "x \<noteq> a" "l \<noteq> Some x" for x
    using that by (auto simp: h3_def h2_def split: option.split)
  have lr3: "sh_left (h3 x) = sh_left (h1 x)" "sh_right (h3 x) = sh_right (h1 x)" if "x \<noteq> a" for x
    using that by (auto simp: h3_def h2_def split: option.split)
  have a3: "sh_left (h3 a) = l" "sh_right (h3 a) = rp" "sh_parent (h3 a) = sh_parent (h a)"
    using lin dd(1) l(2) [OF dd(1)] by (auto simp: h3_def h2_def split: option.split)
  have na: "x \<noteq> a" if "x \<in> set_tree tll" for x using dd(1) that by auto
  have "srep h3 l tll"
    using srep_root [OF l(1)] dd(4) by (intro srep_frame [OF l(1)]) (simp_all add: lr3 f3 na)
  moreover have "srep h3 rp trr"
  proof -
    have "h3 x = h x" if "x \<in> set_tree trr" for x
      using that dd lin f3 [of x] l(2) [of x] by (metis disjoint_iff)
    then show ?thesis using dd(5) by (intro srep_frame [OF r]) auto
  qed
  moreover have "child_of h3 l a" by (auto simp: child_of_def h3_def split: option.split)
  moreover have "child_of h3 rp a"
  proof (cases rp)
    case (Some c)
    then have "c \<in> set_tree trr" using srep_root [OF r] root_of_in by simp
    then have "h3 c = h c" using dd lin f3 [of c] l(2) [of c] by (metis disjoint_iff)
    then show ?thesis using ch Some by (simp add: child_of_def)
  qed (simp add: child_of_def)
  moreover have "h3 x = h x" if "x \<notin> set_tree (Node tll a trr)" for x
    using that lin f3 [of x] l(2) [of x] by auto
  ultimately show ?thesis using a3 by (simp add: merged_def h3_def [symmetric])
qed

lemma inorder_smerge: "mset (inorder (smerge cmp s t)) = mset (inorder s) + mset (inorder t)"
  by (simp add: mset_inorder)

lemma distinct_smerge: "distinct (inorder s @ inorder t) \<Longrightarrow> distinct (inorder (smerge cmp s t))"
  by (metis inorder_smerge mset_append mset_eq_imp_distinct_iff)

lemma skew_heap_merge_ok:
  assumes "srep h pa s" and "srep h pb t" and "distinct (inorder s @ inorder t)"
  shows "\<exists>r. skew_heap_merge cmp pa pb h = Some r \<and> merged h r (smerge cmp s t) \<and> fst r = root_of (smerge cmp s t)"
  using assms
proof (induction cmp s t arbitrary: pa pb rule: smerge.induct)
  case (1 cmp t)
  then show ?case using srep_root [of h pb t] by (auto simp: skew_heap_merge.simps merged_def)
next
  case (2 cmp l a r)
  then show ?case using srep_root [of h pa "Node l a r"] by (auto simp: skew_heap_merge.simps merged_def)
next
  case (3 cmp la a ra lb b rb)
  have p: "pa = Some a" "pb = Some b" using 3(3,4) by auto
  show ?case
  proof (cases "cmp a b = - 1")
    case True
    have d: "distinct (inorder ra @ inorder (Node lb b rb))" using 3(5) by auto
    obtain l h1 where ih: "skew_heap_merge cmp (sh_right (h a)) pb h = Some (l, h1)" "merged h (l, h1) (smerge cmp ra (Node lb b rb))"
      using 3(1) [OF True _ 3(4) d, of "sh_right (h a)"] 3(3) by (metis srep.simps(2) surj_pair)
    have "distinct (inorder (Node (smerge cmp ra (Node lb b rb)) a la))"
      using 3(5) distinct_smerge [OF d, of cmp] by auto
    from merge_link [OF ih(2) _ _ this, of "sh_left (h a)"] 3(3) True p ih(1)
    show ?thesis by (simp add: skew_heap_merge.simps [of _ "Some a"] Let_def)
  next
    case False
    have d: "distinct (inorder (Node la a ra) @ inorder rb)" using 3(5) by auto
    obtain l h1 where ih: "skew_heap_merge cmp pa (sh_right (h b)) h = Some (l, h1)" "merged h (l, h1) (smerge cmp (Node la a ra) rb)"
      using 3(2) [OF False 3(3) _ d, of "sh_right (h b)"] 3(4) by (metis srep.simps(2) surj_pair)
    have "distinct (inorder (Node (smerge cmp (Node la a ra) rb) b lb))"
      using 3(5) distinct_smerge [OF d, of cmp] by auto
    from merge_link [OF ih(2) _ _ this, of "sh_left (h b)"] 3(4) False p ih(1)
    show ?thesis by (simp add: skew_heap_merge.simps [of _ "Some a"] Let_def)
  qed
qed

text \<open>
  C24: the pointer code of the skew heap implements a priority queue: merging two disjoint heaps ordered
  by the comparison returns, the result represents, parent links included, a heap in heap order that
  holds exactly the nodes of both, no node outside them is touched, and its root is a minimal node.
\<close>

theorem skew_heap_merge_correct:
  assumes "compares cmp key" and "srep h pa s" and "srep h pb t" and "distinct (inorder s @ inorder t)"
    and "sorder key s" and "sorder key t"
  shows "\<exists>p h' u. skew_heap_merge cmp pa pb h = Some (p, h') \<and> srep h' p u \<and> sorder key u \<and>
    mset_tree u = mset_tree s + mset_tree t \<and> (\<forall>x. x \<notin> set_tree s \<union> set_tree t \<longrightarrow> h' x = h x) \<and>
    (\<forall>x r. p = Some r \<longrightarrow> x \<in> set_tree s \<union> set_tree t \<longrightarrow> key r \<le> key x)"
proof -
  let ?u = "smerge cmp s t"
  obtain p h' where m: "skew_heap_merge cmp pa pb h = Some (p, h')" "merged h (p, h') ?u" "p = root_of ?u"
    using skew_heap_merge_ok [OF assms(2-4), of cmp] by auto
  have o: "sorder key ?u" using assms(1,5,6) by (rule sorder_smerge)
  have "key r \<le> key x" if "p = Some r" "x \<in> set_tree s \<union> set_tree t" for x r
  proof -
    have "x \<in> set_tree ?u" using that(2) by simp
    then show ?thesis using o that(1) m(3) by (cases ?u) auto
  qed
  then show ?thesis using m o by (intro exI [of _ p] exI [of _ h'] exI [of _ ?u]) (auto simp: merged_def)
qed

theorem skew_heap_merge_correct_witness:
  "\<exists>p h'. skew_heap_merge (\<lambda>a b. sgn (int a - int b)) (Some 5) (Some 3)
      (\<lambda>_. \<lparr>sh_parent = None, sh_left = None, sh_right = None\<rparr>) = Some (p, h') \<and> p \<noteq> None"
proof -
  let ?h = "\<lambda>_ :: nat. \<lparr>sh_parent = None, sh_left = None, sh_right = None\<rparr>"
  have "compares (\<lambda>a b. sgn (int a - int b)) int" by (simp add: compares_def)
  moreover have "srep ?h (Some n) (Node Leaf n Leaf)" for n by (simp add: child_of_def)
  ultimately obtain p h' u where "skew_heap_merge (\<lambda>a b. sgn (int a - int b)) (Some 5) (Some 3) ?h = Some (p, h')"
    "srep h' p u" "mset_tree u = {#5#} + {#3#}"
    using skew_heap_merge_correct [of "\<lambda>a b. sgn (int a - int b)" int ?h "Some 5" "Node Leaf 5 Leaf" "Some 3" "Node Leaf 3 Leaf"] by auto
  moreover from this have "u \<noteq> Leaf" by auto
  ultimately show ?thesis by (cases u) auto
qed

lemma hash32_bound:
  assumes "bits \<le> 32"
  shows "unat (hash32 val bits) < 2 ^ bits"
proof -
  let ?n = "unat (val * 0x9e370001)"
  have "?n < 2 ^ bits * 2 ^ (32 - bits)"
    using assms unsigned_less [of "val * 0x9e370001", where 'a = nat] by (simp flip: power_add)
  then have "?n div 2 ^ (32 - bits) < 2 ^ bits" by (rule less_mult_imp_div_less)
  moreover have "unat (hash32 val bits) = ?n div 2 ^ (32 - bits)"
    unfolding hash32_def unat_drop_bit_eq by (simp add: drop_bit_eq_div)
  ultimately show ?thesis by simp
qed

lemma rand_bound: "fst (rand nxt) \<le> RAND_MAX"
  using word_mod_less_divisor [of "RAND_MAX + 1" "drop_bit 12 ((nxt * 0x5DEECE66D + 0xB) AND (push_bit 48 1 - 1))"]
  by (simp add: rand_def RAND_MAX_def Let_def word_less_nat_alt word_le_nat_alt unat_mod)

end
