(* ===== verification/Proc_State.thy ===== *)
theory Proc_State
  imports Ucore_Prelude
begin

text \<open>
  The data the process, scheduling and synchronisation code shares: \<open>struct proc_struct\<close>,
  \<open>struct context\<close> and \<open>struct trapframe\<close> of src/ucore_os/kern/process/proc.h and
  kern/trap/trap.h, \<open>struct run_queue\<close>, \<open>struct sched_class\<close> and \<open>timer_t\<close> of
  kern/schedule/sched.h, and the global variables of kern/process/proc.c and kern/schedule/sched.c.

  A process is named by an index into \<open>procs\<close>. The rings \<open>proc_list\<close>, \<open>hash_list[i]\<close>,
  \<open>rq->run_list\<close> and \<open>timer_list\<close> are the lists they represent (Lib_List); the test
  \<open>list_empty(&(proc->run_link))\<close> on the link of an entry is that the entry is in no run queue.
\<close>

datatype proc_state = PROC_UNINIT | PROC_SLEEPING | PROC_RUNNABLE | PROC_ZOMBIE

record proc_context =
  ctx_eip :: u32
  ctx_esp :: u32
  ctx_ebx :: u32
  ctx_ecx :: u32
  ctx_edx :: u32
  ctx_esi :: u32
  ctx_edi :: u32
  ctx_ebp :: u32

record pushregs =
  reg_edi :: u32
  reg_esi :: u32
  reg_ebp :: u32
  reg_oesp :: u32
  reg_ebx :: u32
  reg_edx :: u32
  reg_ecx :: u32
  reg_eax :: u32

record trapframe =
  tf_regs :: pushregs
  tf_gs :: u16
  tf_fs :: u16
  tf_es :: u16
  tf_ds :: u16
  tf_trapno :: u32
  tf_err :: u32
  tf_eip :: u32
  tf_cs :: u16
  tf_eflags :: u32
  tf_esp :: u32
  tf_ss :: u16

record proc_struct =
  p_state :: proc_state
  p_pid :: int
  p_runs :: int
  p_kstack :: "nat option"
  p_need_resched :: bool
  p_parent :: "nat option"
  p_mm :: "nat option"
  p_context :: proc_context
  p_tf :: "trapframe option"
  p_cr3 :: u32
  p_flags :: u32
  p_name :: string
  p_exit_code :: int
  p_wait_state :: u32
  p_cptr :: "nat option"
  p_yptr :: "nat option"
  p_optr :: "nat option"
  p_rq :: bool
  p_time_slice :: int
  p_priority :: u32
  p_filesp :: "nat option"

definition PF_EXITING :: u32 where "PF_EXITING = 1"
definition WT_INTERRUPTED :: u32 where "WT_INTERRUPTED = 0x80000000"
definition WT_CHILD :: u32 where "WT_CHILD = 1 OR WT_INTERRUPTED"
definition WT_KSEM :: u32 where "WT_KSEM = 0x100"
definition WT_TIMER :: u32 where "WT_TIMER = 2 OR WT_INTERRUPTED"
definition WT_KBD :: u32 where "WT_KBD = 4 OR WT_INTERRUPTED"

type_synonym proc_table = "nat \<Rightarrow> proc_struct"

record run_queue =
  run_list :: "nat list"
  proc_num :: nat
  max_time_slice :: int

text \<open>The function table of a scheduler; \<open>None\<close> is a failed assertion.\<close>

record sched_class =
  sc_init :: "run_queue \<Rightarrow> run_queue"
  sc_enqueue :: "nat \<Rightarrow> run_queue \<times> proc_table \<Rightarrow> (run_queue \<times> proc_table) option"
  sc_dequeue :: "nat \<Rightarrow> run_queue \<times> proc_table \<Rightarrow> (run_queue \<times> proc_table) option"
  sc_pick_next :: "run_queue \<times> proc_table \<Rightarrow> nat option"
  sc_proc_tick :: "nat \<Rightarrow> run_queue \<times> proc_table \<Rightarrow> run_queue \<times> proc_table"

record timer =
  tm_expires :: nat
  tm_proc :: "nat option"

record kstate =
  procs :: proc_table
  current :: nat
  idleproc :: nat
  rq :: run_queue
  sched :: sched_class
  timers :: "nat \<Rightarrow> timer"
  timer_list :: "nat list"
  cpu_cr3 :: u32

abbreviation upd_proc :: "nat \<Rightarrow> (proc_struct \<Rightarrow> proc_struct) \<Rightarrow> 'a kstate_scheme \<Rightarrow> 'a kstate_scheme" where
  "upd_proc p f s \<equiv> s\<lparr>procs := (procs s)(p := f (procs s p))\<rparr>"

abbreviation proc_at :: "'a kstate_scheme \<Rightarrow> nat \<Rightarrow> proc_struct" where
  "proc_at s p \<equiv> procs s p"

end
