(* ===== verification/Sched.thy ===== *)
theory Sched
  imports Proc_State Lib_List
begin

text \<open>
  The scheduler core src/ucore_os/kern/schedule/sched.c and the round-robin class of
  kern/schedule/default_sched.c: the run queue, \<open>wakeup_proc\<close>, \<open>schedule\<close>, and the timers.

  \<open>schedule\<close> on any scheduling class that keeps the contract of its function table neither loses
  nor duplicates a runnable process; round robin runs the processes in queue order. Timers are kept
  as differences: adding, removing and a clock tick act on the absolute expiry times.
  Interrupts are off in all these functions, so they are atomic.
\<close>

section \<open>Round robin\<close>

definition MAX_TIME_SLICE :: int where "MAX_TIME_SLICE = 5"

definition RR_init :: "run_queue \<Rightarrow> run_queue" where
  "RR_init r = r\<lparr>run_list := [], proc_num := 0\<rparr>"

definition RR_enqueue :: "nat \<Rightarrow> run_queue \<times> proc_table \<Rightarrow> (run_queue \<times> proc_table) option" where
  "RR_enqueue p = (\<lambda>(r, ps). do {
     kassert (p \<notin> set (run_list r));
     let r1 = r\<lparr>run_list := run_list r @ [p]\<rparr>;
     let ps1 = (if p_time_slice (ps p) = 0 \<or> p_time_slice (ps p) > max_time_slice r1
                then ps(p := (ps p)\<lparr>p_time_slice := max_time_slice r1\<rparr>) else ps);
     Some (r1\<lparr>proc_num := proc_num r1 + 1\<rparr>, ps1(p := (ps1 p)\<lparr>p_rq := True\<rparr>))
   })"

definition RR_dequeue :: "nat \<Rightarrow> run_queue \<times> proc_table \<Rightarrow> (run_queue \<times> proc_table) option" where
  "RR_dequeue p = (\<lambda>(r, ps). do {
     kassert (p \<in> set (run_list r) \<and> p_rq (ps p));
     Some (r\<lparr>run_list := remove1 p (run_list r), proc_num := proc_num r - 1\<rparr>, ps)
   })"

definition RR_pick_next :: "run_queue \<times> proc_table \<Rightarrow> nat option" where
  "RR_pick_next = (\<lambda>(r, ps). case run_list r of [] \<Rightarrow> None | le # _ \<Rightarrow> Some le)"

definition RR_proc_tick :: "nat \<Rightarrow> run_queue \<times> proc_table \<Rightarrow> run_queue \<times> proc_table" where
  "RR_proc_tick p = (\<lambda>(r, ps).
     (let ps1 = (if p_time_slice (ps p) > 0 then ps(p := (ps p)\<lparr>p_time_slice := p_time_slice (ps p) - 1\<rparr>) else ps);
          ps2 = (if p_time_slice (ps1 p) = 0 then ps1(p := (ps1 p)\<lparr>p_need_resched := True\<rparr>) else ps1)
      in (r, ps2)))"

definition default_sched_class :: sched_class where
  "default_sched_class = \<lparr>sc_init = RR_init, sc_enqueue = RR_enqueue, sc_dequeue = RR_dequeue,
     sc_pick_next = RR_pick_next, sc_proc_tick = RR_proc_tick\<rparr>"

section \<open>The scheduler core\<close>

definition sched_class_enqueue :: "nat \<Rightarrow> 'a kstate_scheme \<Rightarrow> 'a kstate_scheme option" where
  "sched_class_enqueue p s =
     (if p \<noteq> idleproc s then do {
        (r, ps) \<leftarrow> sc_enqueue (sched s) p (rq s, procs s);
        Some (s\<lparr>rq := r, procs := ps\<rparr>)
      }
      else Some s)"

definition sched_class_dequeue :: "nat \<Rightarrow> 'a kstate_scheme \<Rightarrow> 'a kstate_scheme option" where
  "sched_class_dequeue p s = do {
     (r, ps) \<leftarrow> sc_dequeue (sched s) p (rq s, procs s);
     Some (s\<lparr>rq := r, procs := ps\<rparr>)
   }"

definition sched_class_pick_next :: "'a kstate_scheme \<Rightarrow> nat option" where
  "sched_class_pick_next s = sc_pick_next (sched s) (rq s, procs s)"

definition sched_class_proc_tick :: "nat \<Rightarrow> 'a kstate_scheme \<Rightarrow> 'a kstate_scheme" where
  "sched_class_proc_tick p s =
     (if p \<noteq> idleproc s then
        (let (r, ps) = sc_proc_tick (sched s) p (rq s, procs s) in s\<lparr>rq := r, procs := ps\<rparr>)
      else upd_proc p (\<lambda>pr. pr\<lparr>p_need_resched := True\<rparr>) s)"

definition sched_init :: "'a kstate_scheme \<Rightarrow> 'a kstate_scheme" where
  "sched_init s = s\<lparr>timer_list := [], sched := default_sched_class,
     rq := RR_init ((rq s)\<lparr>max_time_slice := MAX_TIME_SLICE\<rparr>)\<rparr>"

definition wakeup_proc :: "nat \<Rightarrow> 'a kstate_scheme \<Rightarrow> 'a kstate_scheme option" where
  "wakeup_proc p s = do {
     kassert (p_state (proc_at s p) \<noteq> PROC_ZOMBIE);
     if p_state (proc_at s p) \<noteq> PROC_RUNNABLE then do {
       let s1 = upd_proc p (\<lambda>pr. pr\<lparr>p_state := PROC_RUNNABLE, p_wait_state := 0\<rparr>) s;
       if p \<noteq> current s1 then sched_class_enqueue p s1 else Some s1
     }
     else Some s
   }"

text \<open>\<open>proc_run\<close> of kern/process/proc.c: the stack and register switch is the change of \<open>current\<close>.\<close>

definition proc_run :: "nat \<Rightarrow> 'a kstate_scheme \<Rightarrow> 'a kstate_scheme" where
  "proc_run p s = (if p \<noteq> current s then s\<lparr>current := p, cpu_cr3 := p_cr3 (proc_at s p)\<rparr> else s)"

definition schedule :: "'a kstate_scheme \<Rightarrow> 'a kstate_scheme option" where
  "schedule s = do {
     let s1 = upd_proc (current s) (\<lambda>pr. pr\<lparr>p_need_resched := False\<rparr>) s;
     s2 \<leftarrow> (if p_state (proc_at s1 (current s1)) = PROC_RUNNABLE then sched_class_enqueue (current s1) s1 else Some s1);
     s3 \<leftarrow> (case sched_class_pick_next s2 of None \<Rightarrow> Some s2 | Some next \<Rightarrow> sched_class_dequeue next s2);
     let next = (case sched_class_pick_next s2 of None \<Rightarrow> idleproc s3 | Some next \<Rightarrow> next);
     let s4 = upd_proc next (\<lambda>pr. pr\<lparr>p_runs := p_runs pr + 1\<rparr>) s3;
     Some (if next \<noteq> current s4 then proc_run next s4 else s4)
   }"

section \<open>Timers\<close>

definition timer_init :: "nat \<Rightarrow> nat option \<Rightarrow> nat \<Rightarrow> 'a kstate_scheme \<Rightarrow> 'a kstate_scheme" where
  "timer_init t p expires s = s\<lparr>timers := (timers s)(t := \<lparr>tm_expires = expires, tm_proc = p\<rparr>)\<rparr>"

abbreviation expires_of :: "'a kstate_scheme \<Rightarrow> nat \<Rightarrow> nat" where
  "expires_of s t \<equiv> tm_expires (timers s t)"

abbreviation upd_expires :: "nat \<Rightarrow> nat \<Rightarrow> 'a kstate_scheme \<Rightarrow> 'a kstate_scheme" where
  "upd_expires t n s \<equiv> s\<lparr>timers := (timers s)(t := (timers s t)\<lparr>tm_expires := n\<rparr>)\<rparr>"

text \<open>The search loop of \<open>add_timer\<close>: the entry to insert before, \<open>None\<close> for the list head.\<close>

fun add_timer_pos :: "nat \<Rightarrow> nat list \<Rightarrow> 'a kstate_scheme \<Rightarrow> nat option \<times> 'a kstate_scheme" where
  "add_timer_pos t [] s = (None, s)"
| "add_timer_pos t (next # le) s =
     (if expires_of s t < expires_of s next
      then (Some next, upd_expires next (expires_of s next - expires_of s t) s)
      else add_timer_pos t le (upd_expires t (expires_of s t - expires_of s next) s))"

definition add_timer :: "nat \<Rightarrow> 'a kstate_scheme \<Rightarrow> 'a kstate_scheme option" where
  "add_timer t s = do {
     kassert (expires_of s t > 0 \<and> tm_proc (timers s t) \<noteq> None);
     kassert (t \<notin> set (timer_list s));
     let (le, s1) = add_timer_pos t (timer_list s) s;
     Some (s1\<lparr>timer_list := (case le of None \<Rightarrow> timer_list s1 @ [t] | Some n \<Rightarrow> ins_before n t (timer_list s1))\<rparr>)
   }"

text \<open>The entry after \<open>t\<close> in the list.\<close>

fun succ_of :: "nat \<Rightarrow> nat list \<Rightarrow> nat option" where
  "succ_of t [] = None"
| "succ_of t (x # xs) = (if x = t then (case xs of [] \<Rightarrow> None | y # _ \<Rightarrow> Some y) else succ_of t xs)"

definition del_timer :: "nat \<Rightarrow> 'a kstate_scheme \<Rightarrow> 'a kstate_scheme" where
  "del_timer t s =
     (if t \<in> set (timer_list s) then
        (let s1 = (if expires_of s t \<noteq> 0 then
                     (case succ_of t (timer_list s) of
                        None \<Rightarrow> s
                      | Some next \<Rightarrow> upd_expires next (expires_of s next + expires_of s t) s)
                   else s)
         in s1\<lparr>timer_list := remove1 t (timer_list s1)\<rparr>)
      else s)"

text \<open>The wake-up loop of \<open>run_timer_list\<close>; it reads the successor before it removes an entry.\<close>

fun run_expired :: "nat list \<Rightarrow> 'a kstate_scheme \<Rightarrow> 'a kstate_scheme option" where
  "run_expired [] s = Some s"
| "run_expired (t # le) s =
     (if expires_of s t = 0 then do {
        p \<leftarrow> tm_proc (timers s t);
        kassert (p_wait_state (proc_at s p) \<noteq> 0 \<longrightarrow> p_wait_state (proc_at s p) AND WT_INTERRUPTED \<noteq> 0);
        s1 \<leftarrow> wakeup_proc p s;
        run_expired le (del_timer t s1)
      }
      else Some s)"

definition run_timer_list :: "'a kstate_scheme \<Rightarrow> 'a kstate_scheme option" where
  "run_timer_list s = do {
     s1 \<leftarrow> (case timer_list s of
        [] \<Rightarrow> Some s
      | t # le \<Rightarrow> do {
          kassert (expires_of s t \<noteq> 0);
          run_expired (t # le) (upd_expires t (expires_of s t - 1) s)
        });
     Some (sched_class_proc_tick (current s1) s1)
   }"

section \<open>The contract of a scheduling class\<close>

text \<open>A class may change only the fields of a process it owns, and looks at no others.\<close>

definition core_fields :: "proc_struct \<Rightarrow> _" where
  "core_fields pr = ((p_state pr, p_pid pr, p_runs pr, p_kstack pr, p_need_resched pr, p_parent pr, p_mm pr),
     (p_context pr, p_tf pr, p_cr3 pr, p_flags pr, p_name pr, p_exit_code pr, p_wait_state pr),
     (p_cptr pr, p_yptr pr, p_optr pr, p_priority pr, p_filesp pr))"

definition class_frame :: "proc_table \<Rightarrow> proc_table \<Rightarrow> bool" where
  "class_frame ps ps' \<longleftrightarrow> (\<forall>p. core_fields (ps' p) = core_fields (ps p))"

definition core_frame :: "proc_table \<Rightarrow> proc_table \<Rightarrow> bool" where
  "core_frame ps ps' \<longleftrightarrow> (\<forall>p. p_time_slice (ps' p) = p_time_slice (ps p) \<and> p_rq (ps' p) = p_rq (ps p))"

lemma class_frame_refl [simp]: "class_frame ps ps"
  by (simp add: class_frame_def)

lemma core_fields_upd [simp]:
  "core_fields (pr\<lparr>p_time_slice := n\<rparr>) = core_fields pr" "core_fields (pr\<lparr>p_rq := b\<rparr>) = core_fields pr"
  by (simp_all add: core_fields_def)

lemma class_frameD:
  assumes "class_frame ps ps'"
  shows "p_state (ps' p) = p_state (ps p)" "p_wait_state (ps' p) = p_wait_state (ps p)"
    "p_pid (ps' p) = p_pid (ps p)" "p_parent (ps' p) = p_parent (ps p)" "p_runs (ps' p) = p_runs (ps p)"
    "p_need_resched (ps' p) = p_need_resched (ps p)" "p_flags (ps' p) = p_flags (ps p)"
  using assms by (simp_all add: class_frame_def core_fields_def)

text \<open>
  The bookkeeping of the kernel over a class: exactly the runnable processes are queued, except the
  one that runs and the idle process, which is always runnable.
\<close>

definition sched_inv ::
  "sched_class \<Rightarrow> (run_queue \<times> proc_table \<Rightarrow> bool) \<Rightarrow> (run_queue \<times> proc_table \<Rightarrow> nat set) \<Rightarrow> 'a kstate_scheme \<Rightarrow> bool" where
  "sched_inv sc cok queued s \<longleftrightarrow> sched s = sc \<and> cok (rq s, procs s) \<and>
     p_state (proc_at s (idleproc s)) = PROC_RUNNABLE \<and>
     (\<forall>p. p \<in> queued (rq s, procs s) \<longleftrightarrow>
        p_state (proc_at s p) = PROC_RUNNABLE \<and> p \<noteq> current s \<and> p \<noteq> idleproc s)"

locale sched_contract =
  fixes sc :: sched_class and cok :: "run_queue \<times> proc_table \<Rightarrow> bool" and queued :: "run_queue \<times> proc_table \<Rightarrow> nat set"
  assumes enq: "cok (r, ps) \<Longrightarrow> p \<notin> queued (r, ps) \<Longrightarrow>
      \<exists>r' ps'. sc_enqueue sc p (r, ps) = Some (r', ps') \<and> cok (r', ps') \<and>
        queued (r', ps') = insert p (queued (r, ps)) \<and> class_frame ps ps'"
    and deq: "cok (r, ps) \<Longrightarrow> p \<in> queued (r, ps) \<Longrightarrow>
      \<exists>r' ps'. sc_dequeue sc p (r, ps) = Some (r', ps') \<and> cok (r', ps') \<and>
        queued (r', ps') = queued (r, ps) - {p} \<and> class_frame ps ps'"
    and pick: "cok (r, ps) \<Longrightarrow>
      (case sc_pick_next sc (r, ps) of None \<Rightarrow> queued (r, ps) = {} | Some p \<Rightarrow> p \<in> queued (r, ps))"
    and tick: "cok (r, ps) \<Longrightarrow> p \<notin> queued (r, ps) \<Longrightarrow> sc_proc_tick sc p (r, ps) = (r', ps') \<Longrightarrow>
      cok (r', ps') \<and> queued (r', ps') = queued (r, ps) \<and> (\<forall>q. p_state (ps' q) = p_state (ps q))"
    and core: "cok (r, ps) \<Longrightarrow> core_frame ps ps' \<Longrightarrow> cok (r, ps') \<and> queued (r, ps') = queued (r, ps)"
begin

lemma core_upd:
  assumes "cok (r, ps)" and "p_time_slice pr = p_time_slice (ps p)" and "p_rq pr = p_rq (ps p)"
  shows "cok (r, ps(p := pr))" and "queued (r, ps(p := pr)) = queued (r, ps)"
  using core [OF assms(1), of "ps(p := pr)"] assms(2,3) by (simp_all add: core_frame_def)

lemma enqueue_ok:
  assumes "sched s = sc" and "cok (rq s, procs s)" and "p \<notin> queued (rq s, procs s)" and "p \<noteq> idleproc s"
  shows "\<exists>r ps. sched_class_enqueue p s = Some (s\<lparr>rq := r, procs := ps\<rparr>) \<and> cok (r, ps) \<and>
    queued (r, ps) = insert p (queued (rq s, procs s)) \<and> class_frame (procs s) ps"
proof -
  obtain r ps where e: "sc_enqueue sc p (rq s, procs s) = Some (r, ps)" "cok (r, ps)"
    "queued (r, ps) = insert p (queued (rq s, procs s))" "class_frame (procs s) ps"
    using enq [OF assms(2,3)] by blast
  then have "sched_class_enqueue p s = Some (s\<lparr>rq := r, procs := ps\<rparr>)"
    using assms(1,4) by (simp add: sched_class_enqueue_def)
  then show ?thesis using e(2-4) by blast
qed

lemma wakeup_ok:
  assumes inv: "sched_inv sc cok queued s" and z: "p_state (proc_at s p) \<noteq> PROC_ZOMBIE"
  shows "\<exists>r ps. wakeup_proc p s = Some (s\<lparr>rq := r, procs := ps\<rparr>) \<and> sched_inv sc cok queued (s\<lparr>rq := r, procs := ps\<rparr>) \<and>
    p_state (ps p) = PROC_RUNNABLE \<and> (\<forall>q. q \<noteq> p \<longrightarrow> p_state (ps q) = p_state (proc_at s q)) \<and>
    (\<forall>q. q \<noteq> p \<longrightarrow> p_wait_state (ps q) = p_wait_state (proc_at s q)) \<and>
    (p_state (proc_at s p) \<noteq> PROC_RUNNABLE \<longrightarrow> p_wait_state (ps p) = 0) \<and>
    (p_state (proc_at s p) = PROC_RUNNABLE \<longrightarrow> p_wait_state (ps p) = p_wait_state (proc_at s p))"
proof (cases "p_state (proc_at s p) = PROC_RUNNABLE")
  case True
  then show ?thesis using inv by (intro exI [of _ "rq s"] exI [of _ "procs s"]) (simp add: wakeup_proc_def)
next
  case False
  let ?pr = "(proc_at s p)\<lparr>p_state := PROC_RUNNABLE, p_wait_state := 0\<rparr>"
  let ?ps = "(procs s)(p := ?pr)"
  let ?s1 = "s\<lparr>procs := ?ps\<rparr>"
  have i: "sched s = sc" "cok (rq s, procs s)" "p_state (proc_at s (idleproc s)) = PROC_RUNNABLE"
    "\<And>q. q \<in> queued (rq s, procs s) \<longleftrightarrow> p_state (proc_at s q) = PROC_RUNNABLE \<and> q \<noteq> current s \<and> q \<noteq> idleproc s"
    using inv by (simp_all add: sched_inv_def)
  have ni: "p \<noteq> idleproc s" using False i(3) by auto
  have c: "cok (rq s, ?ps)" "queued (rq s, ?ps) = queued (rq s, procs s)"
    using core_upd [OF i(2), of ?pr p] by simp_all
  show ?thesis
  proof (cases "p = current s")
    case True
    have "wakeup_proc p s = Some ?s1" using False z True by (simp add: wakeup_proc_def)
    moreover have "sched_inv sc cok queued ?s1" using i c True by (auto simp: sched_inv_def)
    ultimately show ?thesis using False by (intro exI [of _ "rq s"] exI [of _ ?ps]) simp
  next
    case nc: False
    have "p \<notin> queued (rq ?s1, procs ?s1)" using c(2) i(4) False by simp
    then obtain r ps where e: "sched_class_enqueue p ?s1 = Some (?s1\<lparr>rq := r, procs := ps\<rparr>)" "cok (r, ps)"
      "queued (r, ps) = insert p (queued (rq s, ?ps))" "class_frame ?ps ps"
      using enqueue_ok [of ?s1 p] i(1) c(1) ni by auto
    note fr = class_frameD [OF e(4)]
    have "wakeup_proc p s = Some (s\<lparr>rq := r, procs := ps\<rparr>)" using False z nc e(1) by (simp add: wakeup_proc_def)
    moreover have "sched_inv sc cok queued (s\<lparr>rq := r, procs := ps\<rparr>)"
      using i e(2,3) c(2) nc ni by (auto simp: sched_inv_def fr(1))
    ultimately show ?thesis using False by (intro exI [of _ r] exI [of _ ps]) (simp add: fr)
  qed
qed

text \<open>The candidates of a scheduling decision.\<close>

abbreviation ready :: "'a kstate_scheme \<Rightarrow> nat set" where
  "ready s \<equiv> {p. p_state (proc_at s p) = PROC_RUNNABLE \<and> p \<noteq> idleproc s}"

lemma schedule_enqueued:
  assumes inv: "sched_inv sc cok queued s"
  defines "s1 \<equiv> upd_proc (current s) (\<lambda>pr. pr\<lparr>p_need_resched := False\<rparr>) s"
  shows "\<exists>r ps. (if p_state (proc_at s1 (current s1)) = PROC_RUNNABLE then sched_class_enqueue (current s1) s1 else Some s1) =
      Some (s1\<lparr>rq := r, procs := ps\<rparr>) \<and> cok (r, ps) \<and> queued (r, ps) = ready s \<and> class_frame (procs s1) ps"
proof -
  let ?ps = "procs s1"
  have i: "sched s = sc" "cok (rq s, procs s)" "p_state (proc_at s (idleproc s)) = PROC_RUNNABLE"
    "\<And>q. q \<in> queued (rq s, procs s) \<longleftrightarrow> p_state (proc_at s q) = PROC_RUNNABLE \<and> q \<noteq> current s \<and> q \<noteq> idleproc s"
    using inv by (simp_all add: sched_inv_def)
  have c: "cok (rq s, ?ps)" "queued (rq s, ?ps) = queued (rq s, procs s)"
    using core_upd [OF i(2), of "(proc_at s (current s))\<lparr>p_need_resched := False\<rparr>" "current s"] by (simp_all add: s1_def)
  have st: "p_state (?ps q) = p_state (proc_at s q)" "current s1 = current s" "idleproc s1 = idleproc s" "rq s1 = rq s"
    "sched s1 = sc" for q
    using i(1) by (simp_all add: s1_def)
  have same: "s1 = s1\<lparr>rq := rq s, procs := ?ps\<rparr>" by (simp add: s1_def)
  show ?thesis
  proof (cases "p_state (proc_at s (current s)) = PROC_RUNNABLE \<and> current s \<noteq> idleproc s")
    case True
    have "current s \<notin> queued (rq s1, procs s1)" using c(2) i(4) st(4) by simp
    then obtain r ps where e: "sched_class_enqueue (current s) s1 = Some (s1\<lparr>rq := r, procs := ps\<rparr>)" "cok (r, ps)"
      "queued (r, ps) = insert (current s) (queued (rq s1, procs s1))" "class_frame (procs s1) ps"
      using enqueue_ok [of s1 "current s"] st True c(1) by auto
    have "queued (r, ps) = ready s" using e(3) c(2) st(4) i(4) True by auto
    then show ?thesis using e True st by auto
  next
    case False
    have "queued (rq s, ?ps) = ready s" using c(2) i(4) False by auto
    moreover have "sched_class_enqueue (current s) s1 = Some s1" if "p_state (proc_at s (current s)) = PROC_RUNNABLE"
      using False that st by (simp add: sched_class_enqueue_def)
    ultimately show ?thesis using c(1) st same
      by (intro exI [of _ "rq s"] exI [of _ ?ps]) (simp add: s1_def)
  qed
qed

lemma schedule_ok:
  assumes inv: "sched_inv sc cok queued s"
  shows "\<exists>s'. schedule s = Some s' \<and> sched_inv sc cok queued s' \<and>
    (\<forall>p. p_state (proc_at s' p) = p_state (proc_at s p)) \<and> idleproc s' = idleproc s \<and>
    (if ready s = {} then current s' = idleproc s else current s' \<in> ready s)"
proof -
  let ?s1 = "upd_proc (current s) (\<lambda>pr. pr\<lparr>p_need_resched := False\<rparr>) s"
  have i: "sched s = sc" "p_state (proc_at s (idleproc s)) = PROC_RUNNABLE" using inv by (simp_all add: sched_inv_def)
  from schedule_enqueued [OF inv] obtain r ps where e:
    "(if p_state (proc_at ?s1 (current ?s1)) = PROC_RUNNABLE then sched_class_enqueue (current ?s1) ?s1 else Some ?s1) =
      Some (?s1\<lparr>rq := r, procs := ps\<rparr>)" "cok (r, ps)" "queued (r, ps) = ready s" "class_frame (procs ?s1) ps" by blast
  let ?s2 = "?s1\<lparr>rq := r, procs := ps\<rparr>"
  have st: "p_state (ps q) = p_state (proc_at s q)" for q using class_frameD(1) [OF e(4), of q] by simp
  have pick2: "sched_class_pick_next ?s2 = sc_pick_next sc (r, ps)" using i(1) by (simp add: sched_class_pick_next_def)
  define next_p where "next_p = (case sc_pick_next sc (r, ps) of None \<Rightarrow> idleproc s | Some n \<Rightarrow> n)"
  have "\<exists>r' ps'. (case sc_pick_next sc (r, ps) of None \<Rightarrow> Some ?s2 | Some n \<Rightarrow> sched_class_dequeue n ?s2) =
      Some (?s2\<lparr>rq := r', procs := ps'\<rparr>) \<and> cok (r', ps') \<and> queued (r', ps') = ready s - {next_p} \<and> class_frame ps ps' \<and>
      (if ready s = {} then next_p = idleproc s else next_p \<in> ready s)"
  proof (cases "sc_pick_next sc (r, ps)")
    case None
    then have "ready s = {}" using pick [OF e(2)] e(3) by simp
    then show ?thesis using None e(2,3) by (intro exI [of _ r] exI [of _ ps]) (simp add: next_p_def)
  next
    case (Some n)
    then have n: "n \<in> ready s" "n \<in> queued (r, ps)" using pick [OF e(2)] e(3) by auto
    from deq [OF e(2) n(2)] obtain r' ps' where d: "sc_dequeue sc n (r, ps) = Some (r', ps')" "cok (r', ps')"
      "queued (r', ps') = queued (r, ps) - {n}" "class_frame ps ps'" by blast
    have "sched_class_dequeue n ?s2 = Some (?s2\<lparr>rq := r', procs := ps'\<rparr>)"
      using d(1) i(1) by (simp add: sched_class_dequeue_def)
    then show ?thesis using Some d(2-4) n(1) e(3) by (intro exI [of _ r'] exI [of _ ps']) (auto simp: next_p_def)
  qed
  then obtain r' ps' where d:
    "(case sc_pick_next sc (r, ps) of None \<Rightarrow> Some ?s2 | Some n \<Rightarrow> sched_class_dequeue n ?s2) = Some (?s2\<lparr>rq := r', procs := ps'\<rparr>)"
    "cok (r', ps')" "queued (r', ps') = ready s - {next_p}" "class_frame ps ps'"
    "if ready s = {} then next_p = idleproc s else next_p \<in> ready s" by blast
  have st': "p_state (ps' q) = p_state (proc_at s q)" for q using class_frameD(1) [OF d(4), of q] st by simp
  let ?pr = "(ps' next_p)\<lparr>p_runs := p_runs (ps' next_p) + 1\<rparr>"
  let ?s4 = "?s2\<lparr>rq := r', procs := ps'(next_p := ?pr)\<rparr>"
  define s' where "s' = (if next_p \<noteq> current s then proc_run next_p ?s4 else ?s4)"
  have c: "cok (r', ps'(next_p := ?pr))" "queued (r', ps'(next_p := ?pr)) = ready s - {next_p}"
    using core_upd [OF d(2), of ?pr next_p] d(3) by simp_all
  have run: "schedule s = Some s'"
    using e(1) d(1) pick2
    by (cases "sc_pick_next sc (r, ps)") (simp_all add: schedule_def next_p_def Let_def s'_def)
  have f: "current s' = next_p" "idleproc s' = idleproc s" "sched s' = sc" "rq s' = r'"
    "procs s' = ps'(next_p := ?pr)" using i(1) by (simp_all add: proc_run_def s'_def)
  have ps: "p_state ((ps'(next_p := ?pr)) q) = p_state (proc_at s q)" for q using st' by simp
  have "q \<in> queued (r', ps'(next_p := ?pr)) \<longleftrightarrow>
      p_state (proc_at s q) = PROC_RUNNABLE \<and> q \<noteq> next_p \<and> q \<noteq> idleproc s" for q
    unfolding c(2) by blast
  then have "sched_inv sc cok queued s'"
    unfolding sched_inv_def f ps using c(1) i(2) by blast
  moreover have "\<forall>p. p_state (proc_at s' p) = p_state (proc_at s p)" using ps f(5) by simp
  moreover have "if ready s = {} then current s' = idleproc s else current s' \<in> ready s"
    unfolding f(1) by (rule d(5))
  ultimately show ?thesis using run f(2) by blast
qed

lemma tick_ok:
  assumes inv: "sched_inv sc cok queued s"
  shows "\<exists>r ps. sched_class_proc_tick (current s) s = s\<lparr>rq := r, procs := ps\<rparr> \<and>
    sched_inv sc cok queued (s\<lparr>rq := r, procs := ps\<rparr>) \<and> (\<forall>q. p_state (ps q) = p_state (proc_at s q))"
proof (cases "current s = idleproc s")
  case True
  let ?ps = "(procs s)(current s := (proc_at s (current s))\<lparr>p_need_resched := True\<rparr>)"
  have "cok (rq s, ?ps)" "queued (rq s, ?ps) = queued (rq s, procs s)"
    using core_upd [of "rq s" "procs s" "(proc_at s (current s))\<lparr>p_need_resched := True\<rparr>" "current s"] inv
    by (simp_all add: sched_inv_def)
  moreover have "p_state (?ps q) = p_state (proc_at s q)" for q by simp
  ultimately have "sched_inv sc cok queued (s\<lparr>rq := rq s, procs := ?ps\<rparr>)"
    using inv by (simp add: sched_inv_def del: fun_upd_apply)
  then show ?thesis using True
    by (intro exI [of _ "rq s"] exI [of _ ?ps]) (simp add: sched_class_proc_tick_def)
next
  case False
  obtain r ps where t: "sc_proc_tick sc (current s) (rq s, procs s) = (r, ps)" by force
  have i: "cok (rq s, procs s)" "current s \<notin> queued (rq s, procs s)" "sched s = sc" using inv by (simp_all add: sched_inv_def)
  from tick [OF i(1,2) t] have o: "cok (r, ps)" "queued (r, ps) = queued (rq s, procs s)" "\<forall>q. p_state (ps q) = p_state (proc_at s q)"
    by simp_all
  then have "sched_inv sc cok queued (s\<lparr>rq := r, procs := ps\<rparr>)" using inv by (simp add: sched_inv_def)
  then show ?thesis using False t i(3) o(3) by (intro exI [of _ r] exI [of _ ps]) (simp add: sched_class_proc_tick_def)
qed

end

section \<open>Round robin keeps the contract\<close>

definition RR_ok :: "run_queue \<times> proc_table \<Rightarrow> bool" where
  "RR_ok = (\<lambda>(r, ps). distinct (run_list r) \<and> proc_num r = length (run_list r) \<and> 0 < max_time_slice r \<and>
     (\<forall>p\<in>set (run_list r). p_rq (ps p) \<and> 0 < p_time_slice (ps p) \<and> p_time_slice (ps p) \<le> max_time_slice r) \<and>
     (\<forall>p. 0 \<le> p_time_slice (ps p)))"

definition RR_queued :: "run_queue \<times> proc_table \<Rightarrow> nat set" where
  "RR_queued = (\<lambda>(r, ps). set (run_list r))"

lemma RR_enqueue_ok:
  assumes "RR_ok (r, ps)" and "p \<notin> set (run_list r)"
  shows "\<exists>r' ps'. RR_enqueue p (r, ps) = Some (r', ps') \<and> RR_ok (r', ps') \<and>
    run_list r' = run_list r @ [p] \<and> class_frame ps ps'"
proof -
  let ?t = "if p_time_slice (ps p) = 0 \<or> p_time_slice (ps p) > max_time_slice r then max_time_slice r else p_time_slice (ps p)"
  let ?ps = "ps(p := (ps p)\<lparr>p_time_slice := ?t, p_rq := True\<rparr>)"
  let ?r = "r\<lparr>run_list := run_list r @ [p], proc_num := proc_num r + 1\<rparr>"
  have run: "RR_enqueue p (r, ps) = Some (?r, ?ps)"
    using assms(2) by (simp add: RR_enqueue_def Let_def)
  have "0 \<le> p_time_slice (ps p)" "0 < max_time_slice r" using assms(1) by (simp_all add: RR_ok_def)
  then have "0 < ?t" "?t \<le> max_time_slice r" by auto
  then have "RR_ok (?r, ?ps)" using assms by (simp add: RR_ok_def)
  then show ?thesis using run by (intro exI [of _ ?r] exI [of _ ?ps]) (simp add: class_frame_def)
qed

lemma RR_dequeue_ok:
  assumes "RR_ok (r, ps)" and "p \<in> set (run_list r)"
  shows "\<exists>r'. RR_dequeue p (r, ps) = Some (r', ps) \<and> RR_ok (r', ps) \<and> run_list r' = remove1 p (run_list r)"
  using assms by (auto simp: RR_dequeue_def RR_ok_def length_remove1 dest: in_set_remove1 [THEN iffD1, rotated] set_remove1_subset [THEN subsetD])

lemma RR_proc_tick_ok:
  assumes ok: "RR_ok (r, ps)" and t: "RR_proc_tick p (r, ps) = (r', ps')" and out: "p \<notin> set (run_list r)"
  shows "RR_ok (r', ps') \<and> r' = r \<and> (\<forall>q. p_state (ps' q) = p_state (ps q))"
  using assms by (auto simp: RR_proc_tick_def RR_ok_def Let_def split: if_splits)

interpretation RR: sched_contract default_sched_class RR_ok RR_queued
proof
  fix r ps p r' ps'
  assume ok: "RR_ok (r, ps)"
  show "p \<notin> RR_queued (r, ps) \<Longrightarrow> \<exists>r' ps'. sc_enqueue default_sched_class p (r, ps) = Some (r', ps') \<and> RR_ok (r', ps') \<and>
      RR_queued (r', ps') = insert p (RR_queued (r, ps)) \<and> class_frame ps ps'"
    using RR_enqueue_ok [OF ok, of p] by (fastforce simp: default_sched_class_def RR_queued_def)
  show "p \<in> RR_queued (r, ps) \<Longrightarrow> \<exists>r' ps'. sc_dequeue default_sched_class p (r, ps) = Some (r', ps') \<and> RR_ok (r', ps') \<and>
      RR_queued (r', ps') = RR_queued (r, ps) - {p} \<and> class_frame ps ps'"
    using RR_dequeue_ok [OF ok, of p] ok by (fastforce simp: default_sched_class_def RR_queued_def RR_ok_def)
  show "case sc_pick_next default_sched_class (r, ps) of None \<Rightarrow> RR_queued (r, ps) = {} | Some p \<Rightarrow> p \<in> RR_queued (r, ps)"
    by (simp add: default_sched_class_def RR_pick_next_def RR_queued_def split: list.split)
  show "p \<notin> RR_queued (r, ps) \<Longrightarrow> sc_proc_tick default_sched_class p (r, ps) = (r', ps') \<Longrightarrow>
      RR_ok (r', ps') \<and> RR_queued (r', ps') = RR_queued (r, ps) \<and> (\<forall>q. p_state (ps' q) = p_state (ps q))"
    using RR_proc_tick_ok [OF ok, of p r' ps'] by (auto simp: default_sched_class_def RR_queued_def)
  show "core_frame ps ps' \<Longrightarrow> RR_ok (r, ps') \<and> RR_queued (r, ps') = RR_queued (r, ps)"
    using ok by (simp add: core_frame_def RR_ok_def RR_queued_def)
qed

abbreviation sched_ok :: "'a kstate_scheme \<Rightarrow> bool" where
  "sched_ok s \<equiv> sched_inv default_sched_class RR_ok RR_queued s"

text \<open>The order of round robin: the running process goes to the back, the front runs next.\<close>

definition rr_order :: "'a kstate_scheme \<Rightarrow> nat list" where
  "rr_order s = run_list (rq s) @
     (if p_state (proc_at s (current s)) = PROC_RUNNABLE \<and> current s \<noteq> idleproc s then [current s] else [])"

lemma RR_schedule_order:
  assumes inv: "sched_ok s" and run: "schedule s = Some s'"
  shows "(case rr_order s of [] \<Rightarrow> current s' = idleproc s \<and> run_list (rq s') = []
    | p # ps \<Rightarrow> current s' = p \<and> run_list (rq s') = ps)"
proof -
  have i: "sched s = default_sched_class" using inv by (simp add: sched_inv_def)
  show ?thesis
    using run i
    by (cases "run_list (rq s)")
      (auto simp: schedule_def sched_class_enqueue_def sched_class_dequeue_def sched_class_pick_next_def
        default_sched_class_def RR_enqueue_def RR_dequeue_def RR_pick_next_def rr_order_def Let_def proc_run_def
        split: if_splits)
qed

fun schedule_n :: "nat \<Rightarrow> 'a kstate_scheme \<Rightarrow> 'a kstate_scheme option" where
  "schedule_n 0 s = Some s"
| "schedule_n (Suc n) s = do { s1 \<leftarrow> schedule s; schedule_n n s1 }"

lemma schedule_n_order:
  assumes "sched_ok s" and "i < length (run_list (rq s))"
  shows "\<exists>s'. schedule_n (Suc i) s = Some s' \<and> current s' = run_list (rq s) ! i"
  using assms
proof (induction i arbitrary: s)
  case 0
  then obtain s' where s': "schedule s = Some s'" using RR.schedule_ok by blast
  from RR_schedule_order [OF 0(1) this] 0(2) s' show ?case
    by (cases "run_list (rq s)") (auto simp: rr_order_def)
next
  case (Suc i)
  then obtain s1 where s1: "schedule s = Some s1" "sched_ok s1" using RR.schedule_ok by blast
  obtain p ps where r: "run_list (rq s) = p # ps" using Suc.prems(2) by (cases "run_list (rq s)") auto
  have "\<exists>t. run_list (rq s1) = ps @ t" using RR_schedule_order [OF Suc.prems(1) s1(1)] by (auto simp: rr_order_def r)
  then obtain t where t: "run_list (rq s1) = ps @ t" by blast
  have "i < length ps" using Suc.prems(2) r by simp
  then obtain s' where s': "schedule_n (Suc i) s1 = Some s'" "current s' = (ps @ t) ! i"
    using Suc.IH [OF s1(2)] t by (metis length_append trans_less_add1)
  have "schedule_n (Suc (Suc i)) s = Some s'" using s1(1) s'(1) by (simp only: schedule_n.simps(2) [of "Suc i" s]) simp
  then show ?case using s'(2) r \<open>i < length ps\<close> by (simp add: nth_append del: schedule_n.simps)
qed

text \<open>A state with three runnable processes 1, 2, 3 and the idle process 0; process 1 runs.\<close>

definition proc_nil :: proc_struct where
  "proc_nil = \<lparr>p_state = PROC_UNINIT, p_pid = -1, p_runs = 0, p_kstack = None, p_need_resched = False, p_parent = None,
     p_mm = None, p_context = \<lparr>ctx_eip = 0, ctx_esp = 0, ctx_ebx = 0, ctx_ecx = 0, ctx_edx = 0, ctx_esi = 0, ctx_edi = 0, ctx_ebp = 0\<rparr>,
     p_tf = None, p_cr3 = 0, p_flags = 0, p_name = [], p_exit_code = 0, p_wait_state = 0, p_cptr = None, p_yptr = None,
     p_optr = None, p_rq = False, p_time_slice = 0, p_priority = 0, p_filesp = None\<rparr>"

definition ks_three :: kstate where
  "ks_three = \<lparr>procs = (\<lambda>p. if p < 4 then proc_nil\<lparr>p_state := PROC_RUNNABLE, p_pid := int p, p_time_slice := 5, p_rq := True\<rparr> else proc_nil),
     current = 1, idleproc = 0, rq = \<lparr>run_list = [2, 3], proc_num = 2, max_time_slice = 5\<rparr>, sched = default_sched_class,
     timers = (\<lambda>t. \<lparr>tm_expires = t, tm_proc = Some t\<rparr>), timer_list = [], cpu_cr3 = 0\<rparr>"

lemma ks_three_ok: "sched_ok ks_three"
  by (auto simp: sched_inv_def ks_three_def proc_nil_def RR_ok_def RR_queued_def)

text \<open>
  C12: \<open>schedule()\<close> always returns; it changes the state of no process, keeps exactly the runnable
  processes other than the idle and the running one in the run queue, and switches to a runnable
  process, to the idle process only if nothing else is runnable.
\<close>

theorem schedule_keeps_runnable:
  assumes "sched_ok s"
  shows "\<exists>s'. schedule s = Some s' \<and> sched_ok s' \<and> (\<forall>p. p_state (proc_at s' p) = p_state (proc_at s p)) \<and>
    (if \<exists>p. p_state (proc_at s p) = PROC_RUNNABLE \<and> p \<noteq> idleproc s
     then p_state (proc_at s' (current s')) = PROC_RUNNABLE \<and> current s' \<noteq> idleproc s else current s' = idleproc s)"
proof -
  obtain s' where "schedule s = Some s'" "sched_ok s'" "\<forall>p. p_state (proc_at s' p) = p_state (proc_at s p)"
    "if RR.ready s = {} then current s' = idleproc s else current s' \<in> RR.ready s"
    using RR.schedule_ok [OF assms] by blast
  then show ?thesis by (intro exI [of _ s']) (auto split: if_splits)
qed

theorem schedule_keeps_runnable_witness:
  "\<exists>s'. schedule ks_three = Some s' \<and> sched_ok s' \<and> p_state (proc_at s' (current s')) = PROC_RUNNABLE \<and> current s' \<noteq> 0"
proof -
  have "\<exists>p. p_state (proc_at ks_three p) = PROC_RUNNABLE \<and> p \<noteq> idleproc ks_three" "idleproc ks_three = 0"
    by (auto simp: ks_three_def intro!: exI [of _ 2])
  then show ?thesis using schedule_keeps_runnable [OF ks_three_ok] by auto
qed

text \<open>
  C13: round robin is starvation free: the process at position \<open>i\<close> of the run queue is running
  after exactly \<open>i + 1\<close> scheduling decisions, whatever the processes before it do with their turns.
\<close>

theorem round_robin_fair:
  assumes "sched_ok s" and "i < length (run_list (rq s))"
  shows "\<exists>s'. schedule_n (i + 1) s = Some s' \<and> current s' = run_list (rq s) ! i"
  using schedule_n_order [OF assms] by simp

theorem round_robin_fair_witness:
  "\<exists>s'. schedule_n 2 ks_three = Some s' \<and> current s' = 3"
proof -
  have "1 < length (run_list (rq ks_three))" "run_list (rq ks_three) ! 1 = 3" by (simp_all add: ks_three_def)
  from round_robin_fair [OF ks_three_ok this(1)] this(2) show ?thesis by (simp add: numeral_2_eq_2)
qed

lemma RR_ticks:
  assumes "int n \<le> p_time_slice (ps p)" and "\<not> p_need_resched (ps p)"
  shows "p_time_slice (snd ((RR_proc_tick p ^^ n) (r, ps)) p) = p_time_slice (ps p) - int n \<and>
    (p_need_resched (snd ((RR_proc_tick p ^^ n) (r, ps)) p) \<longleftrightarrow> 0 < n \<and> int n = p_time_slice (ps p))"
  using assms(1)
proof (induction n)
  case (Suc n)
  obtain r' ps' where x: "(RR_proc_tick p ^^ n) (r, ps) = (r', ps')" by (cases "(RR_proc_tick p ^^ n) (r, ps)")
  have "p_time_slice (ps' p) = p_time_slice (ps p) - int n" "\<not> p_need_resched (ps' p)"
    using Suc x by auto
  then show ?case using Suc.prems x by (auto simp: RR_proc_tick_def Let_def)
qed (use assms(2) in simp)

text \<open>
  C14: the quantum: a process put on the run queue by \<open>RR_enqueue\<close> has a time slice between 1 and the
  maximum, and it is marked for rescheduling by that many clock ticks and by no fewer.
\<close>

theorem RR_quantum:
  assumes "RR_ok (r, ps)" and "RR_enqueue p (r, ps) = Some (r', ps')" and "\<not> p_need_resched (ps p)"
  shows "1 \<le> p_time_slice (ps' p) \<and> p_time_slice (ps' p) \<le> max_time_slice r \<and>
    (\<forall>n. int n \<le> p_time_slice (ps' p) \<longrightarrow>
      (p_need_resched (snd ((RR_proc_tick p ^^ n) (r', ps')) p) \<longleftrightarrow> int n = p_time_slice (ps' p)))"
proof -
  have "p \<notin> set (run_list r)" using assms(2) by (simp add: RR_enqueue_def Let_def)
  from RR_enqueue_ok [OF assms(1) this] assms(2)
  have e: "RR_ok (r', ps')" "run_list r' = run_list r @ [p]" "class_frame ps ps'" by auto
  have "max_time_slice r' = max_time_slice r" using assms(2) by (auto simp: RR_enqueue_def Let_def)
  then have b: "1 \<le> p_time_slice (ps' p)" "p_time_slice (ps' p) \<le> max_time_slice r" using e(1,2) by (auto simp: RR_ok_def)
  have "p_need_resched (snd ((RR_proc_tick p ^^ n) (r', ps')) p) \<longleftrightarrow> int n = p_time_slice (ps' p)"
    if "int n \<le> p_time_slice (ps' p)" for n
    using RR_ticks [of n ps' p r'] that assms(3) class_frameD(6) [OF e(3)] b by auto
  then show ?thesis using b by blast
qed

theorem RR_quantum_witness:
  "\<exists>r' ps'. RR_enqueue 1 (rq ks_three, procs ks_three) = Some (r', ps') \<and> 1 \<le> p_time_slice (ps' 1) \<and>
     p_time_slice (ps' 1) \<le> 5 \<and> p_need_resched (snd ((RR_proc_tick 1 ^^ 5) (r', ps')) 1)"
proof -
  have ok: "RR_ok (rq ks_three, procs ks_three)" using ks_three_ok by (simp add: sched_inv_def)
  have n: "\<not> p_need_resched (procs ks_three 1)" by (simp add: ks_three_def proc_nil_def)
  obtain r' ps' where e: "RR_enqueue 1 (rq ks_three, procs ks_three) = Some (r', ps')" "p_time_slice (ps' 1) = 5"
    by (simp add: ks_three_def RR_enqueue_def proc_nil_def Let_def)
  have "max_time_slice (rq ks_three) = 5" by (simp add: ks_three_def)
  then show ?thesis using e RR_quantum [OF ok e(1) n] by auto
qed

section \<open>Timers\<close>

text \<open>
  The list keeps for each timer the difference to the one before it; \<open>abs_times\<close> is the time from now
  at which each timer expires.
\<close>

fun abs_from :: "nat \<Rightarrow> 'a kstate_scheme \<Rightarrow> nat list \<Rightarrow> (nat \<times> nat) list" where
  "abs_from n s [] = []"
| "abs_from n s (t # ts) = (t, n + expires_of s t) # abs_from (n + expires_of s t) s ts"

abbreviation abs_times :: "'a kstate_scheme \<Rightarrow> (nat \<times> nat) list" where
  "abs_times s \<equiv> abs_from 0 s (timer_list s)"

text \<open>The specification of an insertion: behind every timer that does not expire later.\<close>

fun insert_timer :: "nat \<times> nat \<Rightarrow> (nat \<times> nat) list \<Rightarrow> (nat \<times> nat) list" where
  "insert_timer x [] = [x]"
| "insert_timer x (y # ys) = (if snd x < snd y then x # y # ys else y # insert_timer x ys)"

lemma map_fst_abs_from [simp]: "map fst (abs_from n s ts) = ts"
  by (induction ts arbitrary: n) auto

lemma abs_from_cong: "(\<And>t. t \<in> set ts \<Longrightarrow> expires_of s t = expires_of s' t) \<Longrightarrow> abs_from n s ts = abs_from n s' ts"
  by (induction ts arbitrary: n) auto

lemma abs_from_ge: "x \<in> set (abs_from n s ts) \<Longrightarrow> n \<le> snd x"
  by (induction ts arbitrary: n) (auto, force)

lemma abs_from_sorted: "sorted (map snd (abs_from n s ts))"
  by (induction ts arbitrary: n) (auto dest: abs_from_ge)

lemma add_timer_pos_ok:
  assumes "add_timer_pos t ts s = (le, s')" and "t \<notin> set ts" and "distinct ts"
  shows "abs_from n s' (case le of None \<Rightarrow> ts @ [t] | Some x \<Rightarrow> ins_before x t ts) =
      insert_timer (t, n + expires_of s t) (abs_from n s ts) \<and>
    (\<exists>tm. s' = s\<lparr>timers := tm\<rparr> \<and> (\<forall>u. tm_proc (tm u) = tm_proc (timers s u)) \<and>
       (\<forall>u. u \<notin> insert t (set ts) \<longrightarrow> tm u = timers s u)) \<and> (case le of None \<Rightarrow> True | Some x \<Rightarrow> x \<in> set ts)"
  using assms
proof (induction t ts s arbitrary: n rule: add_timer_pos.induct)
  case (1 t s)
  then show ?case by (auto intro: exI [of _ "timers s"])
next
  case (2 t nx ts s)
  show ?case
  proof (cases "expires_of s t < expires_of s nx")
    case True
    let ?s = "upd_expires nx (expires_of s nx - expires_of s t) s"
    have s': "le = Some nx" "s' = ?s" using 2(2) True by auto
    have "t \<noteq> nx" using 2(3) by simp
    moreover have "abs_from m s' ts = abs_from m s ts" for m using 2(4) s'(2) by (intro abs_from_cong) auto
    ultimately show ?thesis using True s' by (auto intro!: exI [of _ "timers ?s"])
  next
    case False
    let ?s = "upd_expires t (expires_of s t - expires_of s nx) s"
    have r: "add_timer_pos t ts ?s = (le, s')" "t \<notin> set ts" "distinct ts" "t \<noteq> nx" using 2(2-4) False by auto
    note ih = 2(1) [OF False r(1-3), of "n + expires_of s nx"]
    then obtain tm where tm: "s' = ?s\<lparr>timers := tm\<rparr>" "\<forall>u. tm_proc (tm u) = tm_proc (timers ?s u)"
      "\<forall>u. u \<notin> insert t (set ts) \<longrightarrow> tm u = timers ?s u" by blast
    have e: "expires_of s' nx = expires_of s nx" using tm r(4) 2(4) by simp
    have a: "abs_from m ?s ts = abs_from m s ts" for m using r(2) by (intro abs_from_cong) auto
    have le: "case le of None \<Rightarrow> True | Some x \<Rightarrow> x \<in> set ts \<and> x \<noteq> nx" using ih 2(4) by (auto split: option.splits)
    have "abs_from n s' (case le of None \<Rightarrow> (nx # ts) @ [t] | Some x \<Rightarrow> ins_before x t (nx # ts)) =
        (nx, n + expires_of s nx) # insert_timer (t, n + expires_of s t) (abs_from (n + expires_of s nx) s ts)"
      using ih le False e a by (auto split: option.splits)
    moreover have "\<exists>tm. s' = s\<lparr>timers := tm\<rparr> \<and> (\<forall>u. tm_proc (tm u) = tm_proc (timers s u)) \<and>
       (\<forall>u. u \<notin> insert t (set (nx # ts)) \<longrightarrow> tm u = timers s u)"
      using tm by (intro exI [of _ tm]) simp
    ultimately show ?thesis using False le by (auto split: option.splits)
  qed
qed

text \<open>
  C15: \<open>add_timer\<close> on a timer that is not pending returns, and in terms of absolute expiry times it
  inserts the timer behind every timer that expires no later, leaving all others as they are; the
  list of absolute times is sorted. (The code keeps differences.)
\<close>

theorem add_timer_refines:
  assumes "distinct (timer_list s)" and "t \<notin> set (timer_list s)" and "0 < expires_of s t" and "tm_proc (timers s t) \<noteq> None"
  shows "\<exists>s'. add_timer t s = Some s' \<and> abs_times s' = insert_timer (t, expires_of s t) (abs_times s) \<and>
    sorted (map snd (abs_times s')) \<and> procs s' = procs s \<and> rq s' = rq s"
proof -
  obtain le s1 where p: "add_timer_pos t (timer_list s) s = (le, s1)" by force
  from add_timer_pos_ok [OF this assms(2,1), of 0] obtain tm where
    o: "abs_from 0 s1 (case le of None \<Rightarrow> timer_list s @ [t] | Some x \<Rightarrow> ins_before x t (timer_list s)) =
      insert_timer (t, expires_of s t) (abs_times s)" "s1 = s\<lparr>timers := tm\<rparr>" by auto
  let ?s = "s1\<lparr>timer_list := (case le of None \<Rightarrow> timer_list s1 @ [t] | Some n \<Rightarrow> ins_before n t (timer_list s1))\<rparr>"
  have tl: "timer_list s1 = timer_list s" using o(2) by simp
  have "add_timer t s = Some ?s" using assms p by (simp add: add_timer_def)
  moreover have "abs_times ?s = insert_timer (t, expires_of s t) (abs_times s)"
    using o(1) abs_from_cong [of "timer_list ?s" ?s s1] tl by (cases le) simp_all
  moreover have "sorted (map snd (abs_times ?s))" by (rule abs_from_sorted)
  moreover have "procs ?s = procs s" "rq ?s = rq s" using o(2) by simp_all
  ultimately show ?thesis by blast
qed

theorem add_timer_refines_witness:
  "\<exists>s'. add_timer 2 (ks_three\<lparr>timer_list := [1, 3]\<rparr>) = Some s' \<and> abs_times s' = [(1, 1), (2, 2), (3, 4)]"
proof -
  have "abs_times (ks_three\<lparr>timer_list := [1, 3]\<rparr>) = [(1, 1), (3, 4)]" by (simp add: ks_three_def)
  then show ?thesis using add_timer_refines [of "ks_three\<lparr>timer_list := [1, 3]\<rparr>" 2] by (auto simp: ks_three_def)
qed

lemma succ_of_in: "succ_of t ts = Some u \<Longrightarrow> u \<in> set ts"
  by (induction ts) (auto split: if_splits list.splits)

lemma del_timer_list: "timer_list (del_timer t s) = remove1 t (timer_list s)"
  by (auto simp: del_timer_def Let_def remove1_idem split: option.split)

lemma abs_from_del:
  assumes "t \<in> set ts" and "distinct ts"
    and "s' = (case succ_of t ts of None \<Rightarrow> s | Some u \<Rightarrow> upd_expires u (expires_of s u + expires_of s t) s)"
  shows "abs_from n s' (remove1 t ts) = filter (\<lambda>x. fst x \<noteq> t) (abs_from n s ts)"
  using assms
proof (induction ts arbitrary: n)
  case (Cons a ts)
  have keep: "filter (\<lambda>x. fst x \<noteq> t) (abs_from m s us) = abs_from m s us" if "t \<notin> set us" for m us
    using that by (induction us arbitrary: m) auto
  show ?case
  proof (cases "a = t")
    case True
    then show ?thesis using Cons.prems keep
      by (cases ts) (auto intro!: abs_from_cong simp: ac_simps)
  next
    case False
    have "expires_of s' a = expires_of s a"
      using Cons.prems False by (auto split: option.split dest: succ_of_in)
    then show ?thesis using Cons False by simp
  qed
qed simp

text \<open>
  C16: \<open>del_timer\<close> removes exactly the given timer: the absolute expiry times of all the others, and
  their order, are unchanged.
\<close>

theorem del_timer_refines:
  assumes "distinct (timer_list s)"
  shows "abs_times (del_timer t s) = filter (\<lambda>x. fst x \<noteq> t) (abs_times s) \<and> procs (del_timer t s) = procs s"
proof (cases "t \<in> set (timer_list s)")
  case True
  let ?s = "case succ_of t (timer_list s) of None \<Rightarrow> s | Some u \<Rightarrow> upd_expires u (expires_of s u + expires_of s t) s"
  have "expires_of (del_timer t s) = expires_of ?s"
    using True by (auto simp: del_timer_def Let_def split: option.split)
  then have "abs_times (del_timer t s) = abs_from 0 ?s (remove1 t (timer_list s))"
    unfolding del_timer_list by (intro abs_from_cong) (simp add: fun_eq_iff)
  moreover have "procs (del_timer t s) = procs s" by (simp add: del_timer_def Let_def split: option.split)
  ultimately show ?thesis using abs_from_del [OF True assms refl] by simp
next
  case False
  then have "filter (\<lambda>x. fst x \<noteq> t) (abs_times s) = abs_times s"
    by (metis (mono_tags, lifting) filter_True imageI map_fst_abs_from set_map)
  then show ?thesis using False by (simp add: del_timer_def)
qed

theorem del_timer_refines_witness:
  "abs_times (del_timer 1 (ks_three\<lparr>timer_list := [1, 3]\<rparr>)) = [(3, 4)]"
  using del_timer_refines [of "ks_three\<lparr>timer_list := [1, 3]\<rparr>" 1] by (simp add: ks_three_def)

text \<open>
  What holds of the pending timers between two clock ticks: each belongs to a process that exists and
  may be woken, and none is overdue.
\<close>

definition wakeable :: "proc_struct \<Rightarrow> bool" where
  "wakeable pr \<longleftrightarrow> p_state pr \<noteq> PROC_ZOMBIE \<and> (p_wait_state pr \<noteq> 0 \<longrightarrow> p_wait_state pr AND WT_INTERRUPTED \<noteq> 0)"

definition timers_ok :: "'a kstate_scheme \<Rightarrow> bool" where
  "timers_ok s \<longleftrightarrow> distinct (timer_list s) \<and>
     (\<forall>t\<in>set (timer_list s). case tm_proc (timers s t) of None \<Rightarrow> False | Some p \<Rightarrow> wakeable (proc_at s p))"

lemma timers_ok_cong:
  assumes "timers_ok s" and "timer_list s' = timer_list s" and "procs s' = procs s"
    and "\<And>t. tm_proc (timers s' t) = tm_proc (timers s t)"
  shows "timers_ok s'"
  using assms(1) unfolding timers_ok_def assms(2-4) by simp

lemma run_expired_ok:
  assumes "sched_ok s" and "timers_ok s" and "timer_list s = ts"
  shows "\<exists>r ps. run_expired ts s = Some (s\<lparr>rq := r, procs := ps, timer_list := dropWhile (\<lambda>t. expires_of s t = 0) ts\<rparr>) \<and>
    sched_ok (s\<lparr>rq := r, procs := ps\<rparr>) \<and>
    (\<forall>q. p_state (ps q) = (if \<exists>t\<in>set (takeWhile (\<lambda>t. expires_of s t = 0) ts). tm_proc (timers s t) = Some q
                            then PROC_RUNNABLE else p_state (proc_at s q)))"
  using assms
proof (induction ts arbitrary: s)
  case Nil
  then show ?case by (intro exI [of _ "rq s"] exI [of _ "procs s"]) simp
next
  case (Cons t ts)
  show ?case
  proof (cases "expires_of s t = 0")
    case False
    then show ?thesis using Cons.prems by (intro exI [of _ "rq s"] exI [of _ "procs s"]) simp
  next
    case True
    obtain p where p: "tm_proc (timers s t) = Some p" "p_state (proc_at s p) \<noteq> PROC_ZOMBIE" "wakeable (proc_at s p)"
      using Cons.prems by (auto simp: timers_ok_def wakeable_def split: option.splits)
    from RR.wakeup_ok [OF Cons.prems(1) p(2)] obtain r ps where w: "wakeup_proc p s = Some (s\<lparr>rq := r, procs := ps\<rparr>)"
      "sched_ok (s\<lparr>rq := r, procs := ps\<rparr>)" "p_state (ps p) = PROC_RUNNABLE"
      "\<And>q. q \<noteq> p \<Longrightarrow> p_state (ps q) = p_state (proc_at s q)"
      "\<And>q. q \<noteq> p \<Longrightarrow> p_wait_state (ps q) = p_wait_state (proc_at s q)"
      "p_wait_state (ps p) = 0 \<or> p_wait_state (ps p) = p_wait_state (proc_at s p)" by blast
    let ?s = "s\<lparr>rq := r, procs := ps, timer_list := ts\<rparr>"
    have d: "del_timer t (s\<lparr>rq := r, procs := ps\<rparr>) = ?s" using True Cons.prems(3) by (simp add: del_timer_def)
    have so: "sched_ok ?s" using w(2) by (simp add: sched_inv_def)
    have "wakeable (ps q)" if "wakeable (proc_at s q)" for q
      using that w(3-6) by (cases "q = p") (auto simp: wakeable_def)
    then have to: "timers_ok ?s" using Cons.prems(2,3) by (auto simp: timers_ok_def split: option.splits)
    from Cons.IH [OF so to] obtain r' ps' where o:
      "run_expired ts ?s = Some (?s\<lparr>rq := r', procs := ps', timer_list := dropWhile (\<lambda>t. expires_of s t = 0) ts\<rparr>)"
      "sched_ok (?s\<lparr>rq := r', procs := ps'\<rparr>)"
      "\<And>q. p_state (ps' q) = (if \<exists>t\<in>set (takeWhile (\<lambda>t. expires_of s t = 0) ts). tm_proc (timers s t) = Some q
                            then PROC_RUNNABLE else p_state (ps q))" by auto
    have "run_expired (t # ts) s = run_expired ts ?s" using True p w(1) d by (simp add: wakeable_def)
    moreover have "sched_ok (s\<lparr>rq := r', procs := ps'\<rparr>)" using o(2) by (simp add: sched_inv_def)
    moreover have "p_state (ps' q) = (if \<exists>u\<in>set (takeWhile (\<lambda>t. expires_of s t = 0) (t # ts)). tm_proc (timers s u) = Some q
                            then PROC_RUNNABLE else p_state (proc_at s q))" for q
      using o(3) w(3,4) p(1) True by (cases "q = p") auto
    ultimately show ?thesis using o(1) True by (intro exI [of _ r'] exI [of _ ps']) simp
  qed
qed

lemma abs_from_drop:
  "abs_from 0 s (dropWhile (\<lambda>t. expires_of s t = 0) ts) = filter (\<lambda>x. 0 < snd x) (abs_from 0 s ts)"
  "t \<in> set (takeWhile (\<lambda>t. expires_of s t = 0) ts) \<longleftrightarrow> (t, 0) \<in> set (abs_from 0 s ts)"
proof (induction ts)
  case (Cons a ts)
  {
    case 1
    have "filter (\<lambda>x. 0 < snd x) (abs_from n s ts) = abs_from n s ts" if "0 < n" for n
      using that by (auto simp: filter_id_conv dest: abs_from_ge)
    then show ?case using Cons by simp
  next
    case 2
    have "(t, 0) \<notin> set (abs_from n s ts)" if "0 < n" for n using abs_from_ge [of "(t, 0)" n s ts] that by auto
    then show ?case using Cons by (cases "expires_of s a = 0") auto
  }
qed simp_all

lemma abs_from_tick: "0 < n \<Longrightarrow> abs_from (n - 1) s ts = map (apsnd (\<lambda>e. e - 1)) (abs_from n s ts)"
proof (induction ts arbitrary: n)
  case (Cons a ts)
  have "n - 1 + expires_of s a = n + expires_of s a - 1" using Cons.prems by simp
  then show ?case using Cons.IH [of "n + expires_of s a"] Cons.prems by simp
qed simp

text \<open>
  C17: a clock tick, \<open>run_timer_list\<close>, returns when no timer is overdue; it brings every timer one tick
  nearer, removes exactly those that expire, makes their processes runnable, and changes the state of no
  other process; the scheduler bookkeeping stays intact.
\<close>

theorem run_timer_list_refines:
  assumes "sched_ok s" and "timers_ok s" and "\<forall>x\<in>set (abs_times s). 0 < snd x"
  shows "\<exists>s'. run_timer_list s = Some s' \<and> sched_ok s' \<and>
    abs_times s' = filter (\<lambda>x. 0 < snd x) (map (apsnd (\<lambda>e. e - 1)) (abs_times s)) \<and>
    (\<forall>q. p_state (proc_at s' q) = (if \<exists>t. (t, 1) \<in> set (abs_times s) \<and> tm_proc (timers s t) = Some q
                                     then PROC_RUNNABLE else p_state (proc_at s q)))"
proof -
  define s0 where "s0 = (case timer_list s of [] \<Rightarrow> s | t # _ \<Rightarrow> upd_expires t (expires_of s t - 1) s)"
  have f: "timer_list s0 = timer_list s" "procs s0 = procs s" "\<And>t. tm_proc (timers s0 t) = tm_proc (timers s t)"
    by (simp_all add: s0_def split: list.split)
  have ok: "sched_ok s0" using assms(1) by (simp add: sched_inv_def s0_def split: list.split)
  have tok: "timers_ok s0" using assms(2) f by (rule timers_ok_cong)
  have abs0: "abs_times s0 = map (apsnd (\<lambda>e. e - 1)) (abs_times s)"
  proof (cases "timer_list s")
    case (Cons t ts)
    have "0 < expires_of s t" "distinct (t # ts)" using assms(2,3) Cons by (auto simp: timers_ok_def)
    moreover from this have "abs_from m s0 ts = abs_from m s ts" for m
      by (intro abs_from_cong) (auto simp: s0_def Cons)
    ultimately show ?thesis using abs_from_tick [of "expires_of s t" s ts] Cons by (simp add: s0_def)
  qed (simp add: s0_def)
  have run: "run_timer_list s = do { s1 \<leftarrow> run_expired (timer_list s0) s0; Some (sched_class_proc_tick (current s1) s1) }"
    using assms(3) by (cases "timer_list s") (simp_all add: run_timer_list_def s0_def)
  from run_expired_ok [OF ok tok refl] obtain r ps where
    e: "run_expired (timer_list s0) s0 = Some (s0\<lparr>rq := r, procs := ps, timer_list := dropWhile (\<lambda>t. expires_of s0 t = 0) (timer_list s0)\<rparr>)"
    "sched_ok (s0\<lparr>rq := r, procs := ps\<rparr>)"
    "\<And>q. p_state (ps q) = (if \<exists>t\<in>set (takeWhile (\<lambda>t. expires_of s0 t = 0) (timer_list s0)). tm_proc (timers s0 t) = Some q
                            then PROC_RUNNABLE else p_state (proc_at s0 q))" by blast
  define s1 where "s1 = s0\<lparr>rq := r, procs := ps, timer_list := dropWhile (\<lambda>t. expires_of s0 t = 0) (timer_list s0)\<rparr>"
  have "sched_ok s1" using e(2) by (simp add: s1_def sched_inv_def)
  from RR.tick_ok [OF this] obtain r' ps' where t: "sched_class_proc_tick (current s1) s1 = s1\<lparr>rq := r', procs := ps'\<rparr>"
    "sched_ok (s1\<lparr>rq := r', procs := ps'\<rparr>)" "\<And>q. p_state (ps' q) = p_state (proc_at s1 q)" by blast
  with run have "run_timer_list s = Some (s1\<lparr>rq := r', procs := ps'\<rparr>)" using e(1) unfolding s1_def [symmetric] by simp
  moreover have "abs_times (s1\<lparr>rq := r', procs := ps'\<rparr>) = filter (\<lambda>x. 0 < snd x) (abs_times s0)"
    using abs_from_drop(1) [of s0 "timer_list s0"] abs_from_cong [of _ s1 s0] abs_from_cong [of _ "s1\<lparr>rq := r', procs := ps'\<rparr>" s0]
    by (simp add: s1_def)
  moreover have "(t, 0) \<in> set (abs_times s0) \<longleftrightarrow> (t, 1) \<in> set (abs_times s)" for t
  proof
    assume "(t, 0) \<in> set (abs_times s0)"
    then obtain x where x: "x \<in> set (abs_times s)" "fst x = t" "snd x - 1 = 0" unfolding abs0 by (auto simp: apsnd_def map_prod_def)
    moreover from this have "0 < snd x" using assms(3) by blast
    ultimately have "x = (t, 1)" by (simp add: prod_eq_iff)
    then show "(t, 1) \<in> set (abs_times s)" using x(1) by simp
  qed (force simp: abs0 image_iff)
  then have "p_state (ps' q) = (if \<exists>t. (t, 1) \<in> set (abs_times s) \<and> tm_proc (timers s t) = Some q
                                     then PROC_RUNNABLE else p_state (proc_at s q))" for q
    unfolding t(3) using e(3) [of q] abs_from_drop(2) [of _ s0 "timer_list s0"] f(2,3) by (auto simp: s1_def)
  ultimately show ?thesis using t(2) abs0 by (intro exI [of _ "s1\<lparr>rq := r', procs := ps'\<rparr>"]) simp
qed

definition ks_timers :: kstate where
  "ks_timers = ks_three\<lparr>procs := (procs ks_three)(4 := proc_nil\<lparr>p_state := PROC_SLEEPING, p_wait_state := WT_TIMER\<rparr>),
     timer_list := [7, 8], timers := (\<lambda>t. \<lparr>tm_expires = 1, tm_proc = Some 4\<rparr>)\<rparr>"

theorem run_timer_list_refines_witness:
  "\<exists>s'. run_timer_list ks_timers = Some s' \<and> abs_times s' = [(8, 1)] \<and> p_state (proc_at s' 4) = PROC_RUNNABLE"
proof -
  have "sched_ok ks_timers" using ks_three_ok
    by (auto simp: sched_inv_def ks_timers_def ks_three_def RR_ok_def RR_queued_def proc_nil_def)
  moreover have "timers_ok ks_timers"
    by (simp add: timers_ok_def ks_timers_def wakeable_def WT_TIMER_def WT_INTERRUPTED_def)
  moreover have a: "abs_times ks_timers = [(7, 1), (8, 2)]" by (simp add: ks_timers_def)
  ultimately show ?thesis using run_timer_list_refines [of ks_timers] by (auto simp: ks_timers_def)
qed

end
