(* ===== verification/Sync.thy ===== *)
theory Sync
  imports Sched
begin

text \<open>
  Wait queues and semaphores, src/ucore_os/kern/sync/wait.c, wait.h and sem.c.

  A wait queue is the list of its entries; the link of an entry is empty iff it is in no queue, which
  the flag \<open>w_linked\<close> keeps. A semaphore and its wait queue have the same number. \<open>__down\<close> gives the
  processor away in the middle, so it is two operations: \<open>down_enter\<close> up to the call of \<open>schedule\<close>, and
  \<open>down_resume\<close>, which the process executes when it runs again.

  The semaphore operations are shown to implement the abstract semaphore \<open>a_up\<close>, \<open>a_down\<close>: a counter
  and a first-come queue of processes, with the resource handed over directly.
\<close>

section \<open>Wait queues\<close>

record wait =
  w_proc :: "nat option"
  w_flags :: u32
  w_queue :: nat
  w_linked :: bool

record sync_state = kstate +
  waits :: "nat \<Rightarrow> wait"
  queues :: "nat \<Rightarrow> nat list"
  sem_value :: "nat \<Rightarrow> int"

abbreviation upd_wait :: "nat \<Rightarrow> (wait \<Rightarrow> wait) \<Rightarrow> 'a sync_state_scheme \<Rightarrow> 'a sync_state_scheme" where
  "upd_wait w f s \<equiv> s\<lparr>waits := (waits s)(w := f (waits s w))\<rparr>"

abbreviation set_queue :: "nat \<Rightarrow> nat list \<Rightarrow> 'a sync_state_scheme \<Rightarrow> 'a sync_state_scheme" where
  "set_queue q xs s \<equiv> s\<lparr>queues := (queues s)(q := xs)\<rparr>"

definition wait_init :: "nat \<Rightarrow> nat option \<Rightarrow> 'a sync_state_scheme \<Rightarrow> 'a sync_state_scheme" where
  "wait_init w p s = upd_wait w (\<lambda>wt. wt\<lparr>w_proc := p, w_flags := WT_INTERRUPTED, w_linked := False\<rparr>) s"

definition wait_queue_init :: "nat \<Rightarrow> 'a sync_state_scheme \<Rightarrow> 'a sync_state_scheme" where
  "wait_queue_init q s = set_queue q [] s"

definition wait_queue_add :: "nat \<Rightarrow> nat \<Rightarrow> 'a sync_state_scheme \<Rightarrow> 'a sync_state_scheme option" where
  "wait_queue_add q w s = do {
     kassert (\<not> w_linked (waits s w) \<and> w_proc (waits s w) \<noteq> None);
     let s = upd_wait w (\<lambda>wt. wt\<lparr>w_queue := q, w_linked := True\<rparr>) s;
     Some (set_queue q (queues s q @ [w]) s)
   }"

definition wait_queue_del :: "nat \<Rightarrow> nat \<Rightarrow> 'a sync_state_scheme \<Rightarrow> 'a sync_state_scheme option" where
  "wait_queue_del q w s = do {
     kassert (w_linked (waits s w) \<and> w_queue (waits s w) = q);
     Some (set_queue q (remove1 w (queues s q)) (upd_wait w (\<lambda>wt. wt\<lparr>w_linked := False\<rparr>) s))
   }"

definition wait_queue_next :: "nat \<Rightarrow> nat \<Rightarrow> 'a sync_state_scheme \<Rightarrow> nat option option" where
  "wait_queue_next q w s = do {
     kassert (w_linked (waits s w) \<and> w_queue (waits s w) = q);
     Some (succ_of w (queues s q))
   }"

definition wait_queue_prev :: "nat \<Rightarrow> nat \<Rightarrow> 'a sync_state_scheme \<Rightarrow> nat option option" where
  "wait_queue_prev q w s = do {
     kassert (w_linked (waits s w) \<and> w_queue (waits s w) = q);
     Some (succ_of w (rev (queues s q)))
   }"

definition wait_queue_first :: "nat \<Rightarrow> 'a sync_state_scheme \<Rightarrow> nat option" where
  "wait_queue_first q s = (case queues s q of [] \<Rightarrow> None | w # _ \<Rightarrow> Some w)"

definition wait_queue_last :: "nat \<Rightarrow> 'a sync_state_scheme \<Rightarrow> nat option" where
  "wait_queue_last q s = (case rev (queues s q) of [] \<Rightarrow> None | w # _ \<Rightarrow> Some w)"

definition wait_queue_empty :: "nat \<Rightarrow> 'a sync_state_scheme \<Rightarrow> bool" where
  "wait_queue_empty q s \<longleftrightarrow> queues s q = []"

definition wait_in_queue :: "nat \<Rightarrow> 'a sync_state_scheme \<Rightarrow> bool" where
  "wait_in_queue w s \<longleftrightarrow> w_linked (waits s w)"

definition wakeup_wait :: "nat \<Rightarrow> nat \<Rightarrow> u32 \<Rightarrow> bool \<Rightarrow> 'a sync_state_scheme \<Rightarrow> 'a sync_state_scheme option" where
  "wakeup_wait q w flags del s = do {
     s \<leftarrow> (if del then wait_queue_del q w s else Some s);
     let s = upd_wait w (\<lambda>wt. wt\<lparr>w_flags := flags\<rparr>) s;
     p \<leftarrow> w_proc (waits s w);
     wakeup_proc p s
   }"

definition wakeup_first :: "nat \<Rightarrow> u32 \<Rightarrow> bool \<Rightarrow> 'a sync_state_scheme \<Rightarrow> 'a sync_state_scheme option" where
  "wakeup_first q flags del s =
     (case wait_queue_first q s of None \<Rightarrow> Some s | Some w \<Rightarrow> wakeup_wait q w flags del s)"

text \<open>The two loops of \<open>wakeup_queue\<close>: from the front while the queue is not empty, and along the queue.\<close>

partial_function (option) wakeup_all :: "nat \<Rightarrow> u32 \<Rightarrow> 'a sync_state_scheme \<Rightarrow> 'a sync_state_scheme option" where
  "wakeup_all q flags s =
     (case wait_queue_first q s of None \<Rightarrow> Some s | Some w \<Rightarrow> do { s \<leftarrow> wakeup_wait q w flags True s; wakeup_all q flags s })"

partial_function (option) wakeup_from :: "nat \<Rightarrow> u32 \<Rightarrow> nat \<Rightarrow> 'a sync_state_scheme \<Rightarrow> 'a sync_state_scheme option" where
  "wakeup_from q flags w s = do {
     s \<leftarrow> wakeup_wait q w flags False s;
     n \<leftarrow> wait_queue_next q w s;
     (case n of None \<Rightarrow> Some s | Some w \<Rightarrow> wakeup_from q flags w s)
   }"

definition wakeup_queue :: "nat \<Rightarrow> u32 \<Rightarrow> bool \<Rightarrow> 'a sync_state_scheme \<Rightarrow> 'a sync_state_scheme option" where
  "wakeup_queue q flags del s =
     (case wait_queue_first q s of
        None \<Rightarrow> Some s
      | Some w \<Rightarrow> if del then wakeup_all q flags s else wakeup_from q flags w s)"

definition wait_current_set :: "nat \<Rightarrow> nat \<Rightarrow> u32 \<Rightarrow> 'a sync_state_scheme \<Rightarrow> 'a sync_state_scheme option" where
  "wait_current_set q w state s = do {
     let s = wait_init w (Some (current s)) s;
     let s = upd_proc (current s) (\<lambda>pr. pr\<lparr>p_state := PROC_SLEEPING, p_wait_state := state\<rparr>) s;
     wait_queue_add q w s
   }"

definition wait_current_del :: "nat \<Rightarrow> nat \<Rightarrow> 'a sync_state_scheme \<Rightarrow> 'a sync_state_scheme option" where
  "wait_current_del q w s = (if wait_in_queue w s then wait_queue_del q w s else Some s)"

section \<open>Semaphores\<close>

definition sem_init :: "nat \<Rightarrow> int \<Rightarrow> 'a sync_state_scheme \<Rightarrow> 'a sync_state_scheme" where
  "sem_init k v s = wait_queue_init k (s\<lparr>sem_value := (sem_value s)(k := v)\<rparr>)"

definition up_with :: "nat \<Rightarrow> u32 \<Rightarrow> 'a sync_state_scheme \<Rightarrow> 'a sync_state_scheme option" where
  "up_with k state s =
     (case wait_queue_first k s of
        None \<Rightarrow> Some (s\<lparr>sem_value := (sem_value s)(k := sem_value s k + 1)\<rparr>)
      | Some w \<Rightarrow> do {
          p \<leftarrow> w_proc (waits s w);
          kassert (p_wait_state (proc_at s p) = state);
          wakeup_wait k w state True s
        })"

text \<open>The result says whether the semaphore was taken; otherwise the caller sleeps on it.\<close>

definition down_enter :: "nat \<Rightarrow> nat \<Rightarrow> u32 \<Rightarrow> 'a sync_state_scheme \<Rightarrow> (bool \<times> 'a sync_state_scheme) option" where
  "down_enter k w state s =
     (if sem_value s k > 0 then Some (True, s\<lparr>sem_value := (sem_value s)(k := sem_value s k - 1)\<rparr>)
      else do { s \<leftarrow> wait_current_set k w state s; Some (False, s) })"

definition down_resume :: "nat \<Rightarrow> nat \<Rightarrow> u32 \<Rightarrow> 'a sync_state_scheme \<Rightarrow> (u32 \<times> 'a sync_state_scheme) option" where
  "down_resume k w state s = do {
     s \<leftarrow> wait_current_del k w s;
     Some (if w_flags (waits s w) \<noteq> state then w_flags (waits s w) else 0, s)
   }"

definition up :: "nat \<Rightarrow> 'a sync_state_scheme \<Rightarrow> 'a sync_state_scheme option" where
  "up k s = up_with k WT_KSEM s"

text \<open>\<open>down\<close>: its first half with the call of \<open>schedule\<close>, and its second half with its assertion.\<close>

definition down :: "nat \<Rightarrow> nat \<Rightarrow> 'a sync_state_scheme \<Rightarrow> (bool \<times> 'a sync_state_scheme) option" where
  "down k w s = do {
     (taken, s) \<leftarrow> down_enter k w WT_KSEM s;
     if taken then Some (True, s) else do { s \<leftarrow> schedule s; Some (False, s) }
   }"

definition down_finish :: "nat \<Rightarrow> nat \<Rightarrow> 'a sync_state_scheme \<Rightarrow> 'a sync_state_scheme option" where
  "down_finish k w s = do {
     (flags, s) \<leftarrow> down_resume k w WT_KSEM s;
     kassert (flags = 0);
     Some s
   }"

definition try_down :: "nat \<Rightarrow> 'a sync_state_scheme \<Rightarrow> bool \<times> 'a sync_state_scheme" where
  "try_down k s =
     (if sem_value s k > 0 then (True, s\<lparr>sem_value := (sem_value s)(k := sem_value s k - 1)\<rparr>) else (False, s))"

section \<open>The abstract semaphore\<close>

type_synonym asem = "int \<times> nat list"

fun a_up :: "asem \<Rightarrow> asem" where
  "a_up (v, []) = (v + 1, [])"
| "a_up (v, p # ps) = (v, ps)"

fun a_down :: "nat \<Rightarrow> asem \<Rightarrow> asem" where
  "a_down p (v, ps) = (if v > 0 then (v - 1, ps) else (v, ps @ [p]))"

definition sem_abs :: "'a sync_state_scheme \<Rightarrow> nat \<Rightarrow> asem" where
  "sem_abs s k = (sem_value s k, map (\<lambda>w. the (w_proc (waits s w))) (queues s k))"

text \<open>
  What holds of a semaphore: free only if nobody waits; its entries are linked to it and belong to
  different processes that sleep on it.
\<close>

definition sem_ok :: "'a sync_state_scheme \<Rightarrow> nat \<Rightarrow> bool" where
  "sem_ok s k \<longleftrightarrow> 0 \<le> sem_value s k \<and> (0 < sem_value s k \<longrightarrow> queues s k = []) \<and>
     distinct (queues s k) \<and> distinct (snd (sem_abs s k)) \<and>
     (\<forall>w\<in>set (queues s k). w_linked (waits s w) \<and> w_queue (waits s w) = k \<and>
        (\<exists>p. w_proc (waits s w) = Some p \<and> p_state (proc_at s p) = PROC_SLEEPING \<and> p_wait_state (proc_at s p) = WT_KSEM))"

definition sems_ok :: "'a sync_state_scheme \<Rightarrow> bool" where
  "sems_ok s \<longleftrightarrow> (\<forall>k. sem_ok s k) \<and> (\<forall>k j. k \<noteq> j \<longrightarrow> set (snd (sem_abs s k)) \<inter> set (snd (sem_abs s j)) = {}) \<and>
     (\<forall>w. w_linked (waits s w) \<longrightarrow> w \<in> set (queues s (w_queue (waits s w))))"

lemma sem_abs_cong:
  assumes "sem_value s' k = sem_value s k" and "queues s' k = queues s k" and "\<And>w. w \<in> set (queues s k) \<Longrightarrow> w_proc (waits s' w) = w_proc (waits s w)"
  shows "sem_abs s' k = sem_abs s k"
  using assms by (simp add: sem_abs_def)

lemma sem_ok_cong:
  assumes "sem_ok s k" and "sem_value s' k = sem_value s k" and "queues s' k = queues s k"
    and "\<And>w. w \<in> set (queues s k) \<Longrightarrow> w_proc (waits s' w) = w_proc (waits s w) \<and> w_linked (waits s' w) = w_linked (waits s w) \<and>
      w_queue (waits s' w) = w_queue (waits s w)"
    and "\<And>p. p \<in> set (snd (sem_abs s k)) \<Longrightarrow> p_state (proc_at s' p) = p_state (proc_at s p) \<and> p_wait_state (proc_at s' p) = p_wait_state (proc_at s p)"
  shows "sem_ok s' k"
proof -
  have a: "sem_abs s' k = sem_abs s k" using assms(2,3) assms(4) by (intro sem_abs_cong) auto
  have "w_linked (waits s' w) \<and> w_queue (waits s' w) = k \<and>
      (\<exists>p. w_proc (waits s' w) = Some p \<and> p_state (proc_at s' p) = PROC_SLEEPING \<and> p_wait_state (proc_at s' p) = WT_KSEM)"
    if w: "w \<in> set (queues s k)" for w
  proof -
    obtain p where p: "w_proc (waits s w) = Some p" "p_state (proc_at s p) = PROC_SLEEPING" "p_wait_state (proc_at s p) = WT_KSEM"
      "w_linked (waits s w)" "w_queue (waits s w) = k" using assms(1) w by (auto simp: sem_ok_def)
    have "p \<in> set (snd (sem_abs s k))" using w p(1) by (force simp: sem_abs_def)
    then show ?thesis using assms(4) [OF w] assms(5) [of p] p by simp
  qed
  then show ?thesis using assms(1-3) a by (simp add: sem_ok_def)
qed

lemma sched_inv_more:
  assumes "sched_inv sc cok queued s" and "sched s' = sched s" and "rq s' = rq s" and "procs s' = procs s"
    and "idleproc s' = idleproc s" and "current s' = current s"
  shows "sched_inv sc cok queued s'"
  using assms by (simp add: sched_inv_def)

lemma wakeup_wait_ok:
  assumes so: "sched_ok s" and ok: "sems_ok s" and q: "queues s k = w # ws" and p: "w_proc (waits s w) = Some p"
  shows "\<exists>s'. wakeup_wait k w flags True s = Some s' \<and> sched_ok s' \<and> sems_ok s' \<and>
    queues s' = (queues s)(k := ws) \<and> sem_value s' = sem_value s \<and> w_flags (waits s' w) = flags \<and>
    \<not> w_linked (waits s' w) \<and> (\<forall>v. w_proc (waits s' v) = w_proc (waits s v)) \<and> p_state (proc_at s' p) = PROC_RUNNABLE \<and>
    current s' = current s \<and> (\<forall>r. r \<noteq> p \<longrightarrow> p_state (proc_at s' r) = p_state (proc_at s r))"
proof -
  have ok1: "sem_ok s j" for j using ok by (simp add: sems_ok_def)
  have w: "w_linked (waits s w)" "w_queue (waits s w) = k" "p_state (proc_at s p) = PROC_SLEEPING" "distinct (w # ws)"
    "distinct (snd (sem_abs s k))"
    using ok1 [of k] q p by (auto simp: sem_ok_def)
  define s1 where "s1 = (set_queue k ws (upd_wait w (\<lambda>wt. wt\<lparr>w_linked := False\<rparr>) s))
      \<lparr>waits := (waits s)(w := (waits s w)\<lparr>w_linked := False, w_flags := flags\<rparr>)\<rparr>"
  have "sched_ok s1" using so by (rule sched_inv_more) (simp_all add: s1_def)
  moreover have "p_state (proc_at s1 p) \<noteq> PROC_ZOMBIE" using w(3) by (simp add: s1_def)
  ultimately obtain r ps where wk: "wakeup_proc p s1 = Some (s1\<lparr>rq := r, procs := ps\<rparr>)" "sched_ok (s1\<lparr>rq := r, procs := ps\<rparr>)"
    "p_state (ps p) = PROC_RUNNABLE" "\<And>q. q \<noteq> p \<Longrightarrow> p_state (ps q) = p_state (proc_at s1 q)"
    "\<And>q. q \<noteq> p \<Longrightarrow> p_wait_state (ps q) = p_wait_state (proc_at s1 q)"
    using RR.wakeup_ok [of s1 p] by blast
  define s' where "s' = s1\<lparr>rq := r, procs := ps\<rparr>"
  have f: "queues s' = (queues s)(k := ws)" "sem_value s' = sem_value s" "procs s' = ps" "current s' = current s"
    "waits s' = (waits s)(w := (waits s w)\<lparr>w_linked := False, w_flags := flags\<rparr>)" "procs s1 = procs s"
    by (simp_all add: s'_def s1_def)
  have run: "wakeup_wait k w flags True s = Some s'"
    using w(1,2) q p wk(1) by (simp add: wakeup_wait_def wait_queue_del_def s1_def s'_def Let_def)
  have pr: "w_proc (waits s' v) = w_proc (waits s v)" for v by (simp add: f)
  have absk: "snd (sem_abs s k) = p # snd (sem_abs s' k)" using q p f pr by (simp add: sem_abs_def)
  have absj: "sem_abs s' j = sem_abs s j" if "j \<noteq> k" for j using that f pr by (intro sem_abs_cong) simp_all
  have other: "r \<noteq> p" if "r \<in> set (snd (sem_abs s j))" "j \<noteq> k" for r j
    using ok absk that unfolding sems_ok_def by (metis disjoint_iff list.set_intros(1))
  have wother: "v \<noteq> w" if "v \<in> set (queues s j)" "j \<noteq> k" for v j
    using ok1 [of j] that w(2) by (auto simp: sem_ok_def)
  have "sem_ok s' j" if "j \<noteq> k" for j
    using that f by (intro sem_ok_cong [OF ok1 [of j], of s']) (simp_all add: wk(4,5) other [OF _ that] wother [OF _ that])
  moreover have "sem_ok s' k"
  proof -
    have "p \<noteq> r" if "r \<in> set (snd (sem_abs s' k))" for r using that absk w(5) by auto
    moreover have "r \<in> set (snd (sem_abs s' k))" if "v \<in> set ws" "w_proc (waits s v) = Some r" for v r
      using that pr f(1) by (auto simp: sem_abs_def image_iff intro!: bexI [of _ v])
    ultimately have "v \<in> set ws \<Longrightarrow> w_proc (waits s v) = Some r \<Longrightarrow> r \<noteq> p" for v r by blast
    then show ?thesis using ok1 [of k] q f wk(4,5) w(4) absk unfolding sem_ok_def by auto
  qed
  ultimately have "\<forall>j. sem_ok s' j" by metis
  moreover have "set (snd (sem_abs s' i)) \<inter> set (snd (sem_abs s' j)) = {}" if "i \<noteq> j" for i j
  proof -
    have "set (snd (sem_abs s' l)) \<subseteq> set (snd (sem_abs s l))" for l using absk absj [of l] by (cases "l = k") auto
    then show ?thesis using ok that unfolding sems_ok_def by blast
  qed
  moreover have "v \<in> set (queues s' (w_queue (waits s' v)))" if "w_linked (waits s' v)" for v
  proof -
    have "v \<noteq> w" "w_linked (waits s v)" "w_queue (waits s' v) = w_queue (waits s v)" using that f by (auto split: if_splits)
    then show ?thesis using ok q f by (auto simp: sems_ok_def)
  qed
  ultimately have "sems_ok s'" by (simp add: sems_ok_def)
  then show ?thesis using run wk(2-4) f pr by (intro exI [of _ s']) (simp add: s'_def)
qed

text \<open>Semaphore 0 is taken and process 4 waits for it; semaphore 1 is free.\<close>

definition ss_wait :: sync_state where
  "ss_wait = kstate.extend (ks_three\<lparr>procs := (procs ks_three)(4 := proc_nil\<lparr>p_state := PROC_SLEEPING, p_wait_state := WT_KSEM\<rparr>)\<rparr>)
     (sync_state.fields (\<lambda>w. \<lparr>w_proc = Some 4, w_flags = WT_INTERRUPTED, w_queue = 0, w_linked = (w = 0)\<rparr>)
        (\<lambda>q. if q = 0 then [0] else []) (\<lambda>k. if k = 1 then 1 else 0))"

lemma ss_wait_sel:
  "procs ss_wait = (procs ks_three)(4 := proc_nil\<lparr>p_state := PROC_SLEEPING, p_wait_state := WT_KSEM\<rparr>)" "rq ss_wait = rq ks_three"
  "current ss_wait = 1" "idleproc ss_wait = 0" "sched ss_wait = default_sched_class"
  "waits ss_wait w = \<lparr>w_proc = Some 4, w_flags = WT_INTERRUPTED, w_queue = 0, w_linked = (w = 0)\<rparr>"
  "queues ss_wait q = (if q = 0 then [0] else [])" "sem_value ss_wait k = (if k = 1 then 1 else 0)"
  by (simp_all add: ss_wait_def ks_three_def kstate.defs sync_state.defs)

lemma ss_wait_ok: "sched_ok ss_wait" "sems_ok ss_wait"
proof -
  show "sched_ok ss_wait" using ks_three_ok
    by (auto simp: sched_inv_def ss_wait_sel ks_three_def RR_ok_def RR_queued_def proc_nil_def)
  show "sems_ok ss_wait" by (auto simp: sems_ok_def sem_ok_def sem_abs_def ss_wait_sel)
qed

text \<open>
  C25: \<open>up\<close> never fails and implements the abstract semaphore: with nobody waiting it increments the
  value; otherwise the process that has waited longest, and no other, is removed from the queue and made
  runnable, its \<open>down\<close> returning success; every other semaphore is unchanged.
\<close>

theorem up_refines:
  assumes "sched_ok s" and "sems_ok s"
  shows "\<exists>s'. up k s = Some s' \<and> sched_ok s' \<and> sems_ok s' \<and> sem_abs s' = (sem_abs s)(k := a_up (sem_abs s k)) \<and>
    (\<forall>p. p_state (proc_at s' p) = (if \<exists>ps. snd (sem_abs s k) = p # ps then PROC_RUNNABLE else p_state (proc_at s p))) \<and>
    (\<forall>w ws. queues s k = w # ws \<longrightarrow> (\<exists>s''. down_resume k w WT_KSEM s' = Some (0, s'')))"
proof (cases "queues s k")
  case Nil
  let ?s = "s\<lparr>sem_value := (sem_value s)(k := sem_value s k + 1)\<rparr>"
  have a: "sem_abs ?s = (sem_abs s)(k := a_up (sem_abs s k))" using Nil by (auto simp: sem_abs_def)
  have "up k s = Some ?s" using Nil by (simp add: up_def up_with_def wait_queue_first_def)
  moreover have "sched_ok ?s" using assms(1) by (rule sched_inv_more) simp_all
  moreover have "sem_ok ?s j" for j
    using assms(2) Nil by (cases "j = k") (auto simp: sems_ok_def sem_ok_def sem_abs_def)
  then have "sems_ok ?s" using assms(2) by (simp add: sems_ok_def sem_abs_def)
  ultimately show ?thesis using a Nil by (intro exI [of _ ?s]) (simp add: sem_abs_def)
next
  case (Cons w ws)
  have "sem_ok s k" using assms(2) by (simp add: sems_ok_def)
  then obtain p where p: "w_proc (waits s w) = Some p" "p_wait_state (proc_at s p) = WT_KSEM" using Cons by (auto simp: sem_ok_def)
  obtain s' where s': "wakeup_wait k w WT_KSEM True s = Some s'" "sched_ok s'" "sems_ok s'"
    "queues s' = (queues s)(k := ws)" "sem_value s' = sem_value s" "w_flags (waits s' w) = WT_KSEM"
    "\<And>v. w_proc (waits s' v) = w_proc (waits s v)" "p_state (proc_at s' p) = PROC_RUNNABLE"
    "\<And>r. r \<noteq> p \<Longrightarrow> p_state (proc_at s' r) = p_state (proc_at s r)" "\<not> w_linked (waits s' w)"
    using wakeup_wait_ok [OF assms Cons p(1), of WT_KSEM] by blast
  have "up k s = Some s'" using Cons p s'(1) by (simp add: up_def up_with_def wait_queue_first_def)
  moreover have "sem_abs s' = (sem_abs s)(k := a_up (sem_abs s k))" using Cons s'(4,5,7) by (auto simp: sem_abs_def)
  moreover have "p_state (proc_at s' r) = (if \<exists>ps. snd (sem_abs s k) = r # ps then PROC_RUNNABLE else p_state (proc_at s r))" for r
    using Cons p(1) s'(8,9) by (auto simp: sem_abs_def)
  moreover have "\<exists>s''. down_resume k w WT_KSEM s' = Some (0, s'')"
    using s'(6,10) by (simp add: down_resume_def wait_current_del_def wait_in_queue_def)
  ultimately show ?thesis using s'(2,3) Cons by (intro exI [of _ s']) simp
qed

lemma block_ok:
  assumes so: "sched_ok s" and ok: "sems_ok s" and run: "p_state (proc_at s (current s)) = PROC_RUNNABLE" "current s \<noteq> idleproc s"
    and w: "\<not> w_linked (waits s w)" and v: "sem_value s k = 0"
  shows "\<exists>s'. wait_current_set k w WT_KSEM s = Some s' \<and> sched_ok s' \<and> sems_ok s' \<and>
    sem_abs s' = (sem_abs s)(k := a_down (current s) (sem_abs s k)) \<and> p_state (proc_at s' (current s)) = PROC_SLEEPING"
proof -
  let ?c = "current s"
  define wt where "wt = (waits s w)\<lparr>w_proc := Some ?c, w_flags := WT_INTERRUPTED, w_queue := k, w_linked := True\<rparr>"
  define s' where "s' = s\<lparr>procs := (procs s)(?c := (proc_at s ?c)\<lparr>p_state := PROC_SLEEPING, p_wait_state := WT_KSEM\<rparr>),
     waits := (waits s)(w := wt), queues := (queues s)(k := queues s k @ [w])\<rparr>"
  have f: "queues s' = (queues s)(k := queues s k @ [w])" "waits s' = (waits s)(w := wt)" "sem_value s' = sem_value s"
    "procs s' = (procs s)(?c := (proc_at s ?c)\<lparr>p_state := PROC_SLEEPING, p_wait_state := WT_KSEM\<rparr>)"
    by (simp_all add: s'_def)
  have e: "wait_current_set k w WT_KSEM s = Some s'"
    by (simp add: wait_current_set_def wait_init_def wait_queue_add_def s'_def wt_def Let_def)
  have ok1: "sem_ok s j" for j using ok by (simp add: sems_ok_def)
  have wn: "x \<noteq> w" if "x \<in> set (queues s j)" for x j using ok1 [of j] that w by (auto simp: sem_ok_def)
  have cn: "p \<noteq> ?c" if "p \<in> set (snd (sem_abs s j))" for p j
    using ok1 [of j] that run(1) by (auto simp: sem_ok_def sem_abs_def)
  have pr: "w_proc (waits s' x) = w_proc (waits s x)" if "x \<in> set (queues s j)" for x j using wn [OF that] f by simp
  have absj: "sem_abs s' j = sem_abs s j" if "j \<noteq> k" for j using that f pr by (intro sem_abs_cong) simp_all
  have absk: "sem_abs s' k = (0, snd (sem_abs s k) @ [?c])"
    using f(1-3) v wn [of _ k] by (simp add: sem_abs_def wt_def)
  have "sem_ok s' j" if "j \<noteq> k" for j
    using that f by (intro sem_ok_cong [OF ok1 [of j], of s']) (simp_all add: wn [of _ j] cn [of _ j])
  moreover have "sem_ok s' k"
  proof -
    have "distinct (snd (sem_abs s' k))" using ok1 [of k] absk cn [of _ k] by (auto simp: sem_ok_def)
    moreover have "distinct (queues s' k)" using ok1 [of k] wn [of _ k] f(1) by (auto simp: sem_ok_def)
    moreover have "w_linked (waits s' x) \<and> w_queue (waits s' x) = k \<and>
        (\<exists>p. w_proc (waits s' x) = Some p \<and> p_state (proc_at s' p) = PROC_SLEEPING \<and> p_wait_state (proc_at s' p) = WT_KSEM)"
      if x: "x \<in> set (queues s' k)" for x
    proof (cases "x = w")
      case True
      then show ?thesis using f(2,4) by (simp add: wt_def)
    next
      case False
      then have "x \<in> set (queues s k)" using x f(1) by simp
      then obtain p where "w_linked (waits s x)" "w_queue (waits s x) = k" "w_proc (waits s x) = Some p"
        "p_state (proc_at s p) = PROC_SLEEPING" "p_wait_state (proc_at s p) = WT_KSEM" using ok1 [of k] by (auto simp: sem_ok_def)
      then show ?thesis using f(2,4) False by auto
    qed
    ultimately show ?thesis using f(3) v by (simp add: sem_ok_def)
  qed
  ultimately have "\<forall>j. sem_ok s' j" by metis
  moreover have "set (snd (sem_abs s' i)) \<inter> set (snd (sem_abs s' j)) = {}" if "i \<noteq> j" for i j
  proof -
    have "set (snd (sem_abs s' l)) = set (snd (sem_abs s l)) \<union> (if l = k then {?c} else {})" for l
      using absk absj [of l] by (cases "l = k") auto
    then show ?thesis using ok that cn unfolding sems_ok_def by (auto split: if_splits)
  qed
  moreover have "x \<in> set (queues s' (w_queue (waits s' x)))" if "w_linked (waits s' x)" for x
    using that ok f(1,2) by (cases "x = w") (auto simp: sems_ok_def wt_def)
  ultimately have "sems_ok s'" by (simp add: sems_ok_def)
  moreover have "sched_ok s'"
  proof -
    have fr: "core_frame (procs s) (procs s')" by (simp add: core_frame_def f(4))
    have "RR_ok (rq s, procs s')" "RR_queued (rq s, procs s') = RR_queued (rq s, procs s)"
      using RR.core [OF _ fr, of "rq s"] so by (simp_all add: sched_inv_def)
    then show ?thesis using so run(2) by (auto simp: sched_inv_def s'_def)
  qed
  moreover have "sem_abs s' = (sem_abs s)(k := a_down ?c (sem_abs s k))"
    using absj absk v by (auto simp: sem_abs_def fun_eq_iff)
  ultimately show ?thesis using e f(4) by (intro exI [of _ s']) simp
qed

theorem up_refines_witness:
  "\<exists>s'. up 0 ss_wait = Some s' \<and> p_state (proc_at s' 4) = PROC_RUNNABLE \<and> sem_abs s' 0 = (0, [])"
proof -
  have a: "sem_abs ss_wait 0 = (0, [4])" "queues ss_wait 0 = [0]" by (simp_all add: sem_abs_def ss_wait_sel)
  show ?thesis using up_refines [OF ss_wait_ok, of 0] a by auto
qed

text \<open>
  C26: \<open>down\<close> implements the abstract semaphore: it takes the semaphore at once if it is free, and
  otherwise puts the calling process to sleep at the end of the queue; it loses no waiting process.
\<close>

theorem down_refines:
  assumes "sched_ok s" and "sems_ok s" and "p_state (proc_at s (current s)) = PROC_RUNNABLE" and "current s \<noteq> idleproc s"
    and "\<not> w_linked (waits s w)"
  shows "\<exists>s'. down_enter k w WT_KSEM s = Some (0 < sem_value s k, s') \<and> sched_ok s' \<and> sems_ok s' \<and>
    sem_abs s' = (sem_abs s)(k := a_down (current s) (sem_abs s k)) \<and>
    p_state (proc_at s' (current s)) = (if 0 < sem_value s k then PROC_RUNNABLE else PROC_SLEEPING)"
proof (cases "0 < sem_value s k")
  case True
  let ?s = "s\<lparr>sem_value := (sem_value s)(k := sem_value s k - 1)\<rparr>"
  have e: "down_enter k w WT_KSEM s = Some (True, ?s)" using True by (simp add: down_enter_def)
  have "sched_ok ?s" using assms(1) by (rule sched_inv_more) simp_all
  moreover have "sem_ok ?s j" for j
    using assms(2) True by (cases "j = k") (auto simp: sems_ok_def sem_ok_def sem_abs_def)
  then have "sems_ok ?s" using assms(2) by (simp add: sems_ok_def sem_abs_def)
  moreover have "sem_abs ?s = (sem_abs s)(k := a_down (current s) (sem_abs s k))" using True by (auto simp: sem_abs_def)
  ultimately show ?thesis using e True assms(3) by (intro exI [of _ ?s]) simp
next
  case False
  then have v: "sem_value s k = 0" using assms(2) by (simp add: sems_ok_def sem_ok_def order.antisym)
  show ?thesis using block_ok [OF assms v] False by (auto simp: down_enter_def)
qed

theorem down_refines_witness:
  "\<exists>s'. down_enter 0 7 WT_KSEM ss_wait = Some (False, s') \<and> sem_abs s' 0 = (0, [4, 1]) \<and> p_state (proc_at s' 1) = PROC_SLEEPING"
proof -
  have "p_state (proc_at ss_wait (current ss_wait)) = PROC_RUNNABLE" "current ss_wait \<noteq> idleproc ss_wait" "\<not> w_linked (waits ss_wait 7)"
    "sem_value ss_wait 0 = 0" "sem_abs ss_wait 0 = (0, [4])"
    by (simp_all add: ss_wait_sel ks_three_def sem_abs_def)
  then show ?thesis using down_refines [OF ss_wait_ok, of 7 0] by (auto simp: ss_wait_sel)
qed

end
