(* ===== verification/Dining.thy ===== *)
theory Dining
  imports Sync
begin

text \<open>
  The dining philosophers of src/ucore_os/kern/sync/check_sync.c with semaphores: \<open>phi_test_sema\<close>,
  \<open>phi_take_forks_sema\<close>, \<open>phi_put_forks_sema\<close> and the loop of \<open>philosopher_using_semaphore\<close>.

  Each philosopher is a thread with a program counter; any thread may run at any time, and a step is one
  semaphore operation, one assignment or one call of \<open>phi_test_sema\<close>. The semaphores are the abstract ones
  that the code of sem.c implements. The number of rounds is not bounded. An invariant of every reachable
  state gives mutual exclusion, absence of deadlock, and that no hungry philosopher is forgotten.
\<close>

definition N :: nat where "N = 5"

definition LEFT :: "nat \<Rightarrow> nat" where "LEFT i = (i + N - 1) mod N"
definition RIGHT :: "nat \<Rightarrow> nat" where "RIGHT i = (i + 1) mod N"

datatype phi_state = THINKING | HUNGRY | EATING

text \<open>
  Where a philosopher is: the names ending in \<open>Wait\<close> are blocked in \<open>down\<close>; \<open>Take\<close> to \<open>TakeUp\<close> and \<open>Put\<close>
  to \<open>PutUp\<close> are the statements between \<open>down(&mutex)\<close> and \<open>up(&mutex)\<close>; \<open>SelfDown\<close> is \<open>down(&s[i])\<close>.
\<close>

datatype phi_pc = Thinks | TakeWait | Take | TakeTest | TakeUp | SelfDown | SelfWait | Eats
  | PutWait | Put | PutLeft | PutRight | PutUp

record table =
  state_sema :: "nat \<Rightarrow> phi_state"
  mutex :: asem
  sems :: "nat \<Rightarrow> asem"
  pc :: "nat \<Rightarrow> phi_pc"

fun resume :: "phi_pc \<Rightarrow> phi_pc" where
  "resume TakeWait = Take"
| "resume SelfWait = Eats"
| "resume PutWait = Put"
| "resume p = p"

abbreviation wake :: "asem \<Rightarrow> (nat \<Rightarrow> phi_pc) \<Rightarrow> nat \<Rightarrow> phi_pc" where
  "wake sem pcs \<equiv> (case snd sem of [] \<Rightarrow> pcs | j # _ \<Rightarrow> pcs(j := resume (pcs j)))"

definition up_mutex :: "table \<Rightarrow> table" where
  "up_mutex s = s\<lparr>mutex := a_up (mutex s), pc := wake (mutex s) (pc s)\<rparr>"

definition up_self :: "nat \<Rightarrow> table \<Rightarrow> table" where
  "up_self i s = s\<lparr>sems := (sems s)(i := a_up (sems s i)), pc := wake (sems s i) (pc s)\<rparr>"

definition down_mutex :: "nat \<Rightarrow> phi_pc \<Rightarrow> phi_pc \<Rightarrow> table \<Rightarrow> table" where
  "down_mutex i blocked nxt s = s\<lparr>mutex := a_down i (mutex s), pc := (pc s)(i := if fst (mutex s) > 0 then nxt else blocked)\<rparr>"

definition down_self :: "nat \<Rightarrow> table \<Rightarrow> table" where
  "down_self i s = s\<lparr>sems := (sems s)(i := a_down i (sems s i)), pc := (pc s)(i := if fst (sems s i) > 0 then Eats else SelfWait)\<rparr>"

definition phi_test_sema :: "nat \<Rightarrow> table \<Rightarrow> table" where
  "phi_test_sema i s =
     (if state_sema s i = HUNGRY \<and> state_sema s (LEFT i) \<noteq> EATING \<and> state_sema s (RIGHT i) \<noteq> EATING
      then up_self i (s\<lparr>state_sema := (state_sema s)(i := EATING)\<rparr>) else s)"

abbreviation go :: "nat \<Rightarrow> phi_pc \<Rightarrow> table \<Rightarrow> table" where
  "go i p s \<equiv> s\<lparr>pc := (pc s)(i := p)\<rparr>"

definition phi_take_forks_sema :: "nat \<Rightarrow> table \<Rightarrow> table option" where
  "phi_take_forks_sema i s =
     (case pc s i of
        Thinks \<Rightarrow> Some (down_mutex i TakeWait Take s)
      | Take \<Rightarrow> Some (go i TakeTest (s\<lparr>state_sema := (state_sema s)(i := HUNGRY)\<rparr>))
      | TakeTest \<Rightarrow> Some (go i TakeUp (phi_test_sema i s))
      | TakeUp \<Rightarrow> Some (go i SelfDown (up_mutex s))
      | SelfDown \<Rightarrow> Some (down_self i s)
      | _ \<Rightarrow> None)"

definition phi_put_forks_sema :: "nat \<Rightarrow> table \<Rightarrow> table option" where
  "phi_put_forks_sema i s =
     (case pc s i of
        Eats \<Rightarrow> Some (down_mutex i PutWait Put s)
      | Put \<Rightarrow> Some (go i PutLeft (s\<lparr>state_sema := (state_sema s)(i := THINKING)\<rparr>))
      | PutLeft \<Rightarrow> Some (go i PutRight (phi_test_sema (LEFT i) s))
      | PutRight \<Rightarrow> Some (go i PutUp (phi_test_sema (RIGHT i) s))
      | PutUp \<Rightarrow> Some (go i Thinks (up_mutex s))
      | _ \<Rightarrow> None)"

text \<open>The loop of a philosopher: take the forks, eat, put them back.\<close>

inductive phi_step :: "table \<Rightarrow> table \<Rightarrow> bool" where
  take: "i < N \<Longrightarrow> phi_take_forks_sema i s = Some s' \<Longrightarrow> phi_step s s'"
| put: "i < N \<Longrightarrow> phi_put_forks_sema i s = Some s' \<Longrightarrow> phi_step s s'"

definition table_init :: table where
  "table_init = \<lparr>state_sema = (\<lambda>_. THINKING), mutex = (1, []), sems = (\<lambda>_. (0, [])), pc = (\<lambda>_. Thinks)\<rparr>"

section \<open>The invariant\<close>

definition in_cs :: "phi_pc \<Rightarrow> bool" where
  "in_cs p \<longleftrightarrow> p \<in> {Take, TakeTest, TakeUp, Put, PutLeft, PutRight, PutUp}"

definition m_waits :: "phi_pc \<Rightarrow> bool" where
  "m_waits p \<longleftrightarrow> p = TakeWait \<or> p = PutWait"

definition mutex_ok :: "asem \<Rightarrow> (nat \<Rightarrow> phi_pc) \<Rightarrow> bool" where
  "mutex_ok m pcs \<longleftrightarrow> distinct (snd m) \<and> set (snd m) = {i. i < N \<and> m_waits (pcs i)} \<and>
     (m = (1, []) \<and> (\<forall>i<N. \<not> in_cs (pcs i)) \<or>
      fst m = 0 \<and> (\<exists>h<N. in_cs (pcs h) \<and> (\<forall>i<N. i \<noteq> h \<longrightarrow> \<not> in_cs (pcs i))))"

text \<open>What a philosopher's place says of its state and its semaphore.\<close>

definition phi_ok :: "phi_pc \<Rightarrow> phi_state \<Rightarrow> nat \<Rightarrow> asem \<Rightarrow> bool" where
  "phi_ok p st i sem \<longleftrightarrow>
     (case p of
        Thinks \<Rightarrow> st = THINKING \<and> sem = (0, [])
      | TakeWait \<Rightarrow> st = THINKING \<and> sem = (0, [])
      | Take \<Rightarrow> st = THINKING \<and> sem = (0, [])
      | TakeTest \<Rightarrow> st = HUNGRY \<and> sem = (0, [])
      | TakeUp \<Rightarrow> st = HUNGRY \<and> sem = (0, []) \<or> st = EATING \<and> sem = (1, [])
      | SelfDown \<Rightarrow> st = HUNGRY \<and> sem = (0, []) \<or> st = EATING \<and> sem = (1, [])
      | SelfWait \<Rightarrow> st = HUNGRY \<and> sem = (0, [i])
      | Eats \<Rightarrow> st = EATING \<and> sem = (0, [])
      | PutWait \<Rightarrow> st = EATING \<and> sem = (0, [])
      | Put \<Rightarrow> st = EATING \<and> sem = (0, [])
      | PutLeft \<Rightarrow> st = THINKING \<and> sem = (0, [])
      | PutRight \<Rightarrow> st = THINKING \<and> sem = (0, [])
      | PutUp \<Rightarrow> st = THINKING \<and> sem = (0, []))"

definition apart :: "(nat \<Rightarrow> phi_state) \<Rightarrow> bool" where
  "apart st \<longleftrightarrow> (\<forall>i<N. st i = EATING \<longrightarrow> st (LEFT i) \<noteq> EATING \<and> st (RIGHT i) \<noteq> EATING)"

text \<open>A hungry philosopher has an eating neighbour, or is about to be tested.\<close>

definition pending :: "(nat \<Rightarrow> phi_pc) \<Rightarrow> nat \<Rightarrow> bool" where
  "pending pcs i \<longleftrightarrow> pcs i = TakeTest \<or>
     (\<exists>k<N. pcs k = PutLeft \<and> (LEFT k = i \<or> RIGHT k = i) \<or> pcs k = PutRight \<and> RIGHT k = i)"

definition waits_ok :: "(nat \<Rightarrow> phi_state) \<Rightarrow> (nat \<Rightarrow> phi_pc) \<Rightarrow> bool" where
  "waits_ok st pcs \<longleftrightarrow> (\<forall>i<N. st i = HUNGRY \<longrightarrow> st (LEFT i) = EATING \<or> st (RIGHT i) = EATING \<or> pending pcs i)"

definition table_ok :: "table \<Rightarrow> bool" where
  "table_ok s \<longleftrightarrow> mutex_ok (mutex s) (pc s) \<and> (\<forall>i<N. phi_ok (pc s i) (state_sema s i) i (sems s i)) \<and>
     apart (state_sema s) \<and> waits_ok (state_sema s) (pc s)"

lemma sides [simp]: "i < N \<Longrightarrow> LEFT i < N" "i < N \<Longrightarrow> RIGHT i < N"
  "i < N \<Longrightarrow> LEFT (RIGHT i) = i" "i < N \<Longrightarrow> RIGHT (LEFT i) = i" "i < N \<Longrightarrow> LEFT i \<noteq> i" "i < N \<Longrightarrow> RIGHT i \<noteq> i"
  "i < N \<Longrightarrow> LEFT i \<noteq> RIGHT i"
proof -
  have "list_all (\<lambda>i. LEFT i < N \<and> RIGHT i < N \<and> LEFT (RIGHT i) = i \<and> RIGHT (LEFT i) = i \<and> LEFT i \<noteq> i \<and> RIGHT i \<noteq> i \<and>
      LEFT i \<noteq> RIGHT i) [0..<N]" by code_simp
  then show "i < N \<Longrightarrow> LEFT i < N" "i < N \<Longrightarrow> RIGHT i < N" "i < N \<Longrightarrow> LEFT (RIGHT i) = i" "i < N \<Longrightarrow> RIGHT (LEFT i) = i"
    "i < N \<Longrightarrow> LEFT i \<noteq> i" "i < N \<Longrightarrow> RIGHT i \<noteq> i" "i < N \<Longrightarrow> LEFT i \<noteq> RIGHT i"
    by (simp_all add: list_all_iff)
qed

subsection \<open>The mutex\<close>

lemma mutex_ok_cong:
  assumes "mutex_ok m pcs" and "\<And>i. i < N \<Longrightarrow> in_cs (pcs' i) = in_cs (pcs i) \<and> m_waits (pcs' i) = m_waits (pcs i)"
  shows "mutex_ok m pcs'"
  using assms unfolding mutex_ok_def by auto

lemma mutex_ok_move:
  assumes "mutex_ok m pcs" and "in_cs p = in_cs (pcs i)" and "m_waits p = m_waits (pcs i)"
  shows "mutex_ok m (pcs(i := p))"
  using assms(1) by (rule mutex_ok_cong) (simp add: assms)

lemma mutex_ok_down:
  assumes "mutex_ok m pcs" and "i < N" and "\<not> in_cs (pcs i)" and "\<not> m_waits (pcs i)"
    and "in_cs nxt" and "\<not> m_waits nxt" and "m_waits blocked" and "\<not> in_cs blocked"
  shows "mutex_ok (a_down i m) (pcs(i := if fst m > 0 then nxt else blocked))"
proof (cases m)
  case (Pair v q)
  show ?thesis
  proof (cases "v = 1")
    case True
    then have q: "q = []" "\<forall>j<N. \<not> in_cs (pcs j) \<and> \<not> m_waits (pcs j)" using assms(1) Pair by (auto simp: mutex_ok_def)
    let ?pcs = "pcs(i := nxt)"
    have "{j. j < N \<and> m_waits (?pcs j)} = {}" using q(2) assms(6) by auto
    moreover have "i < N \<and> in_cs (?pcs i) \<and> (\<forall>j<N. j \<noteq> i \<longrightarrow> \<not> in_cs (?pcs j))" using q(2) assms(2,5) by auto
    ultimately show ?thesis using True q(1) Pair unfolding mutex_ok_def by (simp del: fun_upd_apply) blast
  next
    case False
    then obtain h where h: "v = 0" "h < N" "in_cs (pcs h)" "\<forall>i<N. i \<noteq> h \<longrightarrow> \<not> in_cs (pcs i)" "distinct q"
      "set q = {i. i < N \<and> m_waits (pcs i)}" using assms(1) Pair by (auto simp: mutex_ok_def)
    let ?pcs = "pcs(i := blocked)"
    have "i \<noteq> h" using h(3) assms(3) by auto
    then have "h < N \<and> in_cs (?pcs h) \<and> (\<forall>j<N. j \<noteq> h \<longrightarrow> \<not> in_cs (?pcs j))" using h(2-4) assms(8) by (simp split: if_splits)
    moreover have "distinct (q @ [i])" "set (q @ [i]) = {j. j < N \<and> m_waits (?pcs j)}" using h(5,6) assms(2,4,7) by auto
    ultimately show ?thesis using h(1) Pair unfolding mutex_ok_def by (simp del: fun_upd_apply) blast
  qed
qed

lemma resume_cs: "m_waits p \<Longrightarrow> in_cs (resume p) \<and> \<not> m_waits (resume p)"
  by (auto simp: m_waits_def in_cs_def)

lemma mutex_ok_up:
  assumes "mutex_ok m pcs" and "i < N" and "in_cs (pcs i)" and "\<not> in_cs nxt" and "\<not> m_waits nxt"
  shows "mutex_ok (a_up m) ((wake m pcs)(i := nxt))"
proof -
  obtain q where m: "m = (0, q)" "\<forall>j<N. j \<noteq> i \<longrightarrow> \<not> in_cs (pcs j)" "distinct q" "set q = {i. i < N \<and> m_waits (pcs i)}"
    using assms(1-3) by (cases m) (auto simp: mutex_ok_def)
  have ni: "\<not> m_waits (pcs i)" using assms(3) by (auto simp: in_cs_def m_waits_def)
  show ?thesis
  proof (cases q)
    case Nil
    have "\<forall>l<N. \<not> in_cs ((pcs(i := nxt)) l)" using m(2) assms(4) by auto
    moreover have "{l. l < N \<and> m_waits ((pcs(i := nxt)) l)} = {}" using m(4) Nil assms(5) by auto
    ultimately show ?thesis using m(1) Nil unfolding mutex_ok_def by (simp del: fun_upd_apply)
  next
    case (Cons j q')
    have j: "j < N" "m_waits (pcs j)" "j \<noteq> i" using m(4) Cons ni by auto
    let ?pcs = "pcs(j := resume (pcs j), i := nxt)"
    have "in_cs (?pcs j) \<and> (\<forall>l<N. l \<noteq> j \<longrightarrow> \<not> in_cs (?pcs l))" using j m(2) resume_cs [OF j(2)] assms(4) by auto
    moreover have "set q' = {l. l < N \<and> m_waits (?pcs l)}" using m(3,4) Cons j resume_cs [OF j(2)] assms(5) ni by auto
    ultimately show ?thesis using m(1,3) Cons j(1) unfolding mutex_ok_def by (simp del: fun_upd_apply) blast
  qed
qed

subsection \<open>Testing a philosopher\<close>

lemma phi_test_cases:
  assumes "phi_ok (pc s j) (state_sema s j) j (sems s j)"
  obtains (no) "phi_test_sema j s = s"
      and "state_sema s j = HUNGRY \<longrightarrow> state_sema s (LEFT j) = EATING \<or> state_sema s (RIGHT j) = EATING"
  | (yes) sem p where "state_sema s j = HUNGRY" and "state_sema s (LEFT j) \<noteq> EATING" and "state_sema s (RIGHT j) \<noteq> EATING"
      and "phi_test_sema j s = s\<lparr>state_sema := (state_sema s)(j := EATING), sems := (sems s)(j := sem), pc := (pc s)(j := p)\<rparr>"
      and "p = pc s j \<and> sem = (1, []) \<and> pc s j \<in> {TakeTest, TakeUp, SelfDown} \<or> pc s j = SelfWait \<and> p = Eats \<and> sem = (0, [])"
proof (cases "state_sema s j = HUNGRY \<and> state_sema s (LEFT j) \<noteq> EATING \<and> state_sema s (RIGHT j) \<noteq> EATING")
  case True
  let ?sem = "a_up (sems s j)" and ?p = "wake (sems s j) (pc s) j"
  have "phi_test_sema j s = s\<lparr>state_sema := (state_sema s)(j := EATING), sems := (sems s)(j := ?sem), pc := (pc s)(j := ?p)\<rparr> \<and>
      (?p = pc s j \<and> ?sem = (1, []) \<and> pc s j \<in> {TakeTest, TakeUp, SelfDown} \<or> pc s j = SelfWait \<and> ?p = Eats \<and> ?sem = (0, []))"
    using True assms by (cases "pc s j") (auto simp: phi_test_sema_def up_self_def phi_ok_def fun_upd_idem)
  then show ?thesis using True yes by blast
next
  case False
  then show ?thesis using no by (auto simp: phi_test_sema_def)
qed

lemma apart_eat:
  assumes "apart st" and "j < N" and "st (LEFT j) \<noteq> EATING" and "st (RIGHT j) \<noteq> EATING"
  shows "apart (st(j := EATING))"
proof -
  have "(st(j := EATING)) (LEFT i) \<noteq> EATING \<and> (st(j := EATING)) (RIGHT i) \<noteq> EATING" if "i < N" "(st(j := EATING)) i = EATING" for i
  proof (cases "i = j")
    case True
    then show ?thesis using assms by auto
  next
    case False
    then have "st i = EATING" using that by simp
    moreover have "LEFT i \<noteq> j" "RIGHT i \<noteq> j" using assms(3,4) that(1) \<open>st i = EATING\<close> by auto
    ultimately show ?thesis using assms(1) that(1) by (auto simp: apart_def)
  qed
  then show ?thesis by (simp add: apart_def)
qed

lemma apart_rest:
  assumes "apart st" and "p \<noteq> EATING"
  shows "apart (st(j := p))"
  using assms by (auto simp: apart_def)

lemma pending_move:
  assumes "pending pcs l" and "pcs i \<notin> {TakeTest, PutLeft, PutRight}"
  shows "pending (pcs(i := p)) l"
  using assms unfolding pending_def by (metis fun_upd_apply insertCI)

lemma waits_ok_move: "waits_ok st pcs \<Longrightarrow> pcs i \<notin> {TakeTest, PutLeft, PutRight} \<Longrightarrow> waits_ok st (pcs(i := p))"
  unfolding waits_ok_def using pending_move by blast

lemma waits_ok_eat: "waits_ok st pcs \<Longrightarrow> waits_ok (st(j := EATING)) pcs"
  by (auto simp: waits_ok_def)

lemma resume_test: "p \<notin> {TakeTest, PutLeft, PutRight} \<Longrightarrow> resume p \<notin> {TakeTest, PutLeft, PutRight}"
  by (cases p) auto

subsection \<open>Every step keeps the invariant\<close>

lemma table_okI:
  assumes "mutex_ok (mutex s) (pc s)" and "\<And>i. i < N \<Longrightarrow> phi_ok (pc s i) (state_sema s i) i (sems s i)"
    and "apart (state_sema s)" and "waits_ok (state_sema s) (pc s)"
  shows "table_ok s"
  using assms by (simp add: table_ok_def)

lemma table_okD:
  assumes "table_ok s"
  shows "mutex_ok (mutex s) (pc s)" and "\<And>i. i < N \<Longrightarrow> phi_ok (pc s i) (state_sema s i) i (sems s i)"
    and "apart (state_sema s)" and "waits_ok (state_sema s) (pc s)"
  using assms by (simp_all add: table_ok_def)

lemma down_mutex_ok:
  assumes ok: "table_ok s" and i: "i < N"
    and p: "pc s i = Thinks \<and> b = TakeWait \<and> n = Take \<or> pc s i = Eats \<and> b = PutWait \<and> n = Put"
  shows "table_ok (down_mutex i b n s)"
proof (rule table_okI)
  note o = table_okD [OF ok]
  have "mutex_ok (a_down i (mutex s)) ((pc s)(i := if fst (mutex s) > 0 then n else b))"
    using p i by (intro mutex_ok_down [OF o(1)]) (auto simp: in_cs_def m_waits_def)
  then show "mutex_ok (mutex (down_mutex i b n s)) (pc (down_mutex i b n s))" by (simp add: down_mutex_def)
  show "phi_ok (pc (down_mutex i b n s) j) (state_sema (down_mutex i b n s) j) j (sems (down_mutex i b n s) j)" if "j < N" for j
    using o(2) [OF that] p by (auto simp: down_mutex_def phi_ok_def)
  show "apart (state_sema (down_mutex i b n s))" using o(3) by (simp add: down_mutex_def)
  show "waits_ok (state_sema (down_mutex i b n s)) (pc (down_mutex i b n s))"
    using waits_ok_move [OF o(4), of i] p by (auto simp: down_mutex_def)
qed

lemma up_mutex_ok:
  assumes ok: "table_ok s" and i: "i < N" and p: "pc s i = TakeUp \<and> n = SelfDown \<or> pc s i = PutUp \<and> n = Thinks"
  shows "table_ok (go i n (up_mutex s))"
proof (rule table_okI)
  note o = table_okD [OF ok]
  have w: "wake (mutex s) (pc s) k = pc s k \<or> m_waits (pc s k) \<and> wake (mutex s) (pc s) k = resume (pc s k)" for k
    using o(1) by (auto simp: mutex_ok_def split: list.split)
  have wi: "wake (mutex s) (pc s) i = pc s i" using w [of i] p by (auto simp: m_waits_def)
  have "mutex_ok (a_up (mutex s)) ((wake (mutex s) (pc s))(i := n))"
    using p i by (intro mutex_ok_up [OF o(1)]) (auto simp: in_cs_def m_waits_def)
  then show "mutex_ok (mutex (go i n (up_mutex s))) (pc (go i n (up_mutex s)))" by (simp add: up_mutex_def)
  show "phi_ok (pc (go i n (up_mutex s)) j) (state_sema (go i n (up_mutex s)) j) j (sems (go i n (up_mutex s)) j)" if "j < N" for j
    using o(2) [OF that] w [of j] p by (auto simp: up_mutex_def phi_ok_def m_waits_def)
  show "apart (state_sema (go i n (up_mutex s)))" using o(3) by (simp add: up_mutex_def)
  have "waits_ok (state_sema s) (wake (mutex s) (pc s))"
  proof (cases "snd (mutex s)")
    case (Cons j q)
    then have "m_waits (pc s j)" using o(1) by (auto simp: mutex_ok_def)
    then show ?thesis using waits_ok_move [OF o(4), of j] Cons by (auto simp: m_waits_def)
  qed (use o(4) in simp)
  then show "waits_ok (state_sema (go i n (up_mutex s))) (pc (go i n (up_mutex s)))"
    using waits_ok_move [of _ "wake (mutex s) (pc s)" i n] wi p by (auto simp: up_mutex_def)
qed

lemma test_effect:
  assumes o: "phi_ok (pc s j) (state_sema s j) j (sems s j)" and a: "apart (state_sema s)" and j: "j < N"
  defines "t \<equiv> phi_test_sema j s"
  shows "mutex t = mutex s" and "\<And>k. k \<noteq> j \<Longrightarrow> pc t k = pc s k \<and> state_sema t k = state_sema s k \<and> sems t k = sems s k"
    and "pc t j = pc s j \<or> pc s j = SelfWait \<and> pc t j = Eats" and "apart (state_sema t)"
    and "state_sema t j = HUNGRY \<longrightarrow> state_sema t (LEFT j) = EATING \<or> state_sema t (RIGHT j) = EATING"
    and "state_sema t = state_sema s \<or> state_sema t = (state_sema s)(j := EATING)"
    and "phi_ok (if pc t j = TakeTest then TakeUp else pc t j) (state_sema t j) j (sems t j)"
  unfolding t_def using o
  by (cases rule: phi_test_cases; use o a apart_eat [OF a j] j in \<open>auto simp: phi_ok_def\<close>)+

lemma test_ok:
  assumes ok: "table_ok s" and i: "i < N" and j: "j < N"
    and p: "pc s i = TakeTest \<and> j = i \<and> n = TakeUp \<or> pc s i = PutLeft \<and> j = LEFT i \<and> n = PutRight \<or> pc s i = PutRight \<and> j = RIGHT i \<and> n = PutUp"
  shows "table_ok (go i n (phi_test_sema j s))"
proof (rule table_okI)
  note o = table_okD [OF ok]
  define t where "t = phi_test_sema j s"
  note t = test_effect [OF o(2) [OF j] o(3) j, folded t_def]
  have nj: "pc s k \<notin> {TakeTest, PutLeft, PutRight}" if "k \<noteq> i" "k < N" for k
    using o(1) i p that by (auto simp: mutex_ok_def in_cs_def)
  have cs: "in_cs (pc t k) = in_cs (pc s k) \<and> m_waits (pc t k) = m_waits (pc s k)" for k
    using t(2,3) by (cases "k = j") (auto simp: in_cs_def m_waits_def)
  have pti: "pc t i = pc s i" using t(2) [of i] t(3) p by (cases "i = j") auto
  show "mutex_ok (mutex (go i n (phi_test_sema j s))) (pc (go i n (phi_test_sema j s)))"
    unfolding t_def [symmetric] using mutex_ok_cong [OF o(1), of "pc t"] cs t(1) pti p mutex_ok_move [of "mutex s" "pc t" n i]
    by (auto simp: in_cs_def m_waits_def)
  show "apart (state_sema (go i n (phi_test_sema j s)))" using t(4) by (simp add: t_def)
  show "phi_ok (pc (go i n (phi_test_sema j s)) k) (state_sema (go i n (phi_test_sema j s)) k) k (sems (go i n (phi_test_sema j s)) k)"
    if k: "k < N" for k
  proof (cases "k = i")
    case True
    then show ?thesis using p t(7) t(2) [of i] o(2) [OF i] pti i by (cases "i = j") (auto simp: t_def [symmetric] phi_ok_def)
  next
    case False
    then show ?thesis using t(7) t(2) [of k] t(3) o(2) [OF k] nj [OF False k] by (cases "k = j") (auto simp: t_def [symmetric])
  qed
  have pend: "pending ((pc t)(i := n)) l \<or> l = j" if pd: "pending (pc s) l" and ln: "l < N" for l
  proof -
    consider "pc s l = TakeTest" | k where "k < N" "pc s k = PutLeft \<and> (LEFT k = l \<or> RIGHT k = l) \<or> pc s k = PutRight \<and> RIGHT k = l"
      using pd unfolding pending_def by blast
    then show ?thesis
    proof cases
      case 1
      then have "l = i" using nj [of l] ln by auto
      then show ?thesis using 1 p by auto
    next
      case 2
      then have "k = i" using nj [of k] by auto
      have "pending ((pc t)(i := PutRight)) (RIGHT i)" using i unfolding pending_def by (metis fun_upd_same)
      then show ?thesis using 2(2) p unfolding \<open>k = i\<close> by (elim disjE conjE) simp_all
    qed
  qed
  have "state_sema t (LEFT l) = EATING \<or> state_sema t (RIGHT l) = EATING \<or> pending ((pc t)(i := n)) l"
    if l: "l < N" "state_sema t l = HUNGRY" for l
  proof (cases "l = j")
    case False
    then have "state_sema s l = HUNGRY" using l(2) t(2) by auto
    then have "state_sema s (LEFT l) = EATING \<or> state_sema s (RIGHT l) = EATING \<or> pending (pc s) l"
      using o(4) l(1) by (simp add: waits_ok_def)
    moreover have "state_sema t x = EATING" if "state_sema s x = EATING" for x using that t(6) by auto
    ultimately show ?thesis using pend [OF _ l(1)] False by blast
  qed (use t(5) l in auto)
  then show "waits_ok (state_sema (go i n (phi_test_sema j s))) (pc (go i n (phi_test_sema j s)))"
    by (simp add: waits_ok_def t_def [symmetric] del: fun_upd_apply)
qed

lemma take_ok:
  assumes ok: "table_ok s" and i: "i < N" and s': "phi_take_forks_sema i s = Some s'"
  shows "table_ok s'"
proof -
  note o = table_okD [OF ok]
  consider "pc s i = Thinks" | "pc s i = Take" | "pc s i = TakeTest" | "pc s i = TakeUp" | "pc s i = SelfDown"
    using s' by (cases "pc s i") (simp_all add: phi_take_forks_sema_def)
  then show ?thesis
  proof cases
    case 2
    have s'_eq: "s' = go i TakeTest (s\<lparr>state_sema := (state_sema s)(i := HUNGRY)\<rparr>)" using s' 2 by (simp add: phi_take_forks_sema_def)
    have st: "state_sema s i = THINKING" using o(2) [OF i] 2 by (simp add: phi_ok_def)
    have "state_sema s' (LEFT l) = EATING \<or> state_sema s' (RIGHT l) = EATING \<or> pending (pc s') l" if "l < N" "state_sema s' l = HUNGRY" for l
    proof (cases "l = i")
      case False
      then have "state_sema s (LEFT l) = EATING \<or> state_sema s (RIGHT l) = EATING \<or> pending (pc s) l"
        using o(4) that s'_eq by (simp add: waits_ok_def)
      then show ?thesis using st pending_move [of "pc s" l i TakeTest] 2 s'_eq by auto
    qed (use s'_eq in \<open>simp add: pending_def\<close>)
    then have "waits_ok (state_sema s') (pc s')" by (simp add: waits_ok_def)
    moreover have "mutex_ok (mutex s') (pc s')" using mutex_ok_move [OF o(1), of TakeTest i] 2 s'_eq by (simp add: in_cs_def m_waits_def)
    moreover have "phi_ok (pc s' k) (state_sema s' k) k (sems s' k)" if "k < N" for k
      using o(2) [OF that] 2 s'_eq by (auto simp: phi_ok_def)
    ultimately show ?thesis using apart_rest [OF o(3), of HUNGRY i] s'_eq by (intro table_okI) simp_all
  next
    case 5
    have s'_eq: "s' = down_self i s" using s' 5 by (simp add: phi_take_forks_sema_def)
    have "mutex_ok (mutex s) (pc s')" using mutex_ok_move [OF o(1), of _ i] 5 s'_eq by (auto simp: down_self_def in_cs_def m_waits_def)
    moreover have "waits_ok (state_sema s) (pc s')" using waits_ok_move [OF o(4), of i] 5 s'_eq by (simp add: down_self_def)
    moreover have "phi_ok (pc s' k) (state_sema s' k) k (sems s' k)" if "k < N" for k
      using o(2) [OF that] 5 s'_eq by (auto simp: phi_ok_def down_self_def)
    ultimately show ?thesis using o(3) s'_eq by (intro table_okI) (simp_all add: down_self_def)
  qed (use s' in \<open>auto simp: phi_take_forks_sema_def intro!: down_mutex_ok [OF ok i] test_ok [OF ok i i] up_mutex_ok [OF ok i]\<close>)
qed

lemma put_ok:
  assumes ok: "table_ok s" and i: "i < N" and s': "phi_put_forks_sema i s = Some s'"
  shows "table_ok s'"
proof -
  note o = table_okD [OF ok]
  consider "pc s i = Eats" | "pc s i = Put" | "pc s i = PutLeft" | "pc s i = PutRight" | "pc s i = PutUp"
    using s' by (cases "pc s i") (simp_all add: phi_put_forks_sema_def)
  then show ?thesis
  proof cases
    case 2
    have s'_eq: "s' = go i PutLeft (s\<lparr>state_sema := (state_sema s)(i := THINKING)\<rparr>)" using s' 2 by (simp add: phi_put_forks_sema_def)
    have "state_sema s' (LEFT l) = EATING \<or> state_sema s' (RIGHT l) = EATING \<or> pending (pc s') l" if l: "l < N" "state_sema s' l = HUNGRY" for l
    proof -
      have "l \<noteq> i" using l(2) s'_eq by auto
      then have "state_sema s (LEFT l) = EATING \<or> state_sema s (RIGHT l) = EATING \<or> pending (pc s) l"
        using o(4) l s'_eq by (simp add: waits_ok_def)
      moreover have "pending (pc s') l" if h: "LEFT l = i \<or> RIGHT l = i"
      proof -
        have "RIGHT i = l \<or> LEFT i = l" using h l(1) by auto
        then have "pending ((pc s)(i := PutLeft)) l" using i unfolding pending_def by (metis fun_upd_same)
        then show ?thesis using s'_eq by simp
      qed
      ultimately show ?thesis using pending_move [of "pc s" l i PutLeft] 2 s'_eq by auto
    qed
    then have "waits_ok (state_sema s') (pc s')" by (simp add: waits_ok_def)
    moreover have "mutex_ok (mutex s') (pc s')" using mutex_ok_move [OF o(1), of PutLeft i] 2 s'_eq by (simp add: in_cs_def m_waits_def)
    moreover have "phi_ok (pc s' k) (state_sema s' k) k (sems s' k)" if "k < N" for k
      using o(2) [OF that] 2 s'_eq by (auto simp: phi_ok_def)
    ultimately show ?thesis using apart_rest [OF o(3), of THINKING i] s'_eq by (intro table_okI) simp_all
  qed (use s' i in \<open>auto simp: phi_put_forks_sema_def intro!: down_mutex_ok [OF ok i] test_ok [OF ok i] up_mutex_ok [OF ok i]\<close>)
qed

lemma table_reachable: "phi_step\<^sup>*\<^sup>* table_init s \<Longrightarrow> table_ok s"
proof (induction rule: rtranclp_induct)
  case base
  show ?case by (simp add: table_ok_def table_init_def mutex_ok_def phi_ok_def apart_def waits_ok_def in_cs_def m_waits_def)
next
  case (step s s')
  then show ?case by (auto elim: phi_step.cases intro: take_ok put_ok)
qed

text \<open>A run of philosopher 0 alone from the start to the meal.\<close>

definition table_eat :: table where
  "table_eat = table_init\<lparr>state_sema := (state_sema table_init)(0 := EATING), pc := (pc table_init)(0 := Eats)\<rparr>"

lemma table_eat_reachable: "phi_step\<^sup>*\<^sup>* table_init table_eat"
proof -
  define t1 t2 t3 t4 where "t1 = down_mutex 0 TakeWait Take table_init" and "t2 = go 0 TakeTest (t1\<lparr>state_sema := (state_sema t1)(0 := HUNGRY)\<rparr>)"
    and "t3 = go 0 TakeUp (phi_test_sema 0 t2)" and "t4 = go 0 SelfDown (up_mutex t3)"
  note d = t4_def t3_def t2_def t1_def table_init_def down_mutex_def phi_test_sema_def up_mutex_def up_self_def LEFT_def RIGHT_def N_def down_self_def
  have "table_eat = down_self 0 t4" by (simp add: d table_eat_def fun_eq_iff)
  moreover have "phi_take_forks_sema 0 table_init = Some t1" "phi_take_forks_sema 0 t1 = Some t2" "phi_take_forks_sema 0 t2 = Some t3"
    "phi_take_forks_sema 0 t3 = Some t4" "phi_take_forks_sema 0 t4 = Some (down_self 0 t4)"
    by (simp_all add: phi_take_forks_sema_def d)
  then have "phi_step table_init t1" "phi_step t1 t2" "phi_step t2 t3" "phi_step t3 t4" "phi_step t4 (down_self 0 t4)"
    by (auto intro!: phi_step.take [of 0] simp: N_def)
  ultimately show ?thesis by (simp add: rtranclp.rtrancl_into_rtrancl [OF rtranclp.rtrancl_into_rtrancl [OF rtranclp.rtrancl_into_rtrancl
      [OF rtranclp.rtrancl_into_rtrancl [OF r_into_rtranclp]]]])
qed

text \<open>
  C27: two neighbouring philosophers never eat at the same time, in any interleaving of the five threads.
\<close>

theorem dining_exclusion:
  assumes "phi_step\<^sup>*\<^sup>* table_init s" and "i < N" and "pc s i = Eats"
  shows "pc s (LEFT i) \<noteq> Eats \<and> pc s (RIGHT i) \<noteq> Eats"
proof -
  note o = table_okD [OF table_reachable [OF assms(1)]]
  have "state_sema s i = EATING" using o(2) [OF assms(2)] assms(3) by (simp add: phi_ok_def)
  then have "state_sema s (LEFT i) \<noteq> EATING" "state_sema s (RIGHT i) \<noteq> EATING" using o(3) assms(2) by (simp_all add: apart_def)
  then show ?thesis using o(2) [of "LEFT i"] o(2) [of "RIGHT i"] assms(2) by (auto simp: phi_ok_def)
qed

theorem dining_exclusion_witness: "pc table_eat 0 = Eats \<and> pc table_eat (RIGHT 0) \<noteq> Eats"
proof -
  have "pc table_eat 0 = Eats" by (simp add: table_eat_def)
  then show ?thesis using dining_exclusion [OF table_eat_reachable, of 0] by (simp add: N_def)
qed

text \<open>
  C28: the philosophers never deadlock, and none is forgotten: in every reachable state some thread can
  take a step, and whenever no thread is inside the critical section, each philosopher blocked on its
  semaphore has a neighbour holding the forks.
\<close>

theorem dining_progress:
  assumes "phi_step\<^sup>*\<^sup>* table_init s"
  shows "(\<exists>s'. phi_step s s') \<and>
    ((\<forall>k<N. \<not> in_cs (pc s k)) \<longrightarrow>
      (\<forall>i<N. pc s i = SelfWait \<longrightarrow> state_sema s (LEFT i) = EATING \<or> state_sema s (RIGHT i) = EATING))"
proof -
  note o = table_okD [OF table_reachable [OF assms]]
  have hungry: "state_sema s (LEFT i) = EATING \<or> state_sema s (RIGHT i) = EATING"
    if "\<forall>k<N. \<not> in_cs (pc s k)" "i < N" "pc s i = SelfWait" for i
  proof -
    have "state_sema s i = HUNGRY" using o(2) [OF that(2)] that(3) by (simp add: phi_ok_def)
    moreover have "\<not> pending (pc s) i" using that(1,2) unfolding pending_def by (auto simp: in_cs_def)
    ultimately show ?thesis using o(4) that(2) by (auto simp: waits_ok_def)
  qed
  have take: "\<exists>s'. phi_step s s'" if "k < N" "pc s k \<notin> {TakeWait, SelfWait, PutWait}" for k
  proof -
    have "phi_take_forks_sema k s \<noteq> None \<or> phi_put_forks_sema k s \<noteq> None"
      using that(2) by (cases "pc s k") (simp_all add: phi_take_forks_sema_def phi_put_forks_sema_def)
    then show ?thesis using that(1) by (auto intro: phi_step.intros)
  qed
  have "\<exists>k<N. pc s k \<notin> {TakeWait, SelfWait, PutWait}"
  proof (cases "\<exists>k<N. in_cs (pc s k)")
    case True
    then show ?thesis by (auto simp: in_cs_def)
  next
    case False
    then have free: "\<forall>k<N. \<not> in_cs (pc s k) \<and> \<not> m_waits (pc s k)" using o(1) by (auto simp: mutex_ok_def)
    have "\<exists>k<N. pc s k \<noteq> SelfWait"
    proof (rule ccontr)
      assume "\<not> (\<exists>k<N. pc s k \<noteq> SelfWait)"
      then have all: "pc s k = SelfWait" if "k < N" for k using that by blast
      have n: "0 < N" by (simp add: N_def)
      then have "state_sema s (LEFT 0) = EATING \<or> state_sema s (RIGHT 0) = EATING" using hungry [OF _ n all [OF n]] free by blast
      moreover have "state_sema s k = HUNGRY" if "k < N" for k using o(2) [OF that] all [OF that] by (simp add: phi_ok_def)
      ultimately show False using sides(1,2) [OF n] by force
    qed
    then show ?thesis using free by (auto simp: m_waits_def)
  qed
  then show ?thesis using take hungry by blast
qed

theorem dining_progress_witness: "\<exists>s'. phi_step table_eat s'"
  using dining_progress [OF table_eat_reachable] by blast

end
