(* ===== verification/Bitmap.thy ===== *)
theory Bitmap
  imports Ucore_Prelude
begin

text \<open>
  The bitmap of src/ucore_os/kern/fs/sfs/bitmap.c: an array of 32-bit words in which a set bit is a free
  index. The two calls of \<open>kmalloc\<close> in \<open>bitmap_create\<close> are the argument \<open>alloc\<close>, which says for a
  size whether the allocation succeeds.

  The abstraction \<open>free_bits\<close> is the set of free indices; \<open>bitmap_ok\<close> is the invariant, that the array
  has \<open>nwords\<close> words and that no bit past \<open>nbits\<close> is set.
\<close>

definition WORD_BITS :: nat where "WORD_BITS = 32"

record bitmap =
  nbits :: nat
  nwords :: nat
  bm_map :: "u32 list"

text \<open>The loop that marks the bits left over in the last word as in use.\<close>

function clear_over :: "nat \<Rightarrow> u32 \<Rightarrow> u32" where
  "clear_over overbits w = (if overbits < WORD_BITS then clear_over (overbits + 1) (w XOR push_bit overbits 1) else w)"
  by auto
termination by (relation "measure (\<lambda>(o', w). WORD_BITS - o')") auto

declare clear_over.simps [simp del]

definition bitmap_create :: "(nat \<Rightarrow> bool) \<Rightarrow> u32 \<Rightarrow> bitmap option option" where
  "bitmap_create alloc nb = do {
     kassert (nb \<noteq> 0 \<and> nb + 32 > nb);
     if \<not> alloc 12 then Some None
     else do {
       let nwords = unat (ROUNDUP_DIV nb 32);
       if \<not> alloc (4 * nwords) then Some None
       else do {
         let map = replicate nwords (- 1);
         if unat nb \<noteq> nwords * WORD_BITS then do {
           let ix = nwords - 1;
           let overbits = unat nb - ix * WORD_BITS;
           kassert (unat nb div WORD_BITS = ix);
           kassert (overbits > 0 \<and> overbits < WORD_BITS);
           Some (Some \<lparr>nbits = unat nb, nwords = nwords, bm_map = map[ix := clear_over overbits (map ! ix)]\<rparr>)
         }
         else Some (Some \<lparr>nbits = unat nb, nwords = nwords, bm_map = map\<rparr>)
       }
     }
   }"

text \<open>The inner loop of \<open>bitmap_alloc\<close>: the first set bit of a word; the loop that finds none runs into \<open>assert(0)\<close>.\<close>

function alloc_bit :: "nat \<Rightarrow> u32 \<Rightarrow> nat option" where
  "alloc_bit offset w =
     (if offset < WORD_BITS then if w AND push_bit offset 1 \<noteq> 0 then Some offset else alloc_bit (offset + 1) w
      else None)"
  by auto
termination by (relation "measure (\<lambda>(o', w). WORD_BITS - o')") auto

declare alloc_bit.simps [simp del]

function alloc_word :: "nat \<Rightarrow> bitmap \<Rightarrow> (int \<times> nat \<times> bitmap) option" where
  "alloc_word ix b =
     (if ix < nwords b then
        if bm_map b ! ix \<noteq> 0 then do {
          offset \<leftarrow> alloc_bit 0 (bm_map b ! ix);
          Some (0, ix * WORD_BITS + offset, b\<lparr>bm_map := (bm_map b)[ix := (bm_map b ! ix) XOR push_bit offset 1]\<rparr>)
        }
        else alloc_word (ix + 1) b
      else Some (- E_NO_MEM, 0, b))"
  by auto
termination by (relation "measure (\<lambda>(ix, b). nwords b - ix)") auto

declare alloc_word.simps [simp del]

definition bitmap_alloc :: "bitmap \<Rightarrow> (int \<times> nat \<times> bitmap) option" where
  "bitmap_alloc b = alloc_word 0 b"

definition bitmap_translate :: "bitmap \<Rightarrow> nat \<Rightarrow> (nat \<times> u32) option" where
  "bitmap_translate b index = do {
     kassert (index < nbits b);
     Some (index div WORD_BITS, push_bit (index mod WORD_BITS) 1)
   }"

definition bitmap_test :: "bitmap \<Rightarrow> nat \<Rightarrow> bool option" where
  "bitmap_test b index = do {
     (word, mask) \<leftarrow> bitmap_translate b index;
     Some (bm_map b ! word AND mask \<noteq> 0)
   }"

definition bitmap_free :: "bitmap \<Rightarrow> nat \<Rightarrow> bitmap option" where
  "bitmap_free b index = do {
     (word, mask) \<leftarrow> bitmap_translate b index;
     kassert (bm_map b ! word AND mask = 0);
     Some (b\<lparr>bm_map := (bm_map b)[word := (bm_map b ! word) OR mask]\<rparr>)
   }"

definition bitmap_getdata :: "bitmap \<Rightarrow> u32 list \<times> nat" where
  "bitmap_getdata b = (bm_map b, 4 * nwords b)"

section \<open>The bitmap as a set\<close>

definition free_bits :: "bitmap \<Rightarrow> nat set" where
  "free_bits b = {i. i < nwords b * WORD_BITS \<and> bit (bm_map b ! (i div WORD_BITS)) (i mod WORD_BITS)}"

definition bitmap_ok :: "bitmap \<Rightarrow> bool" where
  "bitmap_ok b \<longleftrightarrow> length (bm_map b) = nwords b \<and> nbits b \<le> nwords b * WORD_BITS \<and> free_bits b \<subseteq> {..<nbits b}"

lemma and_push_bit_1: "w AND push_bit n 1 \<noteq> 0 \<longleftrightarrow> bit w n" if "n < 32" for w :: u32
proof -
  have "w AND push_bit n 1 = (if bit w n then push_bit n 1 else 0)"
    by (rule bit_word_eqI) (auto simp: bit_simps)
  moreover have "push_bit n (1 :: u32) \<noteq> 0" using that by (auto simp: bit_eq_iff bit_simps)
  ultimately show ?thesis by auto
qed

lemma free_bits_iff: "bitmap_ok b \<Longrightarrow> i < nbits b \<Longrightarrow> i \<in> free_bits b \<longleftrightarrow> bit (bm_map b ! (i div WORD_BITS)) (i mod WORD_BITS)"
  by (auto simp: free_bits_def bitmap_ok_def)

lemma bitmap_test_ok: "bitmap_ok b \<Longrightarrow> i < nbits b \<Longrightarrow> bitmap_test b i = Some (i \<in> free_bits b)"
  using and_push_bit_1 [of "i mod 32" "bm_map b ! (i div 32)"]
  by (simp add: bitmap_test_def bitmap_translate_def free_bits_iff WORD_BITS_def)

text \<open>Changing one bit of one word.\<close>

lemma div_mod_eq_iff_eq: "i div k = j div k \<Longrightarrow> i = j \<longleftrightarrow> i mod k = j mod k" for i j k :: nat
  using div_mult_mod_eq [of i k] div_mult_mod_eq [of j k] by auto

lemma free_bits_upd:
  assumes len: "length (bm_map b) = nwords b" and i: "i < nwords b * WORD_BITS"
    and w: "\<And>n. n < 32 \<Longrightarrow> bit w n = (if n = i mod WORD_BITS then v else bit (bm_map b ! (i div WORD_BITS)) n)"
  shows "free_bits (b\<lparr>bm_map := (bm_map b)[i div WORD_BITS := w]\<rparr>) = (if v then insert i (free_bits b) else free_bits b - {i})"
proof -
  have len': "i div WORD_BITS < length (bm_map b)" unfolding len using i by (rule less_mult_imp_div_less)
  have e: "j \<in> free_bits (b\<lparr>bm_map := (bm_map b)[i div WORD_BITS := w]\<rparr>) \<longleftrightarrow> (if j = i then v else j \<in> free_bits b)" for j
  proof (cases "j div WORD_BITS = i div WORD_BITS")
    case True
    have ji: "j = i \<longleftrightarrow> j mod WORD_BITS = i mod WORD_BITS" using True by (rule div_mod_eq_iff_eq)
    have "j div WORD_BITS < nwords b" unfolding True using i by (rule less_mult_imp_div_less)
    then have "j < nwords b * WORD_BITS" by (simp add: WORD_BITS_def div_less_iff_less_mult)
    moreover have "j mod WORD_BITS < 32" by (simp add: WORD_BITS_def)
    ultimately show ?thesis using w [of "j mod WORD_BITS"] ji True len' unfolding free_bits_def by simp
  next
    case False
    then have "j \<noteq> i" "(bm_map b)[i div WORD_BITS := w] ! (j div WORD_BITS) = bm_map b ! (j div WORD_BITS)" by (auto intro: nth_list_update_neq)
    then show ?thesis unfolding free_bits_def by simp
  qed
  show ?thesis by (rule set_eqI, cases v) (simp_all add: e)
qed

lemma bitmap_free_ok:
  assumes ok: "bitmap_ok b" and i: "i < nbits b" "i \<notin> free_bits b"
  shows "\<exists>b'. bitmap_free b i = Some b' \<and> bitmap_ok b' \<and> free_bits b' = insert i (free_bits b) \<and> nbits b' = nbits b \<and> nwords b' = nwords b"
proof -
  define b' where "b' = b\<lparr>bm_map := (bm_map b)[i div WORD_BITS := (bm_map b ! (i div WORD_BITS)) OR push_bit (i mod WORD_BITS) 1]\<rparr>"
  have r: "bitmap_free b i = Some b'"
    using i free_bits_iff [OF ok i(1)] and_push_bit_1 [of "i mod 32" "bm_map b ! (i div 32)"]
    by (simp add: bitmap_free_def bitmap_translate_def b'_def WORD_BITS_def)
  have "free_bits b' = insert i (free_bits b)"
    using free_bits_upd [of b i _ True] ok i(1) by (auto simp: b'_def bitmap_ok_def bit_simps WORD_BITS_def)
  then show ?thesis using r ok i(1) by (auto simp: bitmap_ok_def b'_def)
qed

lemma bit_all_zero: "(\<forall>n<32. \<not> bit w n) \<longleftrightarrow> w = 0" for w :: u32
proof
  assume "\<forall>n<32. \<not> bit w n"
  then show "w = 0" by (intro bit_word_eqI) simp
qed simp

lemma alloc_bit_ok:
  assumes "\<exists>n<32. offset \<le> n \<and> bit w n"
  shows "\<exists>n<32. alloc_bit offset w = Some n \<and> bit w n \<and> offset \<le> n \<and> (\<forall>m. offset \<le> m \<longrightarrow> m < n \<longrightarrow> \<not> bit w m)"
  using assms
proof (induction offset w rule: alloc_bit.induct)
  case (1 offset w)
  have lt: "offset < WORD_BITS" using "1.prems" by (auto simp: WORD_BITS_def)
  show ?case
  proof (cases "bit w offset")
    case True
    then have "alloc_bit offset w = Some offset" using lt and_push_bit_1 [of offset w] by (simp add: alloc_bit.simps [of offset] WORD_BITS_def)
    then show ?thesis using True lt by (intro exI [of _ offset]) (simp add: WORD_BITS_def)
  next
    case False
    then have z: "w AND push_bit offset 1 = 0" and e: "alloc_bit offset w = alloc_bit (offset + 1) w"
      using lt and_push_bit_1 [of offset w] by (auto simp: alloc_bit.simps [of offset] WORD_BITS_def)
    have "\<exists>n<32. offset + 1 \<le> n \<and> bit w n" using "1.prems" False by (metis Suc_eq_plus1 Suc_leI le_neq_implies_less)
    from "1.IH" [OF lt _ this] z obtain n where "n < 32" "alloc_bit (offset + 1) w = Some n" "bit w n" "offset + 1 \<le> n"
      "\<forall>m. offset + 1 \<le> m \<longrightarrow> m < n \<longrightarrow> \<not> bit w m" by auto
    then show ?thesis using e False by (metis Suc_eq_plus1 Suc_leI add_leD1 le_neq_implies_less)
  qed
qed

definition least_free :: "bitmap \<Rightarrow> nat \<Rightarrow> bool" where
  "least_free b i \<longleftrightarrow> i \<in> free_bits b \<and> (\<forall>j\<in>free_bits b. i \<le> j)"

lemma alloc_word_ok:
  assumes ok: "bitmap_ok b" and below: "\<forall>i\<in>free_bits b. ix * WORD_BITS \<le> i"
  shows "if free_bits b = {} then alloc_word ix b = Some (- E_NO_MEM, 0, b)
    else \<exists>i b'. alloc_word ix b = Some (0, i, b') \<and> least_free b i \<and> bitmap_ok b' \<and> free_bits b' = free_bits b - {i} \<and> nbits b' = nbits b \<and> nwords b' = nwords b"
  using below ok
proof (induction ix b rule: alloc_word.induct)
  case (1 ix b)
  have len: "length (bm_map b) = nwords b" using "1.prems"(2) by (simp add: bitmap_ok_def)
  consider "nwords b \<le> ix" | "ix < nwords b" "bm_map b ! ix = 0" | "ix < nwords b" "bm_map b ! ix \<noteq> 0" by linarith
  then show ?case
  proof cases
    case 1
    then have "nwords b * WORD_BITS \<le> ix * WORD_BITS" by simp
    moreover have "\<forall>i\<in>free_bits b. i < nwords b * WORD_BITS" by (simp add: free_bits_def)
    ultimately have "free_bits b = {}" using "1.prems"(1) by (meson equals0I leD order.trans)
    then show ?thesis using 1 by (simp add: alloc_word.simps [of ix])
  next
    case 2
    have ge: "(ix + 1) * WORD_BITS \<le> i" if i: "i \<in> free_bits b" for i
    proof -
      have "ix \<le> i div WORD_BITS" using "1.prems"(1) i by (simp add: WORD_BITS_def less_eq_div_iff_mult_less_eq)
      moreover have "i div WORD_BITS \<noteq> ix" using i 2(2) by (auto simp: free_bits_def)
      ultimately have "ix + 1 \<le> i div WORD_BITS" by simp
      then show ?thesis by (simp add: WORD_BITS_def less_eq_div_iff_mult_less_eq)
    qed
    have e: "alloc_word ix b = alloc_word (ix + 1) b" using 2 by (subst alloc_word.simps) simp
    show ?thesis unfolding e using 2 ge "1.prems"(2) by (intro "1.IH") auto
  next
    case 3
    let ?w = "bm_map b ! ix"
    obtain n where n: "n < 32" "alloc_bit 0 ?w = Some n" "bit ?w n" "\<And>m. m < n \<Longrightarrow> \<not> bit ?w m"
      using alloc_bit_ok [of 0 ?w] 3(2) bit_all_zero [of ?w] by auto
    define i where "i = ix * WORD_BITS + n"
    have i: "i div WORD_BITS = ix" "i mod WORD_BITS = n" "i < nwords b * WORD_BITS"
      using n(1) 3(1) by (simp_all add: i_def WORD_BITS_def)
    define b' where "b' = b\<lparr>bm_map := (bm_map b)[ix := ?w XOR push_bit n 1]\<rparr>"
    have run: "alloc_word ix b = Some (0, i, b')" using 3 n(2) by (simp add: alloc_word.simps [of ix] b'_def i_def)
    have mem: "i \<in> free_bits b" using i n(3) by (simp add: free_bits_def)
    have "i \<le> j" if j: "j \<in> free_bits b" for j
    proof (rule ccontr)
      assume "\<not> i \<le> j"
      moreover have "ix * WORD_BITS \<le> j" using "1.prems"(1) j by blast
      then obtain r where r: "j = ix * WORD_BITS + r" using le_Suc_ex by blast
      ultimately have "r < n" by (simp add: i_def)
      then have "j div WORD_BITS = ix" "j mod WORD_BITS < n" using n(1) by (simp_all add: r WORD_BITS_def)
      then show False using j n(4) by (auto simp: free_bits_def)
    qed
    moreover have fb: "free_bits b' = free_bits b - {i}"
      using free_bits_upd [OF len i(3), of "?w XOR push_bit n 1" False] n(3) unfolding b'_def i(1,2)
      by (auto simp: bit_simps)
    moreover have "bitmap_ok b'" using "1.prems"(2) fb by (auto simp: bitmap_ok_def b'_def)
    ultimately show ?thesis using run mem by (auto simp: least_free_def b'_def)
  qed
qed

text \<open>
  C33: \<open>bitmap_alloc\<close> returns. On a well-formed bitmap it reports \<open>-E_NO_MEM\<close> exactly when no index is free, and
  otherwise hands out the smallest free index, which stops being free; every other index keeps its state.
\<close>

theorem bitmap_alloc_least:
  assumes "bitmap_ok b"
  shows "if free_bits b = {} then bitmap_alloc b = Some (- E_NO_MEM, 0, b)
    else \<exists>i b'. bitmap_alloc b = Some (0, i, b') \<and> i \<in> free_bits b \<and> (\<forall>j\<in>free_bits b. i \<le> j) \<and> i < nbits b \<and>
      bitmap_ok b' \<and> free_bits b' = free_bits b - {i} \<and> nbits b' = nbits b"
proof (cases "free_bits b = {}")
  case True
  then show ?thesis using alloc_word_ok [OF assms, of 0] by (simp add: bitmap_alloc_def)
next
  case False
  then obtain i b' where "alloc_word 0 b = Some (0, i, b')" "least_free b i" "bitmap_ok b'" "free_bits b' = free_bits b - {i}" "nbits b' = nbits b"
    using alloc_word_ok [OF assms, of 0] by auto
  moreover have "free_bits b \<subseteq> {..<nbits b}" using assms by (simp add: bitmap_ok_def)
  ultimately show ?thesis using False by (auto simp: bitmap_alloc_def least_free_def)
qed

theorem bitmap_alloc_least_witness:
  "\<exists>b'. bitmap_alloc \<lparr>nbits = 40, nwords = 2, bm_map = [0, 0x30]\<rparr> = Some (0, 36, b') \<and> 37 \<in> free_bits b' \<and> 36 \<notin> free_bits b'"
proof -
  let ?b = "\<lparr>nbits = 40, nwords = 2, bm_map = [0, 0x30]\<rparr>"
  have e: "(0x30 :: u32) = push_bit 4 1 OR push_bit 5 1" by simp
  have b: "bit (0x30 :: u32) n \<longleftrightarrow> n = 4 \<or> n = 5" for n unfolding e by (auto simp: bit_simps simp del: push_bit_of_1)
  have w: "i \<in> free_bits ?b \<longleftrightarrow> i = 36 \<or> i = 37" for i
  proof (cases "i div 32")
    case 0
    then show ?thesis by (auto simp: free_bits_def WORD_BITS_def)
  next
    case (Suc k)
    then have "i = 32 * Suc k + i mod 32" using div_mult_mod_eq [of i 32] by simp
    moreover have "i mod 32 < 32" by simp
    ultimately have "i < 64 \<longleftrightarrow> k = 0" "k = 0 \<longrightarrow> i = 32 + i mod 32" by auto
    then show ?thesis using Suc b [of "i mod 32"] by (auto simp: free_bits_def WORD_BITS_def)
  qed
  have "bitmap_ok ?b" by (auto simp: bitmap_ok_def WORD_BITS_def w)
  from bitmap_alloc_least [OF this] have "if free_bits ?b = {} then bitmap_alloc ?b = Some (- E_NO_MEM, 0, ?b)
    else \<exists>i b'. bitmap_alloc ?b = Some (0, i, b') \<and> i \<in> free_bits ?b \<and> (\<forall>j\<in>free_bits ?b. i \<le> j) \<and> i < nbits ?b \<and>
      bitmap_ok b' \<and> free_bits b' = free_bits ?b - {i} \<and> nbits b' = nbits ?b" .
  moreover have ne: "free_bits ?b \<noteq> {}" using w by blast
  ultimately obtain i b' where r: "bitmap_alloc ?b = Some (0, i, b')" "i \<in> free_bits ?b" "\<forall>j\<in>free_bits ?b. i \<le> j" "free_bits b' = free_bits ?b - {i}"
    by auto
  have "i \<le> 36" using r(3) w [of 36] by blast
  then have i: "i = 36" using r(2) w [of i] by auto
  have "37 \<in> free_bits b'" "36 \<notin> free_bits b'" unfolding r(4) i using w [of 37] by auto
  then show ?thesis using r(1) unfolding i by blast
qed

section \<open>Creation\<close>

lemma bit_clear_over:
  assumes "n < 32"
  shows "bit (clear_over overbits w) n = (if overbits \<le> n then \<not> bit w n else bit w n)"
  using assms
proof (induction overbits w rule: clear_over.induct)
  case (1 overbits w)
  show ?case
  proof (cases "overbits < WORD_BITS")
    case True
    then have "clear_over overbits w = clear_over (overbits + 1) (w XOR push_bit overbits 1)" by (simp add: clear_over.simps [of overbits])
    then show ?thesis using "1.IH" [OF True "1.prems"] "1.prems" by (auto simp: bit_simps)
  next
    case False
    then show ?thesis using "1.prems" by (simp add: clear_over.simps WORD_BITS_def)
  qed
qed

lemma unat_ROUNDUP_DIV:
  assumes "unat a + unat n \<le> 2 ^ 32" and "n \<noteq> 0"
  shows "unat (ROUNDUP_DIV a n) = (unat a + unat n - 1) div unat n"
proof -
  have n: "unat n \<noteq> 0" using assms(2) by (simp add: unat_eq_zero)
  have e: "a + n - 1 = a + (n - 1)" by simp
  have n1: "unat (n - 1) = unat n - 1" using assms(2) by (rule unat_minus_one)
  have "unat (a + (n - 1)) = unat a + (unat n - 1)"
    using assms(1) n n1 by (subst unat_add_lem [THEN iffD1]) auto
  then show ?thesis using n by (simp add: ROUNDUP_DIV_def e unat_div)
qed

lemma bitmap_create_ok:
  assumes nb: "nb \<noteq> 0" "unat nb + 32 < 2 ^ 32" and al: "\<And>n. alloc n"
  shows "\<exists>b. bitmap_create alloc nb = Some (Some b) \<and> bitmap_ok b \<and> nbits b = unat nb \<and> nwords b = (unat nb + 31) div 32 \<and> free_bits b = {..<unat nb}"
proof -
  define k where "k = unat nb"
  define nw where "nw = (k + 31) div 32"
  have k: "0 < k" using nb(1) by (simp add: k_def unat_gt_0)
  have nw: "unat (ROUNDUP_DIV nb 32) = nw" using unat_ROUNDUP_DIV [of nb 32] nb(2) by (simp add: nw_def k_def)
  have gt: "nb + 32 > nb" using nb(2) by (simp add: word_less_nat_alt unat_word_ariths)
  have lt: "nw * 32 < k + 32" "k \<le> nw * 32" using k div_mult_mod_eq [of "k + 31" 32] mod_less_divisor [of 32 "k + 31"] unfolding nw_def by linarith+
  define m where "m = replicate nw (- 1 :: u32)"
  define b where "b = (if k \<noteq> nw * 32 then \<lparr>nbits = k, nwords = nw, bm_map = m[nw - 1 := clear_over (k - (nw - 1) * 32) (m ! (nw - 1))]\<rparr>
    else \<lparr>nbits = k, nwords = nw, bm_map = m\<rparr>)"
  have "k div 32 = nw - 1" if "k \<noteq> nw * 32" using that lt by (intro div_nat_eqI) (cases nw; simp)+
  then have run: "bitmap_create alloc nb = Some (Some b)"
    using nb(1) gt al lt by (cases nw) (auto simp: bitmap_create_def nw Let_def WORD_BITS_def b_def m_def simp flip: k_def)
  have "i \<in> free_bits b \<longleftrightarrow> i < k" for i
  proof -
    consider "nw * 32 \<le> i" | "i < nw * 32" "i div 32 \<noteq> nw - 1" | "i < nw * 32" "i div 32 = nw - 1" by linarith
    then show ?thesis
    proof cases
      case 1
      then show ?thesis using lt(2) by (auto simp: free_bits_def b_def WORD_BITS_def)
    next
      case 2
      then have "i div 32 < nw" by (simp add: less_mult_imp_div_less)
      then have "i div 32 < nw - 1" using 2(2) by simp
      then have "i < (nw - 1) * 32" by (simp add: div_less_iff_less_mult)
      moreover have "bm_map b ! (i div 32) = - 1" "nwords b = nw" using 2(2) \<open>i div 32 < nw\<close> by (simp_all add: b_def m_def)
      ultimately show ?thesis using 2(1) lt(1) by (simp add: free_bits_def WORD_BITS_def)
    next
      case 3
      have "nw - 1 < nw" using 3(1) by (cases nw) simp_all
      moreover have "k - (nw - 1) * 32 \<le> i mod 32 \<longleftrightarrow> k \<le> i" using 3(2) div_mult_mod_eq [of i 32] by linarith
      ultimately show ?thesis using 3 lt bit_clear_over [of "i mod 32"] by (auto simp: free_bits_def b_def m_def WORD_BITS_def)
    qed
  qed
  then have "free_bits b = {..<k}" by auto
  then show ?thesis using run lt(2) by (auto simp: bitmap_ok_def b_def m_def WORD_BITS_def nw_def simp flip: k_def)
qed

end
