(* ===== verification/Ide.thy ===== *)
theory Ide
  imports Ucore_Prelude
begin

text \<open>
  The sector transfer loops of src/ucore_os/kern/driver/ide.c. The drives are the hardware: their
  sectors of 128 words, and the set of sectors for which \<open>ide_wait_ready\<close> reports an error.
  A transfer stops at the first failing sector and keeps what was transferred before it.
\<close>

record ide_drives =
  ide_valid :: "nat \<Rightarrow> bool"
  ide_size :: "nat \<Rightarrow> nat"
  ide_data :: "nat \<Rightarrow> nat \<Rightarrow> nat \<Rightarrow> u32"
  ide_bad :: "nat \<Rightarrow> nat \<Rightarrow> bool"

definition MAX_NSECS :: nat where "MAX_NSECS = 128"
definition MAX_DISK_NSECS :: nat where "MAX_DISK_NSECS = 0x10000000"
definition MAX_IDE :: nat where "MAX_IDE = 4"
definition SECTWORDS :: nat where "SECTWORDS = 128"

definition VALID_IDE :: "nat \<Rightarrow> ide_drives \<Rightarrow> bool" where
  "VALID_IDE ideno d \<longleftrightarrow> ideno < MAX_IDE \<and> ide_valid d ideno"

definition ide_device_size :: "nat \<Rightarrow> ide_drives \<Rightarrow> nat" where
  "ide_device_size ideno d = (if VALID_IDE ideno d then ide_size d ideno else 0)"

definition ide_wait_ready :: "nat \<Rightarrow> nat \<Rightarrow> ide_drives \<Rightarrow> int" where
  "ide_wait_ready ideno secno d = (if ide_bad d ideno secno then - 1 else 0)"

text \<open>The loops, with the offset of the buffer in words.\<close>

fun ide_read_loop :: "nat \<Rightarrow> nat \<Rightarrow> nat \<Rightarrow> nat \<Rightarrow> (nat \<Rightarrow> u32) \<Rightarrow> ide_drives \<Rightarrow> int \<times> (nat \<Rightarrow> u32)" where
  "ide_read_loop ideno secno 0 off dst d = (0, dst)"
| "ide_read_loop ideno secno (Suc k) off dst d =
     (if ide_wait_ready ideno secno d \<noteq> 0 then (ide_wait_ready ideno secno d, dst)
      else ide_read_loop ideno (Suc secno) k (off + SECTWORDS)
        (\<lambda>i. if off \<le> i \<and> i < off + SECTWORDS then ide_data d ideno secno (i - off) else dst i) d)"

definition ide_read_secs :: "nat \<Rightarrow> nat \<Rightarrow> (nat \<Rightarrow> u32) \<Rightarrow> nat \<Rightarrow> ide_drives \<Rightarrow> (int \<times> (nat \<Rightarrow> u32)) option" where
  "ide_read_secs ideno secno dst nsecs d = do {
     kassert (nsecs \<le> MAX_NSECS \<and> VALID_IDE ideno d);
     kassert (secno < MAX_DISK_NSECS \<and> secno + nsecs \<le> MAX_DISK_NSECS);
     Some (ide_read_loop ideno secno nsecs 0 dst d)
   }"

fun ide_write_loop :: "nat \<Rightarrow> nat \<Rightarrow> nat \<Rightarrow> nat \<Rightarrow> (nat \<Rightarrow> u32) \<Rightarrow> ide_drives \<Rightarrow> int \<times> ide_drives" where
  "ide_write_loop ideno secno 0 off src d = (0, d)"
| "ide_write_loop ideno secno (Suc k) off src d =
     (if ide_wait_ready ideno secno d \<noteq> 0 then (ide_wait_ready ideno secno d, d)
      else ide_write_loop ideno (Suc secno) k (off + SECTWORDS) src
        (d\<lparr>ide_data := (ide_data d)(ideno := (ide_data d ideno)(secno := \<lambda>i. src (off + i)))\<rparr>))"

definition ide_write_secs :: "nat \<Rightarrow> nat \<Rightarrow> (nat \<Rightarrow> u32) \<Rightarrow> nat \<Rightarrow> ide_drives \<Rightarrow> (int \<times> ide_drives) option" where
  "ide_write_secs ideno secno src nsecs d = do {
     kassert (nsecs \<le> MAX_NSECS \<and> VALID_IDE ideno d);
     kassert (secno < MAX_DISK_NSECS \<and> secno + nsecs \<le> MAX_DISK_NSECS);
     Some (ide_write_loop ideno secno nsecs 0 src d)
   }"

text \<open>A transfer over good sectors, word by word.\<close>

lemma ide_write_loop_ok:
  assumes "\<forall>i<k. \<not> ide_bad d ideno (secno + i)"
  shows "\<exists>d'. ide_write_loop ideno secno k off src d = (0, d') \<and>
    d' = d\<lparr>ide_data := ide_data d'\<rparr> \<and>
    (\<forall>j<k. \<forall>i. ide_data d' ideno (secno + j) i = src (off + j * SECTWORDS + i)) \<and>
    (\<forall>dv sec. dv \<noteq> ideno \<or> sec < secno \<or> secno + k \<le> sec \<longrightarrow> ide_data d' dv sec = ide_data d dv sec)"
  using assms
proof (induction k arbitrary: secno off d)
  case (Suc k)
  let ?d = "d\<lparr>ide_data := (ide_data d)(ideno := (ide_data d ideno)(secno := \<lambda>i. src (off + i)))\<rparr>"
  have ok: "\<not> ide_bad d ideno secno" using Suc.prems by force
  have "\<forall>i<k. \<not> ide_bad ?d ideno (Suc secno + i)" using Suc.prems by auto
  from Suc.IH [OF this, of "off + SECTWORDS"] obtain d' where
    d': "ide_write_loop ideno (Suc secno) k (off + SECTWORDS) src ?d = (0, d')"
      "d' = ?d\<lparr>ide_data := ide_data d'\<rparr>"
      "\<forall>j<k. \<forall>i. ide_data d' ideno (Suc secno + j) i = src (off + SECTWORDS + j * SECTWORDS + i)"
      "\<forall>dv sec. dv \<noteq> ideno \<or> sec < Suc secno \<or> Suc secno + k \<le> sec \<longrightarrow> ide_data d' dv sec = ide_data ?d dv sec"
    by blast
  have "ide_data d' ideno (secno + j) i = src (off + j * SECTWORDS + i)" if "j < Suc k" for j i
    using d'(3,4) that by (cases j) (simp_all add: algebra_simps)
  moreover have "d' = d\<lparr>ide_data := ide_data d'\<rparr>" by (subst d'(2)) simp
  ultimately show ?case using ok d'(1,4) by (intro exI [of _ d']) (auto simp: ide_wait_ready_def)
qed simp

lemma ide_read_loop_ok:
  assumes "\<forall>i<k. \<not> ide_bad d ideno (secno + i)"
  shows "\<exists>r. ide_read_loop ideno secno k off dst d = (0, r) \<and>
    (\<forall>j<k. \<forall>i<SECTWORDS. r (off + j * SECTWORDS + i) = ide_data d ideno (secno + j) i) \<and>
    (\<forall>i. i < off \<or> off + k * SECTWORDS \<le> i \<longrightarrow> r i = dst i)"
  using assms
proof (induction k arbitrary: secno off dst)
  case (Suc k)
  let ?dst = "\<lambda>i. if off \<le> i \<and> i < off + SECTWORDS then ide_data d ideno secno (i - off) else dst i"
  have ok: "\<not> ide_bad d ideno secno" using Suc.prems by force
  have "\<forall>i<k. \<not> ide_bad d ideno (Suc secno + i)" using Suc.prems by auto
  from Suc.IH [OF this, of "off + SECTWORDS" ?dst] obtain r where
    r: "ide_read_loop ideno (Suc secno) k (off + SECTWORDS) ?dst d = (0, r)"
      "\<forall>j<k. \<forall>i<SECTWORDS. r (off + SECTWORDS + j * SECTWORDS + i) = ide_data d ideno (Suc secno + j) i"
      "\<forall>i. i < off + SECTWORDS \<or> off + SECTWORDS + k * SECTWORDS \<le> i \<longrightarrow> r i = ?dst i"
    by blast
  have "r (off + j * SECTWORDS + i) = ide_data d ideno (secno + j) i" if "j < Suc k" "i < SECTWORDS" for j i
  proof (cases j)
    case 0
    then show ?thesis using r(3) that by simp
  next
    case (Suc m)
    then have "r (off + SECTWORDS + m * SECTWORDS + i) = ide_data d ideno (Suc secno + m) i" using r(2) that by simp
    then show ?thesis by (simp add: Suc add.assoc)
  qed
  then show ?case using ok r(1,3) by (intro exI [of _ r]) (auto simp: ide_wait_ready_def)
qed simp

text \<open>What was written to good sectors is read back.\<close>

lemma ide_write_read:
  assumes "\<forall>i<k. \<not> ide_bad d ideno (secno + i)" and w: "ide_write_loop ideno secno k 0 src d = (r, d')"
  shows "\<exists>buf. ide_read_loop ideno secno k 0 dst d' = (0, buf) \<and> (\<forall>i<k * SECTWORDS. buf i = src i)"
proof -
  from ide_write_loop_ok [OF assms(1), of 0 src] w
  have d': "d' = d\<lparr>ide_data := ide_data d'\<rparr>"
    and dat: "\<forall>j<k. \<forall>i. ide_data d' ideno (secno + j) i = src (j * SECTWORDS + i)" by auto
  have "ide_bad d' = ide_bad d" by (subst d') simp
  then have "\<forall>i<k. \<not> ide_bad d' ideno (secno + i)" using assms(1) by simp
  from ide_read_loop_ok [OF this, of 0 dst] obtain buf where buf: "ide_read_loop ideno secno k 0 dst d' = (0, buf)"
    "\<forall>j<k. \<forall>i<SECTWORDS. buf (j * SECTWORDS + i) = ide_data d' ideno (secno + j) i" by auto
  have "buf i = src i" if "i < k * SECTWORDS" for i
  proof -
    have "i div SECTWORDS < k" "i mod SECTWORDS < SECTWORDS"
      using that by (auto simp: less_mult_imp_div_less SECTWORDS_def)
    then show ?thesis using buf(2) dat by (metis div_mult_mod_eq)
  qed
  then show ?thesis using buf(1) by blast
qed

end
