(* ===== verification/Devs.thy ===== *)
theory Devs
  imports Ide
begin

text \<open>
  The VFS devices, src/ucore_os/kern/fs/iobuf.c and kern/fs/devs/: I/O buffers, and the disk, the
  keyboard and the screen as devices.

  An \<open>iobuf\<close> carries the memory behind it as a list of bytes, and \<open>io_base\<close> is a position in it;
  \<open>size_t\<close> values are natural numbers, an \<open>off_t\<close> is an integer, block numbers keep their 32 bits.
  The semaphore \<open>disk0_sem\<close> only serialises transfers; each transfer is one step of the model.

  A read from the keyboard that finds the buffer empty sleeps in the wait queue. What happens until the
  reader runs again is the next element of \<open>kbd\<close>: characters come in and the reader is woken up with
  \<open>WT_KBD\<close>, or it is woken up for another reason. With no such element the reader sleeps for ever.
\<close>

section \<open>Bytes\<close>

definition le32 :: "u32 \<Rightarrow> u8 list" where
  "le32 w = [ucast w, ucast (drop_bit 8 w), ucast (drop_bit 16 w), ucast (drop_bit 24 w)]"

definition of_le32 :: "u8 list \<Rightarrow> u32" where
  "of_le32 bs = ucast (bs ! 0) OR push_bit 8 (ucast (bs ! 1)) OR push_bit 16 (ucast (bs ! 2)) OR push_bit 24 (ucast (bs ! 3))"

definition le16 :: "u16 \<Rightarrow> u8 list" where
  "le16 w = [ucast w, ucast (drop_bit 8 w)]"

definition of_le16 :: "u8 list \<Rightarrow> u16" where
  "of_le16 bs = ucast (bs ! 0) OR push_bit 8 (ucast (bs ! 1))"

definition bytes_of :: "nat \<Rightarrow> (nat \<Rightarrow> u32) \<Rightarrow> u8 list" where
  "bytes_of n w = concat (map (\<lambda>i. le32 (w i)) [0..<n])"

definition words_of :: "u8 list \<Rightarrow> nat \<Rightarrow> u32" where
  "words_of bs i = of_le32 (take 4 (drop (4 * i) bs))"

definition overlay :: "'a list \<Rightarrow> nat \<Rightarrow> 'a list \<Rightarrow> 'a list" where
  "overlay xs i ys = take i xs @ ys @ drop (i + length ys) xs"

section \<open>I/O buffers\<close>

record iobuf =
  io_buf :: "u8 list"
  io_base :: nat
  io_offset :: int
  io_len :: nat
  io_resid :: nat

definition iobuf_used :: "iobuf \<Rightarrow> nat" where
  "iobuf_used iob = io_len iob - io_resid iob"

definition iobuf_init :: "u8 list \<Rightarrow> nat \<Rightarrow> nat \<Rightarrow> int \<Rightarrow> iobuf" where
  "iobuf_init buf base len offset = \<lparr>io_buf = buf, io_base = base, io_offset = offset, io_len = len, io_resid = len\<rparr>"

definition iobuf_skip :: "iobuf \<Rightarrow> nat \<Rightarrow> iobuf option" where
  "iobuf_skip iob n = do {
     kassert (io_resid iob \<ge> n);
     Some (iob\<lparr>io_base := io_base iob + n, io_offset := io_offset iob + int n, io_resid := io_resid iob - n\<rparr>)
   }"

text \<open>The result is the return value, \<open>*copiedp\<close>, the buffer and the data.\<close>

definition iobuf_move :: "iobuf \<Rightarrow> u8 list \<Rightarrow> nat \<Rightarrow> bool \<Rightarrow> (int \<times> nat \<times> iobuf \<times> u8 list) option" where
  "iobuf_move iob data len m2b =
     (let alen = (if io_resid iob > len then len else io_resid iob) in
      if alen > 0 then do {
        let (iob, data) =
          (if m2b then (iob\<lparr>io_buf := overlay (io_buf iob) (io_base iob) (take alen data)\<rparr>, data)
           else (iob, overlay data 0 (take alen (drop (io_base iob) (io_buf iob)))));
        iob \<leftarrow> iobuf_skip iob alen;
        Some (if len - alen = 0 then 0 else - E_NO_MEM, alen, iob, data)
      }
      else Some (if len = 0 then 0 else - E_NO_MEM, alen, iob, data))"

definition iobuf_move_zeros :: "iobuf \<Rightarrow> nat \<Rightarrow> (int \<times> nat \<times> iobuf) option" where
  "iobuf_move_zeros iob len =
     (let alen = (if io_resid iob > len then len else io_resid iob) in
      if alen > 0 then do {
        iob \<leftarrow> iobuf_skip (iob\<lparr>io_buf := overlay (io_buf iob) (io_base iob) (replicate alen 0)\<rparr>) alen;
        Some (if len - alen = 0 then 0 else - E_NO_MEM, alen, iob)
      }
      else Some (if len = 0 then 0 else - E_NO_MEM, alen, iob))"

section \<open>Devices\<close>

text \<open>The four function pointers of a \<open>struct device\<close> always come from one driver.\<close>

datatype dev_ops = Stdin_ops | Stdout_ops | Disk0_ops

record device =
  d_blocks :: u32
  d_blocksize :: u32
  d_ops :: dev_ops

datatype kbd_event = Typed "u8 list" | Interrupted

record devs =
  drives :: ide_drives
  disk0_buffer :: "u8 list"
  stdin_buffer :: "u8 list"
  p_rpos :: int
  p_wpos :: int
  kbd :: "kbd_event list"
  console :: "u8 list"

definition O_RDONLY :: u32 where "O_RDONLY = 0"
definition O_WRONLY :: u32 where "O_WRONLY = 1"
definition O_RDWR :: u32 where "O_RDWR = 2"
definition O_CREAT :: u32 where "O_CREAT = 4"
definition O_EXCL :: u32 where "O_EXCL = 8"
definition O_TRUNC :: u32 where "O_TRUNC = 0x10"
definition O_APPEND :: u32 where "O_APPEND = 0x20"
definition O_ACCMODE :: u32 where "O_ACCMODE = 3"

subsection \<open>disk0\<close>

definition DISK0_DEV_NO :: nat where "DISK0_DEV_NO = 2"
definition DISK0_BLKSIZE :: nat where "DISK0_BLKSIZE = 4096"
definition DISK0_BUFSIZE :: nat where "DISK0_BUFSIZE = 4 * DISK0_BLKSIZE"
definition DISK0_BLK_NSECT :: u32 where "DISK0_BLK_NSECT = 8"

definition disk0_open :: "device \<Rightarrow> u32 \<Rightarrow> int" where "disk0_open dev open_flags = 0"
definition disk0_close :: "device \<Rightarrow> int" where "disk0_close dev = 0"

definition disk0_read_blks_nolock :: "u32 \<Rightarrow> u32 \<Rightarrow> 'a devs_scheme \<Rightarrow> 'a devs_scheme option" where
  "disk0_read_blks_nolock blkno nblks s = do {
     let sectno = blkno * DISK0_BLK_NSECT;
     let nsecs = nblks * DISK0_BLK_NSECT;
     (ret, w) \<leftarrow> ide_read_secs DISK0_DEV_NO (unat sectno) (words_of (disk0_buffer s)) (unat nsecs) (drives s);
     if ret \<noteq> 0 then panic else Some (s\<lparr>disk0_buffer := bytes_of (DISK0_BUFSIZE div 4) w\<rparr>)
   }"

definition disk0_write_blks_nolock :: "u32 \<Rightarrow> u32 \<Rightarrow> 'a devs_scheme \<Rightarrow> 'a devs_scheme option" where
  "disk0_write_blks_nolock blkno nblks s = do {
     let sectno = blkno * DISK0_BLK_NSECT;
     let nsecs = nblks * DISK0_BLK_NSECT;
     (ret, d) \<leftarrow> ide_write_secs DISK0_DEV_NO (unat sectno) (words_of (disk0_buffer s)) (unat nsecs) (drives s);
     if ret \<noteq> 0 then panic else Some (s\<lparr>drives := d\<rparr>)
   }"

partial_function (option) disk0_loop :: "bool \<Rightarrow> nat \<Rightarrow> u32 \<Rightarrow> iobuf \<Rightarrow> 'a devs_scheme \<Rightarrow> (iobuf \<times> 'a devs_scheme) option" where
  "disk0_loop wr resid blkno iob s =
     (if resid = 0 then Some (iob, s)
      else if wr then do {
        (_, copied, iob, data) \<leftarrow> iobuf_move iob (disk0_buffer s) DISK0_BUFSIZE False;
        kassert (copied \<noteq> 0 \<and> copied \<le> resid \<and> copied mod DISK0_BLKSIZE = 0);
        let nblks = word_of_nat (copied div DISK0_BLKSIZE);
        s \<leftarrow> disk0_write_blks_nolock blkno nblks (s\<lparr>disk0_buffer := data\<rparr>);
        disk0_loop wr (resid - copied) (blkno + nblks) iob s
      }
      else do {
        let alen = (if DISK0_BUFSIZE > resid then resid else DISK0_BUFSIZE);
        let nblks = word_of_nat (alen div DISK0_BLKSIZE);
        s \<leftarrow> disk0_read_blks_nolock blkno nblks s;
        (_, copied, iob, _) \<leftarrow> iobuf_move iob (disk0_buffer s) alen True;
        kassert (copied = alen \<and> copied mod DISK0_BLKSIZE = 0);
        disk0_loop wr (resid - copied) (blkno + nblks) iob s
      })"

definition disk0_io :: "device \<Rightarrow> iobuf \<Rightarrow> bool \<Rightarrow> 'a devs_scheme \<Rightarrow> (int \<times> iobuf \<times> 'a devs_scheme) option" where
  "disk0_io dev iob wr s =
     (let offset = io_offset iob;
          resid = io_resid iob;
          blkno = word_of_int (offset div int DISK0_BLKSIZE);
          nblks = word_of_nat (resid div DISK0_BLKSIZE) in
      if offset mod int DISK0_BLKSIZE \<noteq> 0 \<or> resid mod DISK0_BLKSIZE \<noteq> 0 then Some (- E_INVAL, iob, s)
      else if blkno + nblks > d_blocks dev then Some (- E_INVAL, iob, s)
      else if nblks = 0 then Some (0, iob, s)
      else do {
        (iob, s) \<leftarrow> disk0_loop wr resid blkno iob s;
        Some (0, iob, s)
      })"

definition disk0_ioctl :: "device \<Rightarrow> int" where "disk0_ioctl dev = - E_UNIMP"

definition disk0_device_init :: "'a devs_scheme \<Rightarrow> device option" where
  "disk0_device_init s = do {
     kassert (VALID_IDE DISK0_DEV_NO (drives s));
     Some \<lparr>d_blocks = word_of_nat (ide_device_size DISK0_DEV_NO (drives s)) div DISK0_BLK_NSECT,
       d_blocksize = word_of_nat DISK0_BLKSIZE, d_ops = Disk0_ops\<rparr>
   }"

subsection \<open>stdin\<close>

definition STDIN_BUFSIZE :: nat where "STDIN_BUFSIZE = 4096"

definition dev_stdin_write :: "u8 \<Rightarrow> 'a devs_scheme \<Rightarrow> 'a devs_scheme" where
  "dev_stdin_write c s =
     (if c = 0 then s
      else s\<lparr>stdin_buffer := (stdin_buffer s)[nat (p_wpos s mod int STDIN_BUFSIZE) := c],
             p_wpos := (if p_wpos s - p_rpos s < int STDIN_BUFSIZE then p_wpos s + 1 else p_wpos s)\<rparr>)"

text \<open>The loop of \<open>dev_stdin_read\<close>; the characters read so far are \<open>acc\<close>.\<close>

partial_function (option) stdin_loop :: "nat \<Rightarrow> u8 list \<Rightarrow> 'a devs_scheme \<Rightarrow> (u8 list \<times> 'a devs_scheme) option" where
  "stdin_loop len acc s =
     (if length acc \<ge> len then Some (acc, s)
      else if p_rpos s < p_wpos s then
        stdin_loop len (acc @ [stdin_buffer s ! nat (p_rpos s mod int STDIN_BUFSIZE)]) (s\<lparr>p_rpos := p_rpos s + 1\<rparr>)
      else (case kbd s of
          [] \<Rightarrow> None
        | Typed cs # es \<Rightarrow> stdin_loop len acc (fold dev_stdin_write cs (s\<lparr>kbd := es\<rparr>))
        | Interrupted # es \<Rightarrow> Some (acc, s\<lparr>kbd := es\<rparr>)))"

definition dev_stdin_read :: "nat \<Rightarrow> 'a devs_scheme \<Rightarrow> (u8 list \<times> 'a devs_scheme) option" where
  "dev_stdin_read len s = stdin_loop len [] s"

definition stdin_open :: "device \<Rightarrow> u32 \<Rightarrow> int" where
  "stdin_open dev open_flags = (if open_flags \<noteq> O_RDONLY then - E_INVAL else 0)"

definition stdin_close :: "device \<Rightarrow> int" where "stdin_close dev = 0"

definition stdin_io :: "device \<Rightarrow> iobuf \<Rightarrow> bool \<Rightarrow> 'a devs_scheme \<Rightarrow> (int \<times> iobuf \<times> 'a devs_scheme) option" where
  "stdin_io dev iob wr s =
     (if \<not> wr then do {
        (cs, s) \<leftarrow> dev_stdin_read (io_resid iob) s;
        let ret = length cs;
        let iob = iob\<lparr>io_buf := overlay (io_buf iob) (io_base iob) cs\<rparr>;
        Some (int ret, if ret > 0 then iob\<lparr>io_resid := io_resid iob - ret\<rparr> else iob, s)
      }
      else Some (- E_INVAL, iob, s))"

definition stdin_ioctl :: "device \<Rightarrow> int" where "stdin_ioctl dev = - E_INVAL"

definition stdin_device_init :: "'a devs_scheme \<Rightarrow> device \<times> 'a devs_scheme" where
  "stdin_device_init s = (\<lparr>d_blocks = 0, d_blocksize = 1, d_ops = Stdin_ops\<rparr>, s\<lparr>p_rpos := 0, p_wpos := 0\<rparr>)"

subsection \<open>stdout\<close>

definition stdout_open :: "device \<Rightarrow> u32 \<Rightarrow> int" where
  "stdout_open dev open_flags = (if open_flags \<noteq> O_WRONLY then - E_INVAL else 0)"

definition stdout_close :: "device \<Rightarrow> int" where "stdout_close dev = 0"

definition stdout_io :: "device \<Rightarrow> iobuf \<Rightarrow> bool \<Rightarrow> 'a devs_scheme \<Rightarrow> (int \<times> iobuf \<times> 'a devs_scheme) option" where
  "stdout_io dev iob wr s =
     (if wr then Some (0, iob\<lparr>io_resid := 0\<rparr>, s\<lparr>console := console s @ take (io_resid iob) (drop (io_base iob) (io_buf iob))\<rparr>)
      else Some (- E_INVAL, iob, s))"

definition stdout_ioctl :: "device \<Rightarrow> int" where "stdout_ioctl dev = - E_INVAL"

definition stdout_device_init :: device where
  "stdout_device_init = \<lparr>d_blocks = 0, d_blocksize = 1, d_ops = Stdout_ops\<rparr>"

subsection \<open>Dispatch\<close>

definition dop_open :: "device \<Rightarrow> u32 \<Rightarrow> int" where
  "dop_open dev = (case d_ops dev of Stdin_ops \<Rightarrow> stdin_open dev | Stdout_ops \<Rightarrow> stdout_open dev | Disk0_ops \<Rightarrow> disk0_open dev)"

definition dop_close :: "device \<Rightarrow> int" where
  "dop_close dev = (case d_ops dev of Stdin_ops \<Rightarrow> stdin_close dev | Stdout_ops \<Rightarrow> stdout_close dev | Disk0_ops \<Rightarrow> disk0_close dev)"

definition dop_io :: "device \<Rightarrow> iobuf \<Rightarrow> bool \<Rightarrow> 'a devs_scheme \<Rightarrow> (int \<times> iobuf \<times> 'a devs_scheme) option" where
  "dop_io dev = (case d_ops dev of Stdin_ops \<Rightarrow> stdin_io dev | Stdout_ops \<Rightarrow> stdout_io dev | Disk0_ops \<Rightarrow> disk0_io dev)"

definition dop_ioctl :: "device \<Rightarrow> int" where
  "dop_ioctl dev = (case d_ops dev of Stdin_ops \<Rightarrow> stdin_ioctl dev | Stdout_ops \<Rightarrow> stdout_ioctl dev | Disk0_ops \<Rightarrow> disk0_ioctl dev)"

section \<open>Little-endian words\<close>

lemma length_le32 [simp]: "length (le32 w) = 4"
  by (simp add: le32_def)

lemma of_le32_le32 [simp]: "of_le32 (le32 w) = w"
proof (rule bit_word_eqI)
  fix n assume "n < LENGTH(32)"
  then have "n < 8 \<or> 8 \<le> n \<and> n < 16 \<or> 16 \<le> n \<and> n < 24 \<or> 24 \<le> n \<and> n < 32" by simp linarith
  then show "bit (of_le32 (le32 w)) n = bit w n" by (elim disjE) (auto simp: of_le32_def le32_def bit_simps)
qed

lemma le32_of_le32:
  assumes "length bs = 4"
  shows "le32 (of_le32 bs) = bs"
proof -
  obtain a b c d where bs: "bs = [a, b, c, d]"
    using assms by (auto simp: eval_nat_numeral length_Suc_conv)
  have "ucast (of_le32 bs) = a" "ucast (drop_bit 8 (of_le32 bs)) = b" "ucast (drop_bit 16 (of_le32 bs)) = c" "ucast (drop_bit 24 (of_le32 bs)) = d"
    by (rule bit_word_eqI, auto simp: of_le32_def bs bit_simps dest: bit_imp_le_length)+
  then show ?thesis by (simp add: le32_def bs)
qed

lemma length_le16 [simp]: "length (le16 w) = 2"
  by (simp add: le16_def)

lemma of_le16_le16 [simp]: "of_le16 (le16 w) = w"
  by (rule bit_word_eqI) (auto simp: of_le16_def le16_def bit_simps)

lemma length_bytes_of [simp]: "length (bytes_of n w) = 4 * n"
  by (induction n) (simp_all add: bytes_of_def)

lemma bytes_of_0 [simp]: "bytes_of 0 w = []"
  by (simp add: bytes_of_def)

lemma bytes_of_Suc: "bytes_of (Suc n) w = bytes_of n w @ le32 (w n)"
  by (simp add: bytes_of_def)

lemma bytes_of_add: "bytes_of (m + n) w = bytes_of m w @ bytes_of n (\<lambda>i. w (m + i))"
  by (induction n) (simp_all add: bytes_of_Suc)

lemma bytes_of_cong: "(\<And>i. i < n \<Longrightarrow> v i = w i) \<Longrightarrow> bytes_of n v = bytes_of n w"
  by (induction n) (simp_all add: bytes_of_Suc)

lemma take_bytes_of: "k \<le> n \<Longrightarrow> take (4 * k) (bytes_of n w) = bytes_of k w"
  using bytes_of_add [of k "n - k" w] by simp

lemma drop_bytes_of: "k \<le> n \<Longrightarrow> drop (4 * k) (bytes_of n w) = bytes_of (n - k) (\<lambda>i. w (k + i))"
  using bytes_of_add [of k "n - k" w] by simp

lemma words_of_bytes_of: "i < n \<Longrightarrow> words_of (bytes_of n w) i = w i"
  using take_bytes_of [of 1 "n - i" "\<lambda>j. w (i + j)"] by (simp add: words_of_def drop_bytes_of bytes_of_Suc)

lemma bytes_of_words_of:
  assumes "4 * (m + n) \<le> length bs"
  shows "bytes_of n (\<lambda>i. words_of bs (m + i)) = take (4 * n) (drop (4 * m) bs)"
  using assms
proof (induction n)
  case (Suc n)
  have "le32 (words_of bs (m + n)) = take 4 (drop (4 * (m + n)) bs)"
    unfolding words_of_def using Suc.prems by (intro le32_of_le32) simp
  moreover have "take (4 * Suc n) (drop (4 * m) bs) = take (4 * n) (drop (4 * m) bs) @ take 4 (drop (4 * (m + n)) bs)"
    using take_add [of "4 * n" 4 "drop (4 * m) bs"] by (simp add: algebra_simps)
  ultimately show ?case using Suc by (simp add: bytes_of_Suc)
qed simp

lemma overlay_same [simp]: "length (overlay xs i ys) = length xs" if "i + length ys \<le> length xs"
  using that by (simp add: overlay_def)

lemma overlay_nil [simp]: "overlay xs i [] = xs"
  by (simp add: overlay_def)

lemma overlay_overlay:
  "i + length ys + length zs \<le> length xs \<Longrightarrow> overlay (overlay xs i ys) (i + length ys) zs = overlay xs i (ys @ zs)"
  by (cases ys) (auto simp: overlay_def algebra_simps min_def)

section \<open>Blocks of the disk\<close>

definition blk :: "'a devs_scheme \<Rightarrow> nat \<Rightarrow> u8 list" where
  "blk s n = bytes_of 1024 (\<lambda>i. ide_data (drives s) DISK0_DEV_NO (8 * n + i div 128) (i mod 128))"

text \<open>The first \<open>n\<close> blocks of the disk are there and can be transferred; the driver's buffer has its size.\<close>

definition good_disk :: "nat \<Rightarrow> 'a devs_scheme \<Rightarrow> bool" where
  "good_disk n s \<longleftrightarrow> ide_valid (drives s) DISK0_DEV_NO \<and> (\<forall>i<8 * n. \<not> ide_bad (drives s) DISK0_DEV_NO i) \<and>
     8 * n \<le> MAX_DISK_NSECS \<and> length (disk0_buffer s) = DISK0_BUFSIZE"

lemma length_blk [simp]: "length (blk s n) = DISK0_BLKSIZE"
  by (simp add: blk_def DISK0_BLKSIZE_def)

lemma concat_blk:
  "bytes_of (1024 * c) (\<lambda>i. ide_data (drives s) DISK0_DEV_NO (8 * b + i div 128) (i mod 128)) = concat (map (blk s) [b..<b + c])"
proof (induction c)
  case (Suc c)
  have "(\<lambda>i. ide_data (drives s) DISK0_DEV_NO (8 * b + (1024 * c + i) div 128) ((1024 * c + i) mod 128)) =
    (\<lambda>i. ide_data (drives s) DISK0_DEV_NO (8 * (b + c) + i div 128) (i mod 128))"
  proof
    fix i
    have e: "1024 * c + i = i + 8 * c * 128" by simp
    have "(1024 * c + i) div 128 = 8 * c + i div 128" "(1024 * c + i) mod 128 = i mod 128"
      unfolding e by (simp_all only: div_mult_self1 [of 128] mod_mult_self1)
    then show "ide_data (drives s) DISK0_DEV_NO (8 * b + (1024 * c + i) div 128) ((1024 * c + i) mod 128) =
      ide_data (drives s) DISK0_DEV_NO (8 * (b + c) + i div 128) (i mod 128)" by (simp add: algebra_simps)
  qed
  then show ?case using Suc bytes_of_add [of "1024 * c" 1024] by (simp add: blk_def algebra_simps)
qed simp

lemma sector_number:
  assumes "b + c \<le> n" and "8 * n \<le> MAX_DISK_NSECS" and "c \<le> 4"
  shows "unat (word_of_nat b * DISK0_BLK_NSECT) = 8 * b" and "unat (word_of_nat c * DISK0_BLK_NSECT) = 8 * c"
  using assms by (simp_all add: DISK0_BLK_NSECT_def MAX_DISK_NSECS_def unat_word_ariths unat_of_nat take_bit_nat_def)

lemma disk0_read_blks_ok:
  assumes g: "good_disk n s" and b: "b + c \<le> n" "0 < c" "c \<le> 4"
  shows "\<exists>buf. disk0_read_blks_nolock (word_of_nat b) (word_of_nat c) s = Some (s\<lparr>disk0_buffer := buf\<rparr>) \<and>
    length buf = DISK0_BUFSIZE \<and> take (DISK0_BLKSIZE * c) buf = concat (map (blk s) [b..<b + c])"
proof -
  have v: "8 * n \<le> MAX_DISK_NSECS" "VALID_IDE DISK0_DEV_NO (drives s)" using g by (simp_all add: good_disk_def VALID_IDE_def MAX_IDE_def DISK0_DEV_NO_def)
  have "\<forall>i<8 * c. \<not> ide_bad (drives s) DISK0_DEV_NO (8 * b + i)" using g b(1) by (simp add: good_disk_def)
  from ide_read_loop_ok [OF this, of 0 "words_of (disk0_buffer s)"] obtain r where
    r: "ide_read_loop DISK0_DEV_NO (8 * b) (8 * c) 0 (words_of (disk0_buffer s)) (drives s) = (0, r)"
      "\<forall>j<8 * c. \<forall>i<SECTWORDS. r (j * SECTWORDS + i) = ide_data (drives s) DISK0_DEV_NO (8 * b + j) i" by auto
  have "disk0_read_blks_nolock (word_of_nat b) (word_of_nat c) s = Some (s\<lparr>disk0_buffer := bytes_of (DISK0_BUFSIZE div 4) r\<rparr>)"
    using sector_number [OF b(1) v(1) b(3)] v b r(1)
    by (simp add: disk0_read_blks_nolock_def Let_def ide_read_secs_def MAX_NSECS_def)
  moreover have "take (DISK0_BLKSIZE * c) (bytes_of (DISK0_BUFSIZE div 4) r) = bytes_of (1024 * c) r"
    using take_bytes_of [of "1024 * c" "DISK0_BUFSIZE div 4" r] b(3) by (simp add: DISK0_BLKSIZE_def DISK0_BUFSIZE_def)
  moreover have "bytes_of (1024 * c) r = concat (map (blk s) [b..<b + c])"
    unfolding concat_blk [symmetric]
  proof (rule bytes_of_cong)
    fix i assume "i < 1024 * c"
    then have "i div 128 < 8 * c" by simp
    then have "r (i div 128 * SECTWORDS + i mod 128) = ide_data (drives s) DISK0_DEV_NO (8 * b + i div 128) (i mod 128)"
      using r(2) [rule_format, of "i div 128" "i mod 128"] by (simp add: SECTWORDS_def)
    then show "r i = ide_data (drives s) DISK0_DEV_NO (8 * b + i div 128) (i mod 128)" by (simp add: SECTWORDS_def)
  qed
  ultimately show ?thesis by (intro exI [of _ "bytes_of (DISK0_BUFSIZE div 4) r"]) (simp add: DISK0_BUFSIZE_def DISK0_BLKSIZE_def)
qed

text \<open>The disk after blocks have been replaced.\<close>

lemma disk0_write_blks_ok:
  assumes g: "good_disk n s" and b: "b + c \<le> n" "0 < c" "c \<le> 4"
  shows "\<exists>d. disk0_write_blks_nolock (word_of_nat b) (word_of_nat c) s = Some (s\<lparr>drives := d\<rparr>) \<and>
    d = (drives s)\<lparr>ide_data := ide_data d\<rparr> \<and>
    (\<forall>k. blk (s\<lparr>drives := d\<rparr>) k = (if b \<le> k \<and> k < b + c then take DISK0_BLKSIZE (drop (DISK0_BLKSIZE * (k - b)) (disk0_buffer s)) else blk s k))"
proof -
  let ?src = "words_of (disk0_buffer s)"
  have v: "8 * n \<le> MAX_DISK_NSECS" "VALID_IDE DISK0_DEV_NO (drives s)" "length (disk0_buffer s) = 16384"
    using g by (simp_all add: good_disk_def VALID_IDE_def MAX_IDE_def DISK0_DEV_NO_def DISK0_BUFSIZE_def DISK0_BLKSIZE_def)
  have "\<forall>i<8 * c. \<not> ide_bad (drives s) DISK0_DEV_NO (8 * b + i)" using g b(1) by (simp add: good_disk_def)
  from ide_write_loop_ok [OF this, of 0 ?src] obtain d where
    d: "ide_write_loop DISK0_DEV_NO (8 * b) (8 * c) 0 ?src (drives s) = (0, d)" "d = (drives s)\<lparr>ide_data := ide_data d\<rparr>"
      "\<forall>j<8 * c. \<forall>i. ide_data d DISK0_DEV_NO (8 * b + j) i = ?src (j * SECTWORDS + i)"
      "\<forall>dv sec. dv \<noteq> DISK0_DEV_NO \<or> sec < 8 * b \<or> 8 * b + 8 * c \<le> sec \<longrightarrow> ide_data d dv sec = ide_data (drives s) dv sec" by auto
  have "blk (s\<lparr>drives := d\<rparr>) k = (if b \<le> k \<and> k < b + c then take DISK0_BLKSIZE (drop (DISK0_BLKSIZE * (k - b)) (disk0_buffer s)) else blk s k)" for k
  proof (cases "b \<le> k \<and> k < b + c")
    case True
    then obtain m where m: "k = b + m" "m < c" using le_Suc_ex by auto
    have "ide_data d DISK0_DEV_NO (8 * k + i div 128) (i mod 128) = ?src (1024 * m + i)" if "i < 1024" for i
    proof -
      have "8 * m + i div 128 < 8 * c" using m(2) that by simp
      then have "ide_data d DISK0_DEV_NO (8 * b + (8 * m + i div 128)) (i mod 128) = ?src ((8 * m + i div 128) * SECTWORDS + i mod 128)" using d(3) by blast
      then show ?thesis by (simp add: m(1) SECTWORDS_def algebra_simps)
    qed
    then have "blk (s\<lparr>drives := d\<rparr>) k = bytes_of 1024 (\<lambda>i. ?src (1024 * m + i))" unfolding blk_def by (intro bytes_of_cong) simp
    then show ?thesis using True bytes_of_words_of [of "1024 * m" 1024 "disk0_buffer s"] v(3) b(3) m by (simp add: DISK0_BLKSIZE_def)
  next
    case False
    have "ide_data d DISK0_DEV_NO (8 * k + i div 128) = ide_data (drives s) DISK0_DEV_NO (8 * k + i div 128)" if "i < 1024" for i
    proof -
      have "8 * k + i div 128 < 8 * b \<or> 8 * b + 8 * c \<le> 8 * k + i div 128" using False that by auto
      then show ?thesis using d(4) by blast
    qed
    then show ?thesis using False unfolding blk_def by (auto intro!: bytes_of_cong)
  qed
  moreover have "disk0_write_blks_nolock (word_of_nat b) (word_of_nat c) s = Some (s\<lparr>drives := d\<rparr>)"
    using sector_number [OF b(1) v(1) b(3)] v b d(1)
    by (simp add: disk0_write_blks_nolock_def Let_def ide_write_secs_def MAX_NSECS_def)
  ultimately show ?thesis using d(2) by blast
qed

lemma blk_buffer [simp]: "blk (s\<lparr>disk0_buffer := buf\<rparr>) = blk s"
  by (rule ext) (simp add: blk_def)

lemma good_disk_buffer: "good_disk n s \<Longrightarrow> length buf = DISK0_BUFSIZE \<Longrightarrow> good_disk n (s\<lparr>disk0_buffer := buf\<rparr>)"
  by (simp add: good_disk_def)

lemma good_disk_drives: "good_disk n s \<Longrightarrow> d = (drives s)\<lparr>ide_data := ide_data d\<rparr> \<Longrightarrow> good_disk n (s\<lparr>drives := d\<rparr>)"
  by (simp add: good_disk_def) (metis ide_drives.select_convs(1,4) ide_drives.surjective ide_drives.update_convs(3))

lemma length_concat_blk [simp]: "length (concat (map (blk s) [b..<b + c])) = DISK0_BLKSIZE * c"
  by (induction c) simp_all

lemma concat_blk_split: "c \<le> k \<Longrightarrow> concat (map (blk s) [b..<b + k]) = concat (map (blk s) [b..<b + c]) @ concat (map (blk s) [b + c..<b + k])"
  by (metis concat_append le_add1 map_append nat_add_left_cancel_le upt_add_eq_append le_Suc_ex)

lemma DISK0_BLKSIZE_pos [simp]: "DISK0_BLKSIZE \<noteq> 0" "0 < DISK0_BLKSIZE"
  by (simp_all add: DISK0_BLKSIZE_def)

text \<open>Advancing an I/O buffer by \<open>k\<close> blocks.\<close>

abbreviation advance :: "iobuf \<Rightarrow> nat \<Rightarrow> iobuf" where
  "advance iob n \<equiv> iob\<lparr>io_base := io_base iob + n, io_offset := io_offset iob + int n, io_resid := io_resid iob - n\<rparr>"

lemma disk0_read_loop:
  assumes "good_disk n s" and "b + k \<le> n" and "io_resid iob = DISK0_BLKSIZE * k" and "io_base iob + DISK0_BLKSIZE * k \<le> length (io_buf iob)"
  shows "\<exists>buf. disk0_loop False (DISK0_BLKSIZE * k) (word_of_nat b) iob s =
      Some ((advance iob (DISK0_BLKSIZE * k))\<lparr>io_buf := overlay (io_buf iob) (io_base iob) (concat (map (blk s) [b..<b + k]))\<rparr>, s\<lparr>disk0_buffer := buf\<rparr>) \<and>
    length buf = DISK0_BUFSIZE"
  using assms
proof (induction k arbitrary: b iob s rule: less_induct)
  case (less k)
  show ?case
  proof (cases "k = 0")
    case True
    then show ?thesis using less.prems(1) by (intro exI [of _ "disk0_buffer s"]) (simp add: disk0_loop.simps good_disk_def)
  next
    case False
    define c where "c = min 4 k"
    have c: "0 < c" "c \<le> 4" "c \<le> k" "b + c \<le> n" using False less.prems(2) by (auto simp: c_def)
    have alen: "(if DISK0_BUFSIZE > DISK0_BLKSIZE * k then DISK0_BLKSIZE * k else DISK0_BUFSIZE) = DISK0_BLKSIZE * c"
      by (auto simp: DISK0_BUFSIZE_def DISK0_BLKSIZE_def c_def)
    obtain buf where buf: "disk0_read_blks_nolock (word_of_nat b) (word_of_nat c) s = Some (s\<lparr>disk0_buffer := buf\<rparr>)"
      "length buf = DISK0_BUFSIZE" "take (DISK0_BLKSIZE * c) buf = concat (map (blk s) [b..<b + c])"
      using disk0_read_blks_ok [OF less.prems(1) c(4,1,2)] by blast
    define iob1 where "iob1 = (advance iob (DISK0_BLKSIZE * c))\<lparr>io_buf := overlay (io_buf iob) (io_base iob) (concat (map (blk s) [b..<b + c]))\<rparr>"
    define s1 where "s1 = s\<lparr>disk0_buffer := buf\<rparr>"
    have mv: "iobuf_move iob buf (DISK0_BLKSIZE * c) True = Some (0, DISK0_BLKSIZE * c, iob1, buf)"
      using less.prems(3) c buf(3) by (auto simp: iobuf_move_def Let_def iobuf_skip_def iob1_def DISK0_BLKSIZE_def)
    have sub: "DISK0_BLKSIZE * k - DISK0_BLKSIZE * c = DISK0_BLKSIZE * (k - c)" by (simp add: diff_mult_distrib2)
    have step: "disk0_loop False (DISK0_BLKSIZE * k) (word_of_nat b) iob s = disk0_loop False (DISK0_BLKSIZE * (k - c)) (word_of_nat (b + c)) iob1 s1"
      using False buf(1) mv sub by (subst disk0_loop.simps) (simp only: alen Let_def, simp add: s1_def)
    have g1: "good_disk n s1" using less.prems(1) buf(2) by (simp add: s1_def good_disk_buffer)
    have ck: "DISK0_BLKSIZE * c \<le> DISK0_BLKSIZE * k" using c(3) by simp
    then have "io_base iob + length (concat (map (blk s) [b..<b + c])) \<le> length (io_buf iob)"
      using less.prems(4) unfolding length_concat_blk by linarith
    then have len: "length (io_buf iob1) = length (io_buf iob)" by (simp add: iob1_def del: length_concat_blk)
    have "\<exists>buf'. disk0_loop False (DISK0_BLKSIZE * (k - c)) (word_of_nat (b + c)) iob1 s1 =
      Some ((advance iob1 (DISK0_BLKSIZE * (k - c)))\<lparr>io_buf := overlay (io_buf iob1) (io_base iob1) (concat (map (blk s1) [b + c..<b + c + (k - c)]))\<rparr>, s1\<lparr>disk0_buffer := buf'\<rparr>) \<and>
      length buf' = DISK0_BUFSIZE"
    proof (rule less.IH [OF _ g1])
      show "io_base iob1 + DISK0_BLKSIZE * (k - c) \<le> length (io_buf iob1)"
        unfolding len using less.prems(4) ck by (simp add: iob1_def diff_mult_distrib2)
    qed (use c less.prems in \<open>simp_all add: iob1_def diff_mult_distrib2\<close>)
    moreover have "overlay (io_buf iob1) (io_base iob1) (concat (map (blk s1) [b + c..<b + c + (k - c)])) = overlay (io_buf iob) (io_base iob) (concat (map (blk s) [b..<b + k]))"
    proof -
      let ?X = "concat (map (blk s) [b..<b + c])" and ?Y = "concat (map (blk s) [b + c..<b + c + (k - c)])"
      have "DISK0_BLKSIZE * c + DISK0_BLKSIZE * (k - c) = DISK0_BLKSIZE * k" using c(3) by (simp flip: add_mult_distrib2)
      then have "io_base iob + length ?X + length ?Y \<le> length (io_buf iob)" using less.prems(4) unfolding length_concat_blk by linarith
      from overlay_overlay [OF this] have "overlay (io_buf iob1) (io_base iob1) ?Y = overlay (io_buf iob) (io_base iob) (?X @ ?Y)" by (simp add: iob1_def)
      then show ?thesis using concat_blk_split [OF c(3), of s b] c(3) by (simp add: s1_def)
    qed
    moreover have "advance iob1 (DISK0_BLKSIZE * (k - c)) = (advance iob (DISK0_BLKSIZE * k))\<lparr>io_buf := io_buf iob1\<rparr>"
      using c(3) by (simp add: iob1_def diff_mult_distrib2)
    ultimately show ?thesis unfolding step by (auto simp: s1_def)
  qed
qed

text \<open>A state that differs from \<open>s\<close> only in the contents of the disk and of the driver's buffer.\<close>

abbreviation disk_frame :: "'a devs_scheme \<Rightarrow> 'a devs_scheme \<Rightarrow> bool" where
  "disk_frame s s' \<equiv> s' = s\<lparr>drives := drives s', disk0_buffer := disk0_buffer s'\<rparr>"

lemma disk_frame_trans:
  assumes "disk_frame s s1" and "disk_frame s1 s2"
  shows "disk_frame s s2"
proof -
  have "s2 = s\<lparr>drives := drives s1, disk0_buffer := disk0_buffer s1\<rparr>\<lparr>drives := drives s2, disk0_buffer := disk0_buffer s2\<rparr>"
    using assms(2) unfolding assms(1) [symmetric] .
  then show ?thesis by simp
qed

lemma disk0_write_loop:
  assumes "good_disk n s" and "b + k \<le> n" and "io_resid iob = DISK0_BLKSIZE * k" and "io_base iob + DISK0_BLKSIZE * k \<le> length (io_buf iob)"
  shows "\<exists>s'. disk0_loop True (DISK0_BLKSIZE * k) (word_of_nat b) iob s = Some (advance iob (DISK0_BLKSIZE * k), s') \<and> good_disk n s' \<and> disk_frame s s' \<and>
    (\<forall>j. blk s' j = (if b \<le> j \<and> j < b + k then take DISK0_BLKSIZE (drop (io_base iob + DISK0_BLKSIZE * (j - b)) (io_buf iob)) else blk s j))"
  using assms
proof (induction k arbitrary: b iob s rule: less_induct)
  case (less k)
  show ?case
  proof (cases "k = 0")
    case True
    then show ?thesis using less.prems(1) by (auto simp: disk0_loop.simps)
  next
    case False
    define c where "c = min 4 k"
    have c: "0 < c" "c \<le> 4" "c \<le> k" "b + c \<le> n" using False less.prems(2) by (auto simp: c_def)
    have alen: "(if DISK0_BLKSIZE * k > DISK0_BUFSIZE then DISK0_BUFSIZE else DISK0_BLKSIZE * k) = DISK0_BLKSIZE * c"
      by (auto simp: DISK0_BUFSIZE_def DISK0_BLKSIZE_def c_def)
    have ck: "DISK0_BLKSIZE * c + DISK0_BLKSIZE * (k - c) = DISK0_BLKSIZE * k" using c(3) by (simp flip: add_mult_distrib2)
    define piece where "piece = take (DISK0_BLKSIZE * c) (drop (io_base iob) (io_buf iob))"
    have lp: "length piece = DISK0_BLKSIZE * c" using less.prems(4) ck by (simp add: piece_def)
    define data where "data = overlay (disk0_buffer s) 0 piece"
    have ld: "length data = DISK0_BUFSIZE" "take (DISK0_BLKSIZE * c) data = piece"
      using less.prems(1) lp c(2) by (simp_all add: data_def good_disk_def DISK0_BUFSIZE_def overlay_def)
    define s0 where "s0 = s\<lparr>disk0_buffer := data\<rparr>"
    have g0: "good_disk n s0" using less.prems(1) ld(1) by (simp add: s0_def good_disk_buffer)
    have "\<exists>r. iobuf_move iob (disk0_buffer s) DISK0_BUFSIZE False = Some (r, DISK0_BLKSIZE * c, advance iob (DISK0_BLKSIZE * c), data)"
      unfolding iobuf_move_def Let_def less.prems(3) alen using c less.prems(3) by (simp add: iobuf_skip_def data_def piece_def)
    then obtain r where mv: "iobuf_move iob (disk0_buffer s) DISK0_BUFSIZE False = Some (r, DISK0_BLKSIZE * c, advance iob (DISK0_BLKSIZE * c), data)" by blast
    obtain d where d: "disk0_write_blks_nolock (word_of_nat b) (word_of_nat c) s0 = Some (s0\<lparr>drives := d\<rparr>)" "d = (drives s0)\<lparr>ide_data := ide_data d\<rparr>"
      "\<And>j. blk (s0\<lparr>drives := d\<rparr>) j = (if b \<le> j \<and> j < b + c then take DISK0_BLKSIZE (drop (DISK0_BLKSIZE * (j - b)) (disk0_buffer s0)) else blk s0 j)"
      using disk0_write_blks_ok [OF g0 c(4,1,2)] by blast
    define s1 where "s1 = s0\<lparr>drives := d\<rparr>"
    have g1: "good_disk n s1" unfolding s1_def using g0 d(2) by (rule good_disk_drives)
    have f1: "disk_frame s s1" by (simp add: s1_def s0_def)
    have sub: "DISK0_BLKSIZE * k - DISK0_BLKSIZE * c = DISK0_BLKSIZE * (k - c)" by (simp add: diff_mult_distrib2)
    have step: "disk0_loop True (DISK0_BLKSIZE * k) (word_of_nat b) iob s = disk0_loop True (DISK0_BLKSIZE * (k - c)) (word_of_nat (b + c)) (advance iob (DISK0_BLKSIZE * c)) s1"
      using False c mv d(1) sub by (subst disk0_loop.simps) (simp add: s0_def s1_def Let_def)
    have "\<exists>s'. disk0_loop True (DISK0_BLKSIZE * (k - c)) (word_of_nat (b + c)) (advance iob (DISK0_BLKSIZE * c)) s1 =
        Some (advance (advance iob (DISK0_BLKSIZE * c)) (DISK0_BLKSIZE * (k - c)), s') \<and> good_disk n s' \<and> disk_frame s1 s' \<and>
      (\<forall>j. blk s' j = (if b + c \<le> j \<and> j < b + c + (k - c) then take DISK0_BLKSIZE (drop (io_base (advance iob (DISK0_BLKSIZE * c)) + DISK0_BLKSIZE * (j - (b + c))) (io_buf (advance iob (DISK0_BLKSIZE * c)))) else blk s1 j))"
      using c less.prems ck by (intro less.IH [OF _ g1]) (simp_all add: diff_mult_distrib2)
    then obtain s' where s': "disk0_loop True (DISK0_BLKSIZE * k) (word_of_nat b) iob s = Some (advance (advance iob (DISK0_BLKSIZE * c)) (DISK0_BLKSIZE * (k - c)), s')"
      "good_disk n s'" "disk_frame s1 s'"
      "\<And>j. blk s' j = (if b + c \<le> j \<and> j < b + k then take DISK0_BLKSIZE (drop (io_base iob + DISK0_BLKSIZE * c + DISK0_BLKSIZE * (j - (b + c))) (io_buf iob)) else blk s1 j)"
      using step c(3) by (auto simp: add.assoc)
    have "blk s' j = (if b \<le> j \<and> j < b + k then take DISK0_BLKSIZE (drop (io_base iob + DISK0_BLKSIZE * (j - b)) (io_buf iob)) else blk s j)" for j
    proof -
      consider "b \<le> j" "j < b + c" | "b + c \<le> j" "j < b + k" | "j < b \<or> b + k \<le> j" using c(3) by linarith
      then show ?thesis
      proof cases
        case 1
        have lt: "DISK0_BLKSIZE * (j - b) + DISK0_BLKSIZE \<le> DISK0_BLKSIZE * c" 
        proof -
          have "Suc (j - b) \<le> c" using 1 by simp
          then have "DISK0_BLKSIZE * Suc (j - b) \<le> DISK0_BLKSIZE * c" by (rule mult_le_mono2)
          then show ?thesis by simp
        qed
        have "blk s' j = take DISK0_BLKSIZE (drop (DISK0_BLKSIZE * (j - b)) data)" using 1 s'(4) [of j] d(3) [of j] by (simp add: s1_def s0_def)
        also have "\<dots> = take DISK0_BLKSIZE (drop (DISK0_BLKSIZE * (j - b)) (take (DISK0_BLKSIZE * c) data))"
          using lt by (simp add: drop_take)
        finally show ?thesis using 1 c(3) lt unfolding ld(2) by (simp add: piece_def drop_take add.commute)
      next
        case 2
        then have "DISK0_BLKSIZE * c + DISK0_BLKSIZE * (j - (b + c)) = DISK0_BLKSIZE * (j - b)" by (simp flip: add_mult_distrib2)
        then show ?thesis using 2 s'(4) [of j] by (simp add: add.assoc)
      next
        case 3
        then show ?thesis using s'(4) [of j] d(3) [of j] c(3) by (auto simp: s1_def s0_def)
      qed
    qed
    moreover have "advance (advance iob (DISK0_BLKSIZE * c)) (DISK0_BLKSIZE * (k - c)) = advance iob (DISK0_BLKSIZE * k)"
    proof -
      have "int DISK0_BLKSIZE * int c + int DISK0_BLKSIZE * int (k - c) = int DISK0_BLKSIZE * int k"
        using arg_cong [OF ck, of int] by simp
      then show ?thesis using ck by (simp add: add.assoc)
    qed
    ultimately show ?thesis using s'(1-3) disk_frame_trans [OF f1] by (intro exI [of _ s']) simp
  qed
qed

text \<open>A transfer of \<open>k\<close> whole blocks from block \<open>b\<close> on.\<close>

lemma disk0_io_ok:
  assumes g: "good_disk n s" and k: "b + k \<le> n" "0 < k" and dev: "n \<le> unat (d_blocks dev)"
    and iob: "io_offset iob = int (DISK0_BLKSIZE * b)" "io_resid iob = DISK0_BLKSIZE * k" "io_base iob + DISK0_BLKSIZE * k \<le> length (io_buf iob)"
  shows "\<exists>iob' s'. disk0_io dev iob wr s = Some (0, iob', s') \<and> io_resid iob' = 0 \<and> good_disk n s' \<and> disk_frame s s' \<and>
    (if wr then io_buf iob' = io_buf iob \<and>
       (\<forall>j. blk s' j = (if b \<le> j \<and> j < b + k then take DISK0_BLKSIZE (drop (io_base iob + DISK0_BLKSIZE * (j - b)) (io_buf iob)) else blk s j))
     else io_buf iob' = overlay (io_buf iob) (io_base iob) (concat (map (blk s) [b..<b + k])) \<and> blk s' = blk s)"
proof -
  have n: "n \<le> 2 ^ 25" using g by (simp add: good_disk_def MAX_DISK_NSECS_def)
  have e: "word_of_int (io_offset iob div int DISK0_BLKSIZE) = (word_of_nat b :: u32)" "io_resid iob div DISK0_BLKSIZE = k"
    by (simp_all add: iob)
  have u: "unat (word_of_nat b + word_of_nat k :: u32) = b + k" "word_of_nat k \<noteq> (0 :: u32)"
    using k n by (simp_all add: unat_of_nat take_bit_nat_eq_self flip: of_nat_add) (simp add: word_of_nat_eq_0_iff nat_dvd_not_less)
  have "\<not> word_of_nat b + word_of_nat k > d_blocks dev" using u(1) k(1) dev by (simp add: word_less_nat_alt)
  then have run: "disk0_io dev iob wr s = do { (iob, s) \<leftarrow> disk0_loop wr (DISK0_BLKSIZE * k) (word_of_nat b) iob s; Some (0, iob, s) }"
    unfolding disk0_io_def Let_def e using u(2) iob(1,2) by simp
  show ?thesis
  proof (cases wr)
    case True
    obtain s' where "disk0_loop True (DISK0_BLKSIZE * k) (word_of_nat b) iob s = Some (advance iob (DISK0_BLKSIZE * k), s')" "good_disk n s'" "disk_frame s s'"
      "\<forall>j. blk s' j = (if b \<le> j \<and> j < b + k then take DISK0_BLKSIZE (drop (io_base iob + DISK0_BLKSIZE * (j - b)) (io_buf iob)) else blk s j)"
      using disk0_write_loop [OF g k(1) iob(2,3)] by blast
    then show ?thesis using run True iob(2) by (intro exI [of _ "advance iob (DISK0_BLKSIZE * k)"] exI [of _ s']) simp
  next
    case False
    obtain buf where "disk0_loop False (DISK0_BLKSIZE * k) (word_of_nat b) iob s =
      Some ((advance iob (DISK0_BLKSIZE * k))\<lparr>io_buf := overlay (io_buf iob) (io_base iob) (concat (map (blk s) [b..<b + k]))\<rparr>, s\<lparr>disk0_buffer := buf\<rparr>)"
      "length buf = DISK0_BUFSIZE" using disk0_read_loop [OF g k(1) iob(2,3)] by blast
    then show ?thesis using run False iob(2) good_disk_buffer [OF g, of buf] by simp
  qed
qed

section \<open>Keyboard input\<close>

text \<open>
  The input buffer as a queue: the characters between \<open>p_rpos\<close> and \<open>p_wpos\<close>. While there is room a
  character is put at its end; a full buffer loses the character at its front.
\<close>

definition stdin_ok :: "'a devs_scheme \<Rightarrow> bool" where
  "stdin_ok s \<longleftrightarrow> length (stdin_buffer s) = STDIN_BUFSIZE \<and> 0 \<le> p_rpos s \<and> p_rpos s \<le> p_wpos s \<and> p_wpos s - p_rpos s \<le> int STDIN_BUFSIZE"

definition stdin_queue :: "'a devs_scheme \<Rightarrow> u8 list" where
  "stdin_queue s = map (\<lambda>i. stdin_buffer s ! (i mod STDIN_BUFSIZE)) [nat (p_rpos s)..<nat (p_wpos s)]"

lemma stdin_slot:
  assumes "r \<le> i" "i < r + STDIN_BUFSIZE" "r \<le> j" "j < r + STDIN_BUFSIZE"
  shows "i mod STDIN_BUFSIZE = j mod STDIN_BUFSIZE \<longleftrightarrow> i = j"
proof -
  have "i = j" if "i mod STDIN_BUFSIZE = j mod STDIN_BUFSIZE" "i \<le> j" "r \<le> i" "j < r + STDIN_BUFSIZE" for i j
  proof -
    have "STDIN_BUFSIZE dvd j - i" using that(1) mod_eq_dvd_iff_nat [OF that(2), of STDIN_BUFSIZE] by simp
    moreover have "j - i < STDIN_BUFSIZE" using that(2-4) by linarith
    ultimately show "i = j" using that(2) by (meson diff_is_0_eq le_antisym nat_dvd_not_less not_gr_zero)
  qed
  from this [of i j] this [of j i] show ?thesis using assms by (cases "i \<le> j") auto
qed

lemma stdin_queue_upd:
  assumes ok: "stdin_ok s" and i: "nat (p_rpos s) \<le> i" "i < nat (p_rpos s) + STDIN_BUFSIZE"
  shows "map (\<lambda>j. (stdin_buffer s)[i mod STDIN_BUFSIZE := c] ! (j mod STDIN_BUFSIZE)) [nat (p_rpos s)..<nat (p_wpos s)] =
    (if i < nat (p_wpos s) then (stdin_queue s)[i - nat (p_rpos s) := c] else stdin_queue s)"
proof (rule nth_equalityI)
  fix k assume "k < length (map (\<lambda>j. (stdin_buffer s)[i mod STDIN_BUFSIZE := c] ! (j mod STDIN_BUFSIZE)) [nat (p_rpos s)..<nat (p_wpos s)])"
  then have k: "nat (p_rpos s) + k < nat (p_wpos s)" by simp
  have w: "nat (p_wpos s) \<le> nat (p_rpos s) + STDIN_BUFSIZE" "length (stdin_buffer s) = STDIN_BUFSIZE" "0 < STDIN_BUFSIZE"
    using ok by (auto simp: stdin_ok_def STDIN_BUFSIZE_def)
  have "i mod STDIN_BUFSIZE = (nat (p_rpos s) + k) mod STDIN_BUFSIZE \<longleftrightarrow> i = nat (p_rpos s) + k"
    using k w(1) i by (intro stdin_slot [of "nat (p_rpos s)"]) simp_all
  then show "map (\<lambda>j. (stdin_buffer s)[i mod STDIN_BUFSIZE := c] ! (j mod STDIN_BUFSIZE)) [nat (p_rpos s)..<nat (p_wpos s)] ! k =
    (if i < nat (p_wpos s) then (stdin_queue s)[i - nat (p_rpos s) := c] else stdin_queue s) ! k"
    using k w(2,3) i(1) by (auto simp: stdin_queue_def nth_list_update)
qed (simp add: stdin_queue_def)


lemma dev_stdin_write_ok:
  assumes ok: "stdin_ok s" and c: "c \<noteq> 0"
  shows "stdin_ok (dev_stdin_write c s)" and "stdin_queue (dev_stdin_write c s) =
    (if length (stdin_queue s) < STDIN_BUFSIZE then stdin_queue s @ [c] else (stdin_queue s)[0 := c])"
proof -
  define r w where "r = nat (p_rpos s)" and "w = nat (p_wpos s)"
  have o: "p_rpos s = int r" "p_wpos s = int w" "r \<le> w" "w \<le> r + STDIN_BUFSIZE" "length (stdin_buffer s) = STDIN_BUFSIZE" "0 < STDIN_BUFSIZE"
    using ok by (auto simp: stdin_ok_def r_def w_def STDIN_BUFSIZE_def)
  have full: "p_wpos s - p_rpos s < int STDIN_BUFSIZE \<longleftrightarrow> w < r + STDIN_BUFSIZE" using o(1-3) by linarith
  have idx: "nat (p_wpos s mod int STDIN_BUFSIZE) = w mod STDIN_BUFSIZE" unfolding o(2) by (simp add: nat_mod_distrib flip: of_nat_mod)
  show "stdin_ok (dev_stdin_write c s)" using o full c by (auto simp: dev_stdin_write_def stdin_ok_def)
  show "stdin_queue (dev_stdin_write c s) = (if length (stdin_queue s) < STDIN_BUFSIZE then stdin_queue s @ [c] else (stdin_queue s)[0 := c])"
  proof (cases "w < r + STDIN_BUFSIZE")
    case True
    then have "map (\<lambda>j. (stdin_buffer s)[w mod STDIN_BUFSIZE := c] ! (j mod STDIN_BUFSIZE)) [r..<w] = stdin_queue s"
      using stdin_queue_upd [OF ok, of w c] o(3) by (simp flip: r_def w_def)
    moreover have "length (stdin_queue s) < STDIN_BUFSIZE" using True o(3) by (simp add: stdin_queue_def flip: r_def w_def)
    moreover have "nat (p_wpos s + 1) = Suc w" by (simp add: o(2))
    moreover have "p_wpos s - p_rpos s < int STDIN_BUFSIZE" using True full by simp
    ultimately show ?thesis using c o(1,3,5,6) idx by (simp add: dev_stdin_write_def stdin_queue_def)
  next
    case False
    then have w: "w = r + STDIN_BUFSIZE" using o(4) by simp
    then have "w mod STDIN_BUFSIZE = r mod STDIN_BUFSIZE" by simp
    then have "map (\<lambda>j. (stdin_buffer s)[w mod STDIN_BUFSIZE := c] ! (j mod STDIN_BUFSIZE)) [r..<w] = (stdin_queue s)[0 := c]"
      using stdin_queue_upd [OF ok, of r c] w o(6) by (simp flip: r_def w_def)
    moreover have "length (stdin_queue s) = STDIN_BUFSIZE" using w by (simp add: stdin_queue_def flip: r_def w_def)
    moreover have "\<not> p_wpos s - p_rpos s < int STDIN_BUFSIZE" using False full by simp
    ultimately show ?thesis using c idx by (simp add: dev_stdin_write_def stdin_queue_def flip: r_def w_def)
  qed
qed





definition devs_empty :: devs where
  "devs_empty = \<lparr>drives = \<lparr>ide_valid = \<lambda>_. True, ide_size = \<lambda>_. 0, ide_data = \<lambda>_ _ _. 0, ide_bad = \<lambda>_ _. False\<rparr>, disk0_buffer = replicate DISK0_BUFSIZE 0,
     stdin_buffer = replicate STDIN_BUFSIZE 0, p_rpos = 0, p_wpos = 0, kbd = [], console = []\<rparr>"


text \<open>
  C35: a character typed when the buffer is full replaces the oldest character that is waiting; the new
  character is not dropped and the positions do not move.
\<close>

theorem stdin_full_overwrites:
  assumes "stdin_ok s" and "length (stdin_queue s) = STDIN_BUFSIZE" and "c \<noteq> 0"
  shows "stdin_queue (dev_stdin_write c s) = c # tl (stdin_queue s)"
proof -
  have "stdin_queue s \<noteq> []" using assms(2) by (auto simp: STDIN_BUFSIZE_def)
  then show ?thesis using dev_stdin_write_ok(2) [OF assms(1,3)] assms(2) by (cases "stdin_queue s") simp_all
qed

theorem stdin_full_overwrites_witness:
  "\<exists>s :: devs. stdin_queue s = replicate STDIN_BUFSIZE 1 \<and> stdin_queue (dev_stdin_write 2 s) = 2 # replicate (STDIN_BUFSIZE - 1) 1"
proof -
  define s where "s = devs_empty\<lparr>stdin_buffer := replicate STDIN_BUFSIZE 1, p_wpos := int STDIN_BUFSIZE\<rparr>"
  have ok: "stdin_ok s" by (simp add: stdin_ok_def s_def devs_empty_def)
  have pos: "0 < STDIN_BUFSIZE" by (simp add: STDIN_BUFSIZE_def)
  have q: "stdin_queue s = replicate STDIN_BUFSIZE 1"
    by (rule nth_equalityI) (auto simp: stdin_queue_def s_def devs_empty_def pos)
  have "stdin_queue (dev_stdin_write 2 s) = 2 # tl (stdin_queue s)" using stdin_full_overwrites [OF ok, of 2] q by simp
  moreover have "tl (stdin_queue s) = replicate (STDIN_BUFSIZE - 1) 1" unfolding q by (cases STDIN_BUFSIZE) simp_all
  ultimately show ?thesis using q by (intro exI [of _ s]) simp
qed

end
