(* ===== verification/Sfs.thy ===== *)
theory Sfs
  imports Bitmap Devs
begin

text \<open>
  The Simple File System below its directories: the disk format of src/ucore_os/kern/fs/sfs/sfs.h, the
  block I/O of sfs_io.c, and of sfs_inode.c the block allocator, the block map of a file, reading,
  writing and truncating.

  A function gets the file system \<open>f\<close>, the in-memory inode \<open>sin\<close> and the device state \<open>s\<close>, and returns
  those it changes. Structures on disk are their bytes. The semaphores are not part of the model: every
  function that takes one runs alone while it holds it.
\<close>

section \<open>Constants and structures (sfs.h)\<close>

definition SFS_MAGIC :: u32 where "SFS_MAGIC = 0x2f8dbe2a"
definition SFS_BLKSIZE :: nat where "SFS_BLKSIZE = 4096"
definition SFS_NDIRECT :: nat where "SFS_NDIRECT = 12"
definition SFS_MAX_INFO_LEN :: nat where "SFS_MAX_INFO_LEN = 31"
definition SFS_MAX_FNAME_LEN :: nat where "SFS_MAX_FNAME_LEN = 255"
definition SFS_MAX_FILE_SIZE :: nat where "SFS_MAX_FILE_SIZE = 1024 * 1024 * 128"
definition SFS_BLKN_SUPER :: u32 where "SFS_BLKN_SUPER = 0"
definition SFS_BLKN_ROOT :: u32 where "SFS_BLKN_ROOT = 1"
definition SFS_BLKN_FREEMAP :: u32 where "SFS_BLKN_FREEMAP = 2"
definition SFS_BLKBITS :: u32 where "SFS_BLKBITS = 32768"
definition SFS_BLK_NENTRY :: nat where "SFS_BLK_NENTRY = 1024"
definition SFS_TYPE_FILE :: u16 where "SFS_TYPE_FILE = 1"
definition SFS_TYPE_DIR :: u16 where "SFS_TYPE_DIR = 2"
definition SFS_TYPE_LINK :: u16 where "SFS_TYPE_LINK = 3"

record sfs_super =
  sb_magic :: u32
  sb_blocks :: u32
  sb_unused :: u32
  sb_info :: "u8 list"

record sfs_disk_inode =
  di_size :: u32
  di_type :: u16
  di_nlinks :: u16
  di_blocks :: u32
  di_direct :: "u32 list"
  di_indirect :: u32

record sfs_disk_entry =
  de_ino :: u32
  de_name :: "u8 list"

record sfs_inode =
  sin_din :: sfs_disk_inode
  sin_ino :: u32
  sin_dirty :: bool
  sin_reclaim :: int

record sfs_fs =
  sfs_sb :: sfs_super
  sfs_dev :: device
  sfs_freemap :: bitmap
  sfs_super_dirty :: bool
  sfs_buffer :: "u8 list"
  sfs_inodes :: "nat list"
  sfs_hash :: "nat \<Rightarrow> nat list"

definition sfs_freemap_bits :: "sfs_super \<Rightarrow> u32" where
  "sfs_freemap_bits sb = ROUNDUP (sb_blocks sb) SFS_BLKBITS"

definition sfs_freemap_blocks :: "sfs_super \<Rightarrow> u32" where
  "sfs_freemap_blocks sb = ROUNDUP_DIV (sb_blocks sb) SFS_BLKBITS"

text \<open>The bytes of the structures.\<close>

definition enc_super :: "sfs_super \<Rightarrow> u8 list" where
  "enc_super sb = le32 (sb_magic sb) @ le32 (sb_blocks sb) @ le32 (sb_unused sb) @ sb_info sb"

definition dec_super :: "u8 list \<Rightarrow> sfs_super" where
  "dec_super bs = \<lparr>sb_magic = words_of bs 0, sb_blocks = words_of bs 1, sb_unused = words_of bs 2, sb_info = take (SFS_MAX_INFO_LEN + 1) (drop 12 bs)\<rparr>"

definition enc_din :: "sfs_disk_inode \<Rightarrow> u8 list" where
  "enc_din d = le32 (di_size d) @ le16 (di_type d) @ le16 (di_nlinks d) @ le32 (di_blocks d) @ concat (map le32 (di_direct d)) @ le32 (di_indirect d)"

definition dec_din :: "u8 list \<Rightarrow> sfs_disk_inode" where
  "dec_din bs = \<lparr>di_size = words_of bs 0, di_type = of_le16 (take 2 (drop 4 bs)), di_nlinks = of_le16 (take 2 (drop 6 bs)), di_blocks = words_of bs 2,
     di_direct = map (\<lambda>i. words_of bs (3 + i)) [0..<SFS_NDIRECT], di_indirect = words_of bs (3 + SFS_NDIRECT)\<rparr>"

definition din_size :: nat where "din_size = 64"

definition enc_entry :: "sfs_disk_entry \<Rightarrow> u8 list" where
  "enc_entry e = le32 (de_ino e) @ de_name e"

definition dec_entry :: "u8 list \<Rightarrow> sfs_disk_entry" where
  "dec_entry bs = \<lparr>de_ino = words_of bs 0, de_name = take (SFS_MAX_FNAME_LEN + 1) (drop 4 bs)\<rparr>"

definition entry_size :: nat where "entry_size = 260"

section \<open>Block I/O (sfs_io.c)\<close>

definition sfs_rwblock_nolock :: "sfs_fs \<Rightarrow> u8 list \<Rightarrow> u32 \<Rightarrow> bool \<Rightarrow> bool \<Rightarrow> 'a devs_scheme \<Rightarrow> (int \<times> u8 list \<times> 'a devs_scheme) option" where
  "sfs_rwblock_nolock f buf blkno wr check s = do {
     kassert ((blkno \<noteq> 0 \<or> \<not> check) \<and> blkno < sb_blocks (sfs_sb f));
     let iob = iobuf_init buf 0 SFS_BLKSIZE (sint (blkno * word_of_nat SFS_BLKSIZE));
     (ret, iob, s) \<leftarrow> dop_io (sfs_dev f) iob wr s;
     Some (ret, io_buf iob, s)
   }"

text \<open>The loop of \<open>sfs_rwblock\<close>; \<open>buf\<close> is what lies before and from the current position.\<close>

fun sfs_rwblock_loop :: "sfs_fs \<Rightarrow> u8 list \<Rightarrow> u8 list \<Rightarrow> u32 \<Rightarrow> nat \<Rightarrow> bool \<Rightarrow> 'a devs_scheme \<Rightarrow> (int \<times> u8 list \<times> 'a devs_scheme) option" where
  "sfs_rwblock_loop f done_part buf blkno 0 wr s = Some (0, done_part @ buf, s)"
| "sfs_rwblock_loop f done_part buf blkno (Suc nblks) wr s = do {
     (ret, buf, s) \<leftarrow> sfs_rwblock_nolock f buf blkno wr True s;
     if ret \<noteq> 0 then Some (ret, done_part @ buf, s)
     else sfs_rwblock_loop f (done_part @ take SFS_BLKSIZE buf) (drop SFS_BLKSIZE buf) (blkno + 1) nblks wr s
   }"

definition sfs_rwblock :: "sfs_fs \<Rightarrow> u8 list \<Rightarrow> u32 \<Rightarrow> nat \<Rightarrow> bool \<Rightarrow> 'a devs_scheme \<Rightarrow> (int \<times> u8 list \<times> 'a devs_scheme) option" where
  "sfs_rwblock f buf blkno nblks wr s = sfs_rwblock_loop f [] buf blkno nblks wr s"

definition sfs_rblock :: "sfs_fs \<Rightarrow> u8 list \<Rightarrow> u32 \<Rightarrow> nat \<Rightarrow> 'a devs_scheme \<Rightarrow> (int \<times> u8 list \<times> 'a devs_scheme) option" where
  "sfs_rblock f buf blkno nblks s = sfs_rwblock f buf blkno nblks False s"

definition sfs_wblock :: "sfs_fs \<Rightarrow> u8 list \<Rightarrow> u32 \<Rightarrow> nat \<Rightarrow> 'a devs_scheme \<Rightarrow> (int \<times> u8 list \<times> 'a devs_scheme) option" where
  "sfs_wblock f buf blkno nblks s = sfs_rwblock f buf blkno nblks True s"

text \<open>\<open>sfs_rbuf\<close> returns the bytes copied to the caller's buffer; there are none if the read fails.\<close>

definition sfs_rbuf :: "sfs_fs \<Rightarrow> nat \<Rightarrow> u32 \<Rightarrow> nat \<Rightarrow> 'a devs_scheme \<Rightarrow> (int \<times> u8 list \<times> sfs_fs \<times> 'a devs_scheme) option" where
  "sfs_rbuf f len blkno offset s = do {
     kassert (offset < SFS_BLKSIZE \<and> offset + len \<le> SFS_BLKSIZE);
     (ret, buf, s) \<leftarrow> sfs_rwblock_nolock f (sfs_buffer f) blkno False True s;
     Some (ret, if ret = 0 then take len (drop offset buf) else [], f\<lparr>sfs_buffer := buf\<rparr>, s)
   }"

definition sfs_wbuf :: "sfs_fs \<Rightarrow> u8 list \<Rightarrow> u32 \<Rightarrow> nat \<Rightarrow> 'a devs_scheme \<Rightarrow> (int \<times> sfs_fs \<times> 'a devs_scheme) option" where
  "sfs_wbuf f data blkno offset s = do {
     kassert (offset < SFS_BLKSIZE \<and> offset + length data \<le> SFS_BLKSIZE);
     (ret, buf, s) \<leftarrow> sfs_rwblock_nolock f (sfs_buffer f) blkno False True s;
     if ret = 0 then do {
       let buf = overlay buf offset data;
       (ret, buf, s) \<leftarrow> sfs_rwblock_nolock f buf blkno True True s;
       Some (ret, f\<lparr>sfs_buffer := buf\<rparr>, s)
     }
     else Some (ret, f\<lparr>sfs_buffer := buf\<rparr>, s)
   }"

definition sfs_sync_super :: "sfs_fs \<Rightarrow> 'a devs_scheme \<Rightarrow> (int \<times> sfs_fs \<times> 'a devs_scheme) option" where
  "sfs_sync_super f s = do {
     let buf = overlay (replicate SFS_BLKSIZE 0) 0 (enc_super (sfs_sb f));
     (ret, buf, s) \<leftarrow> sfs_rwblock_nolock f buf SFS_BLKN_SUPER True False s;
     Some (ret, f\<lparr>sfs_buffer := buf\<rparr>, s)
   }"

definition sfs_sync_freemap :: "sfs_fs \<Rightarrow> 'a devs_scheme \<Rightarrow> (int \<times> 'a devs_scheme) option" where
  "sfs_sync_freemap f s = do {
     let nblks = sfs_freemap_blocks (sfs_sb f);
     (ret, _, s) \<leftarrow> sfs_wblock f (concat (map le32 (fst (bitmap_getdata (sfs_freemap f))))) SFS_BLKN_FREEMAP (unat nblks) s;
     Some (ret, s)
   }"

text \<open>The loop of \<open>sfs_clear_block\<close>. With no block to clear \<open>ret\<close> is not initialised: the function has no result.\<close>

fun sfs_clear_loop :: "sfs_fs \<Rightarrow> u32 \<Rightarrow> nat \<Rightarrow> 'a devs_scheme \<Rightarrow> (int \<times> 'a devs_scheme) option" where
  "sfs_clear_loop f blkno 0 s = None"
| "sfs_clear_loop f blkno (Suc nblks) s = do {
     (ret, _, s) \<leftarrow> sfs_rwblock_nolock f (replicate SFS_BLKSIZE 0) blkno True True s;
     if ret \<noteq> 0 \<or> nblks = 0 then Some (ret, s) else sfs_clear_loop f (blkno + 1) nblks s
   }"

definition sfs_clear_block :: "sfs_fs \<Rightarrow> u32 \<Rightarrow> nat \<Rightarrow> 'a devs_scheme \<Rightarrow> (int \<times> sfs_fs \<times> 'a devs_scheme) option" where
  "sfs_clear_block f blkno nblks s = do {
     (ret, s) \<leftarrow> sfs_clear_loop f blkno nblks s;
     Some (ret, f\<lparr>sfs_buffer := replicate SFS_BLKSIZE 0\<rparr>, s)
   }"

section \<open>Allocating blocks (sfs_inode.c)\<close>

definition sfs_block_inuse :: "sfs_fs \<Rightarrow> u32 \<Rightarrow> bool option" where
  "sfs_block_inuse f ino =
     (if ino \<noteq> 0 \<and> ino < sb_blocks (sfs_sb f) then do { t \<leftarrow> bitmap_test (sfs_freemap f) (unat ino); Some (\<not> t) } else panic)"

definition sfs_block_alloc :: "sfs_fs \<Rightarrow> 'a devs_scheme \<Rightarrow> (int \<times> u32 \<times> sfs_fs \<times> 'a devs_scheme) option" where
  "sfs_block_alloc f s = do {
     (ret, ino, bm) \<leftarrow> bitmap_alloc (sfs_freemap f);
     if ret \<noteq> 0 then Some (ret, 0, f, s)
     else do {
       let f = f\<lparr>sfs_freemap := bm\<rparr>;
       kassert (sb_unused (sfs_sb f) > 0);
       let f = f\<lparr>sfs_sb := (sfs_sb f)\<lparr>sb_unused := sb_unused (sfs_sb f) - 1\<rparr>, sfs_super_dirty := True\<rparr>;
       inuse \<leftarrow> sfs_block_inuse f (word_of_nat ino);
       kassert inuse;
       (ret, f, s) \<leftarrow> sfs_clear_block f (word_of_nat ino) 1 s;
       Some (ret, word_of_nat ino, f, s)
     }
   }"

definition sfs_block_free :: "sfs_fs \<Rightarrow> u32 \<Rightarrow> sfs_fs option" where
  "sfs_block_free f ino = do {
     inuse \<leftarrow> sfs_block_inuse f ino;
     kassert inuse;
     bm \<leftarrow> bitmap_free (sfs_freemap f) (unat ino);
     Some (f\<lparr>sfs_freemap := bm, sfs_sb := (sfs_sb f)\<lparr>sb_unused := sb_unused (sfs_sb f) + 1\<rparr>, sfs_super_dirty := True\<rparr>)
   }"

section \<open>The block map (sfs_inode.c)\<close>

text \<open>The result is the return value, \<open>*entp\<close> and \<open>*ino_store\<close>, and the state.\<close>

definition sfs_bmap_get_sub_nolock :: "sfs_fs \<Rightarrow> u32 \<Rightarrow> nat \<Rightarrow> bool \<Rightarrow> 'a devs_scheme \<Rightarrow> (int \<times> u32 \<times> u32 \<times> sfs_fs \<times> 'a devs_scheme) option" where
  "sfs_bmap_get_sub_nolock f entp index create s = do {
     kassert (index < SFS_BLK_NENTRY);
     let offset = index * 4;
     (ret, fin, ent, ino, f, s) \<leftarrow>
       (if entp \<noteq> 0 then do {
          (ret, bs, f, s) \<leftarrow> sfs_rbuf f 4 entp offset s;
          if ret \<noteq> 0 then Some (ret, True, entp, 0, f, s)
          else Some (0, of_le32 bs \<noteq> 0 \<or> \<not> create, entp, of_le32 bs, f, s)
        }
        else if \<not> create then Some (0, True, entp, 0, f, s)
        else do {
          (ret, ent, f, s) \<leftarrow> sfs_block_alloc f s;
          Some (ret, ret \<noteq> 0, ent, 0, f, s)
        });
     if ret \<noteq> 0 then Some (ret, entp, 0, f, s)
     else if fin then Some (0, ent, ino, f, s)
     else do {
       (ret, ino, f, s) \<leftarrow> sfs_block_alloc f s;
       (ret, f, s) \<leftarrow>
         (if ret \<noteq> 0 then Some (ret, f, s)
          else do {
            (ret, f, s) \<leftarrow> sfs_wbuf f (le32 ino) ent offset s;
            if ret \<noteq> 0 then do { f \<leftarrow> sfs_block_free f ino; Some (ret, f, s) } else Some (ret, f, s)
          });
       if ret \<noteq> 0 then
         if ent \<noteq> entp then do { f \<leftarrow> sfs_block_free f ent; Some (ret, entp, 0, f, s) } else Some (ret, entp, 0, f, s)
       else Some (0, ent, ino, f, s)
     }
   }"

abbreviation upd_din :: "(sfs_disk_inode \<Rightarrow> sfs_disk_inode) \<Rightarrow> sfs_inode \<Rightarrow> sfs_inode" where
  "upd_din g sin \<equiv> sin\<lparr>sin_din := g (sin_din sin)\<rparr>"

definition sfs_bmap_get_nolock :: "sfs_fs \<Rightarrow> sfs_inode \<Rightarrow> nat \<Rightarrow> bool \<Rightarrow> 'a devs_scheme \<Rightarrow> (int \<times> u32 \<times> sfs_inode \<times> sfs_fs \<times> 'a devs_scheme) option" where
  "sfs_bmap_get_nolock f sin index create s = do {
     let din = sin_din sin;
     (ret, ino, sin, f, s) \<leftarrow>
       (if index < SFS_NDIRECT then
          if di_direct din ! index = 0 \<and> create then do {
            (ret, ino, f, s) \<leftarrow> sfs_block_alloc f s;
            if ret \<noteq> 0 then Some (ret, 0, sin, f, s)
            else Some (0, ino, (upd_din (\<lambda>d. d\<lparr>di_direct := (di_direct d)[index := ino]\<rparr>) sin)\<lparr>sin_dirty := True\<rparr>, f, s)
          }
          else Some (0, di_direct din ! index, sin, f, s)
        else if index - SFS_NDIRECT < SFS_BLK_NENTRY then do {
          (ret, ent, ino, f, s) \<leftarrow> sfs_bmap_get_sub_nolock f (di_indirect din) (index - SFS_NDIRECT) create s;
          if ret \<noteq> 0 then Some (ret, 0, sin, f, s)
          else if ent \<noteq> di_indirect din then do {
            kassert (di_indirect din = 0);
            Some (0, ino, (upd_din (\<lambda>d. d\<lparr>di_indirect := ent\<rparr>) sin)\<lparr>sin_dirty := True\<rparr>, f, s)
          }
          else Some (0, ino, sin, f, s)
        }
        else panic);
     if ret \<noteq> 0 then Some (ret, 0, sin, f, s)
     else do {
       inuse \<leftarrow> (if ino = 0 then Some True else sfs_block_inuse f ino);
       kassert inuse;
       Some (0, ino, sin, f, s)
     }
   }"

definition sfs_bmap_free_sub_nolock :: "sfs_fs \<Rightarrow> u32 \<Rightarrow> nat \<Rightarrow> 'a devs_scheme \<Rightarrow> (int \<times> sfs_fs \<times> 'a devs_scheme) option" where
  "sfs_bmap_free_sub_nolock f ent index s = do {
     inuse \<leftarrow> sfs_block_inuse f ent;
     kassert (inuse \<and> index < SFS_BLK_NENTRY);
     let offset = index * 4;
     (ret, bs, f, s) \<leftarrow> sfs_rbuf f 4 ent offset s;
     if ret \<noteq> 0 then Some (ret, f, s)
     else if of_le32 bs \<noteq> 0 then do {
       (ret, f, s) \<leftarrow> sfs_wbuf f (le32 0) ent offset s;
       if ret \<noteq> 0 then Some (ret, f, s)
       else do { f \<leftarrow> sfs_block_free f (of_le32 bs); Some (0, f, s) }
     }
     else Some (0, f, s)
   }"

definition sfs_bmap_free_nolock :: "sfs_fs \<Rightarrow> sfs_inode \<Rightarrow> nat \<Rightarrow> 'a devs_scheme \<Rightarrow> (int \<times> sfs_inode \<times> sfs_fs \<times> 'a devs_scheme) option" where
  "sfs_bmap_free_nolock f sin index s =
     (let din = sin_din sin in
      if index < SFS_NDIRECT then
        if di_direct din ! index \<noteq> 0 then do {
          f \<leftarrow> sfs_block_free f (di_direct din ! index);
          Some (0, (upd_din (\<lambda>d. d\<lparr>di_direct := (di_direct d)[index := 0]\<rparr>) sin)\<lparr>sin_dirty := True\<rparr>, f, s)
        }
        else Some (0, sin, f, s)
      else if index - SFS_NDIRECT < SFS_BLK_NENTRY then
        if di_indirect din \<noteq> 0 then do {
          (ret, f, s) \<leftarrow> sfs_bmap_free_sub_nolock f (di_indirect din) (index - SFS_NDIRECT) s;
          Some (ret, sin, f, s)
        }
        else Some (0, sin, f, s)
      else Some (0, sin, f, s))"

definition sfs_bmap_load_nolock :: "sfs_fs \<Rightarrow> sfs_inode \<Rightarrow> nat \<Rightarrow> 'a devs_scheme \<Rightarrow> (int \<times> u32 \<times> sfs_inode \<times> sfs_fs \<times> 'a devs_scheme) option" where
  "sfs_bmap_load_nolock f sin index s = do {
     kassert (index \<le> unat (di_blocks (sin_din sin)));
     let create = (index = unat (di_blocks (sin_din sin)));
     (ret, ino, sin, f, s) \<leftarrow> sfs_bmap_get_nolock f sin index create s;
     if ret \<noteq> 0 then Some (ret, 0, sin, f, s)
     else do {
       inuse \<leftarrow> sfs_block_inuse f ino;
       kassert inuse;
       Some (0, ino, if create then upd_din (\<lambda>d. d\<lparr>di_blocks := di_blocks d + 1\<rparr>) sin else sin, f, s)
     }
   }"

definition sfs_bmap_truncate_nolock :: "sfs_fs \<Rightarrow> sfs_inode \<Rightarrow> 'a devs_scheme \<Rightarrow> (int \<times> sfs_inode \<times> sfs_fs \<times> 'a devs_scheme) option" where
  "sfs_bmap_truncate_nolock f sin s = do {
     kassert (di_blocks (sin_din sin) \<noteq> 0);
     (ret, sin, f, s) \<leftarrow> sfs_bmap_free_nolock f sin (unat (di_blocks (sin_din sin) - 1)) s;
     if ret \<noteq> 0 then Some (ret, sin, f, s)
     else Some (0, (upd_din (\<lambda>d. d\<lparr>di_blocks := di_blocks d - 1\<rparr>) sin)\<lparr>sin_dirty := True\<rparr>, f, s)
   }"

section \<open>Reading and writing (sfs_inode.c)\<close>

text \<open>
  One call of \<open>sfs_bmap_load_nolock\<close> followed by \<open>sfs_buf_op\<close> or \<open>sfs_block_op\<close>, on \<open>sz\<close> bytes at
  position \<open>pos\<close> of the caller's buffer; \<open>off\<close> is the offset in the block, \<open>None\<close> a whole block.
\<close>

definition sfs_io_piece :: "bool \<Rightarrow> sfs_fs \<Rightarrow> sfs_inode \<Rightarrow> u8 list \<Rightarrow> nat \<Rightarrow> nat \<Rightarrow> nat \<Rightarrow> nat option \<Rightarrow> 'a devs_scheme \<Rightarrow>
    (int \<times> u8 list \<times> sfs_inode \<times> sfs_fs \<times> 'a devs_scheme) option" where
  "sfs_io_piece wr f sin buf pos blkno sz off s = do {
     (ret, ino, sin, f, s) \<leftarrow> sfs_bmap_load_nolock f sin blkno s;
     if ret \<noteq> 0 then Some (ret, buf, sin, f, s)
     else (case off of
         Some blkoff \<Rightarrow>
           if wr then do {
             (ret, f, s) \<leftarrow> sfs_wbuf f (take sz (drop pos buf)) ino blkoff s;
             Some (ret, buf, sin, f, s)
           }
           else do {
             (ret, bs, f, s) \<leftarrow> sfs_rbuf f sz ino blkoff s;
             Some (ret, overlay buf pos bs, sin, f, s)
           }
       | None \<Rightarrow> do {
           (ret, rest, s) \<leftarrow> (if wr then sfs_wblock else sfs_rblock) f (drop pos buf) ino 1 s;
           Some (ret, take pos buf @ rest, sin, f, s)
         })
   }"

fun sfs_io_blocks :: "bool \<Rightarrow> sfs_fs \<Rightarrow> sfs_inode \<Rightarrow> u8 list \<Rightarrow> nat \<Rightarrow> nat \<Rightarrow> nat \<Rightarrow> 'a devs_scheme \<Rightarrow>
    (int \<times> nat \<times> u8 list \<times> sfs_inode \<times> sfs_fs \<times> 'a devs_scheme) option" where
  "sfs_io_blocks wr f sin buf alen blkno 0 s = Some (0, alen, buf, sin, f, s)"
| "sfs_io_blocks wr f sin buf alen blkno (Suc nblks) s = do {
     (ret, buf, sin, f, s) \<leftarrow> sfs_io_piece wr f sin buf alen blkno SFS_BLKSIZE None s;
     if ret \<noteq> 0 then Some (ret, alen, buf, sin, f, s)
     else sfs_io_blocks wr f sin buf (alen + SFS_BLKSIZE) (blkno + 1) nblks s
   }"

text \<open>The whole blocks and the last piece, of \<open>sz\<close> bytes.\<close>

definition sfs_io_rest :: "bool \<Rightarrow> sfs_fs \<Rightarrow> sfs_inode \<Rightarrow> u8 list \<Rightarrow> nat \<Rightarrow> nat \<Rightarrow> nat \<Rightarrow> nat \<Rightarrow> 'a devs_scheme \<Rightarrow>
    (int \<times> nat \<times> u8 list \<times> sfs_inode \<times> sfs_fs \<times> 'a devs_scheme) option" where
  "sfs_io_rest wr f sin buf alen blkno nblks sz s = do {
     (ret, alen, buf, sin, f, s) \<leftarrow> sfs_io_blocks wr f sin buf alen blkno nblks s;
     if ret \<noteq> 0 then Some (ret, alen, buf, sin, f, s)
     else if sz \<noteq> 0 then do {
       (ret, buf, sin, f, s) \<leftarrow> sfs_io_piece wr f sin buf alen (blkno + nblks) sz (Some 0) s;
       Some (ret, if ret \<noteq> 0 then alen else alen + sz, buf, sin, f, s)
     }
     else Some (0, alen, buf, sin, f, s)
   }"

text \<open>From the first transfer to the label \<open>out\<close>; the position in the buffer is always \<open>alen\<close>.\<close>

definition sfs_io_transfer :: "bool \<Rightarrow> sfs_fs \<Rightarrow> sfs_inode \<Rightarrow> u8 list \<Rightarrow> nat \<Rightarrow> nat \<Rightarrow> 'a devs_scheme \<Rightarrow>
    (int \<times> nat \<times> u8 list \<times> sfs_inode \<times> sfs_fs \<times> 'a devs_scheme) option" where
  "sfs_io_transfer wr f sin buf offset endpos s =
     (let blkno = offset div SFS_BLKSIZE;
          nblks = endpos div SFS_BLKSIZE - blkno;
          blkoff = offset mod SFS_BLKSIZE in do {
      (ret, fin, alen, blkno, nblks, buf, sin, f, s) \<leftarrow>
        (if blkoff \<noteq> 0 then do {
           let sz = (if nblks \<noteq> 0 then SFS_BLKSIZE - blkoff else endpos - offset);
           (ret, buf, sin, f, s) \<leftarrow> sfs_io_piece wr f sin buf 0 blkno sz (Some blkoff) s;
           if ret \<noteq> 0 then Some (ret, True, 0, blkno, nblks, buf, sin, f, s)
           else Some (0, nblks = 0, sz, blkno + 1, nblks - 1, buf, sin, f, s)
         }
         else Some (0, False, 0, blkno, nblks, buf, sin, f, s));
      if fin then Some (ret, alen, buf, sin, f, s) else sfs_io_rest wr f sin buf alen blkno nblks (endpos mod SFS_BLKSIZE) s
    })"

definition sfs_io_nolock :: "bool \<Rightarrow> sfs_fs \<Rightarrow> sfs_inode \<Rightarrow> u8 list \<Rightarrow> int \<Rightarrow> nat \<Rightarrow> 'a devs_scheme \<Rightarrow>
    (int \<times> nat \<times> u8 list \<times> sfs_inode \<times> sfs_fs \<times> 'a devs_scheme) option" where
  "sfs_io_nolock wr f sin buf offset alen s = do {
     let din = sin_din sin;
     kassert (di_type din \<noteq> SFS_TYPE_DIR);
     let endpos = sint (word_of_int (offset + int alen) :: u32);
     if offset < 0 \<or> offset \<ge> int SFS_MAX_FILE_SIZE \<or> offset > endpos then Some (- E_INVAL, 0, buf, sin, f, s)
     else if offset = endpos then Some (0, 0, buf, sin, f, s)
     else do {
       let endpos = (if endpos > int SFS_MAX_FILE_SIZE then int SFS_MAX_FILE_SIZE else endpos);
       if \<not> wr \<and> offset \<ge> uint (di_size din) then Some (0, 0, buf, sin, f, s)
       else do {
         let endpos = (if \<not> wr \<and> endpos > uint (di_size din) then uint (di_size din) else endpos);
         (ret, alen, buf, sin, f, s) \<leftarrow> sfs_io_transfer wr f sin buf (nat offset) (nat endpos) s;
         let sin = (if nat offset + alen > unat (di_size (sin_din sin))
                    then (upd_din (\<lambda>d. d\<lparr>di_size := word_of_nat (nat offset + alen)\<rparr>) sin)\<lparr>sin_dirty := True\<rparr> else sin);
         Some (ret, alen, buf, sin, f, s)
       }
     }
   }"

section \<open>Truncating (sfs_inode.c)\<close>

fun trunc_grow :: "sfs_fs \<Rightarrow> sfs_inode \<Rightarrow> nat \<Rightarrow> nat \<Rightarrow> 'a devs_scheme \<Rightarrow> (int \<times> sfs_inode \<times> sfs_fs \<times> 'a devs_scheme) option" where
  "trunc_grow f sin nblks 0 s = Some (0, sin, f, s)"
| "trunc_grow f sin nblks (Suc k) s = do {
     (ret, _, sin, f, s) \<leftarrow> sfs_bmap_load_nolock f sin nblks s;
     if ret \<noteq> 0 then Some (ret, sin, f, s) else trunc_grow f sin (nblks + 1) k s
   }"

fun trunc_shrink :: "sfs_fs \<Rightarrow> sfs_inode \<Rightarrow> nat \<Rightarrow> 'a devs_scheme \<Rightarrow> (int \<times> sfs_inode \<times> sfs_fs \<times> 'a devs_scheme) option" where
  "trunc_shrink f sin 0 s = Some (0, sin, f, s)"
| "trunc_shrink f sin (Suc k) s = do {
     (ret, sin, f, s) \<leftarrow> sfs_bmap_truncate_nolock f sin s;
     if ret \<noteq> 0 then Some (ret, sin, f, s) else trunc_shrink f sin k s
   }"

definition sfs_truncfile :: "sfs_fs \<Rightarrow> sfs_inode \<Rightarrow> int \<Rightarrow> 'a devs_scheme \<Rightarrow> (int \<times> sfs_inode \<times> sfs_fs \<times> 'a devs_scheme) option" where
  "sfs_truncfile f sin len s =
     (if len < 0 \<or> len > int SFS_MAX_FILE_SIZE then Some (- E_INVAL, sin, f, s)
      else do {
        let tblks = unat (ROUNDUP_DIV (word_of_int len) (word_of_nat SFS_BLKSIZE));
        if uint (di_size (sin_din sin)) = len then do {
          kassert (tblks = unat (di_blocks (sin_din sin)));
          Some (0, sin, f, s)
        }
        else do {
          let nblks = unat (di_blocks (sin_din sin));
          (ret, sin, f, s) \<leftarrow>
            (if nblks < tblks then trunc_grow f sin nblks (tblks - nblks) s
             else trunc_shrink f sin (nblks - tblks) s);
          if ret \<noteq> 0 then Some (ret, sin, f, s)
          else do {
            kassert (unat (di_blocks (sin_din sin)) = tblks);
            Some (0, (upd_din (\<lambda>d. d\<lparr>di_size := word_of_int len\<rparr>) sin)\<lparr>sin_dirty := True\<rparr>, f, s)
          }
        }
      })"

end
