(* ===== verification/Sfs_File.thy ===== *)
theory Sfs_File
  imports Sfs
begin

text \<open>
  Correctness of the file level of the Simple File System.

  \<open>sfs_ok\<close> is the invariant of a mounted file system: the disk works, the free map marks only blocks of
  the file system other than the super block, and \<open>unused_blocks\<close> counts the free ones. \<open>inode_ok\<close> is the
  invariant of an inode in memory: its block map names different blocks that are in use, and nothing
  past its end. A file is the function \<open>fbyte\<close> from positions to bytes; the blocks in use that do not
  belong to the file are \<open>others\<close>.
\<close>

section \<open>The file system invariant\<close>

abbreviation fs_free :: "sfs_fs \<Rightarrow> nat set" where "fs_free f \<equiv> free_bits (sfs_freemap f)"
abbreviation fs_nblocks :: "sfs_fs \<Rightarrow> nat" where "fs_nblocks f \<equiv> unat (sb_blocks (sfs_sb f))"

definition sfs_ok :: "sfs_fs \<Rightarrow> 'a devs_scheme \<Rightarrow> bool" where
  "sfs_ok f s \<longleftrightarrow> good_disk (fs_nblocks f) s \<and> d_ops (sfs_dev f) = Disk0_ops \<and> fs_nblocks f \<le> unat (d_blocks (sfs_dev f)) \<and>
     fs_nblocks f \<le> 2 ^ 19 \<and> length (sfs_buffer f) = SFS_BLKSIZE \<and> bitmap_ok (sfs_freemap f) \<and> fs_nblocks f \<le> nbits (sfs_freemap f) \<and>
     fs_free f \<subseteq> {0<..<fs_nblocks f} \<and> unat (sb_unused (sfs_sb f)) = card (fs_free f)"

text \<open>What the operations below never change of a file system.\<close>

abbreviation fs_frame :: "sfs_fs \<Rightarrow> sfs_fs \<Rightarrow> bool" where
  "fs_frame f f' \<equiv> sb_blocks (sfs_sb f') = sb_blocks (sfs_sb f) \<and> sfs_dev f' = sfs_dev f \<and> sfs_inodes f' = sfs_inodes f \<and> sfs_hash f' = sfs_hash f"

text \<open>A state that differs only in the contents of the disk and of the driver's buffer.\<close>

definition disk_only :: "'a devs_scheme \<Rightarrow> 'a devs_scheme \<Rightarrow> bool" where
  "disk_only s s' \<longleftrightarrow> disk_frame s s'"

lemma disk_only_refl [simp]: "disk_only s s"
  by (simp add: disk_only_def)

lemma disk_only_trans [trans]: "disk_only s s1 \<Longrightarrow> disk_only s1 s2 \<Longrightarrow> disk_only s s2"
  unfolding disk_only_def by (rule disk_frame_trans)

lemma BLKSIZE_eq: "SFS_BLKSIZE = DISK0_BLKSIZE"
  by (simp add: SFS_BLKSIZE_def DISK0_BLKSIZE_def)

lemma SFS_BLKSIZE_pos [simp]: "0 < SFS_BLKSIZE" "SFS_BLKSIZE \<noteq> 0"
  by (simp_all add: SFS_BLKSIZE_def)

lemma length_blk_sfs [simp]: "length (blk s n) = SFS_BLKSIZE"
  by (simp add: BLKSIZE_eq)

declare length_blk [simp del]

lemma finite_fs_free: "sfs_ok f s \<Longrightarrow> finite (fs_free f)"
  unfolding sfs_ok_def by (elim conjE) (rule finite_subset, assumption, simp)

lemma sfs_ok_buffer: "sfs_ok f s \<Longrightarrow> length buf = SFS_BLKSIZE \<Longrightarrow> sfs_ok (f\<lparr>sfs_buffer := buf\<rparr>) s"
  by (simp add: sfs_ok_def)

lemma sfs_ok_disk: "sfs_ok f s \<Longrightarrow> good_disk (fs_nblocks f) s' \<Longrightarrow> sfs_ok f s'"
  by (simp add: sfs_ok_def)

lemma block_offset: "unat b \<le> 2 ^ 19 - 1 \<Longrightarrow> sint (b * word_of_nat SFS_BLKSIZE) = int (DISK0_BLKSIZE * unat b)" for b :: u32
proof -
  assume b: "unat b \<le> 2 ^ 19 - 1"
  have "unat (b * word_of_nat SFS_BLKSIZE) = SFS_BLKSIZE * unat b"
    using b by (simp add: unat_word_ariths SFS_BLKSIZE_def)
  moreover have "SFS_BLKSIZE * unat b < 2 ^ 31" using b by (simp add: SFS_BLKSIZE_def)
  ultimately have "uint (b * word_of_nat SFS_BLKSIZE) = int (DISK0_BLKSIZE * unat b)" "int (DISK0_BLKSIZE * unat b) < 2 ^ 31"
    by (simp_all only: uint_nat BLKSIZE_eq of_nat_less_numeral_power_cancel_iff)
  moreover have "- (2 ^ 31) \<le> int (DISK0_BLKSIZE * unat b)" by (rule order.trans [of _ 0]) simp_all
  ultimately show ?thesis unfolding sint_uint by (simp add: signed_take_bit_int_eq_self del: of_nat_mult)
qed

lemma sfs_rwblock_nolock_ok:
  assumes ok: "sfs_ok f s" and b: "b < fs_nblocks f" "b \<noteq> 0 \<or> \<not> check" and len: "SFS_BLKSIZE \<le> length buf"
  shows "\<exists>s'. sfs_rwblock_nolock f buf (word_of_nat b) wr check s = Some (0, if wr then buf else blk s b @ drop SFS_BLKSIZE buf, s') \<and>
    sfs_ok f s' \<and> disk_only s s' \<and> blk s' = (if wr then (blk s)(b := take SFS_BLKSIZE buf) else blk s)"
proof -
  let ?b = "word_of_nat b :: u32"
  have n: "fs_nblocks f \<le> 2 ^ 19" and g: "good_disk (fs_nblocks f) s" "fs_nblocks f \<le> unat (d_blocks (sfs_dev f))" "d_ops (sfs_dev f) = Disk0_ops"
    using ok by (simp_all add: sfs_ok_def)
  have u: "unat ?b = b" using b(1) n by (simp add: unat_of_nat take_bit_nat_eq_self)
  have off: "sint (?b * word_of_nat SFS_BLKSIZE) = int (DISK0_BLKSIZE * b)" using block_offset [of ?b] u b(1) n by simp
  have lt: "?b < sb_blocks (sfs_sb f)" using b(1) u by (simp add: word_less_nat_alt)
  have nz: "?b \<noteq> 0 \<or> \<not> check" using b(2) u by auto
  define iob where "iob = iobuf_init buf 0 SFS_BLKSIZE (int (DISK0_BLKSIZE * b))"
  have iob: "io_buf iob = buf" "io_base iob = 0" "io_offset iob = int (DISK0_BLKSIZE * b)" "io_resid iob = DISK0_BLKSIZE"
    by (simp_all add: iob_def iobuf_init_def BLKSIZE_eq)
  have "b + 1 \<le> fs_nblocks f" "0 < (1 :: nat)" "io_resid iob = DISK0_BLKSIZE * 1" "io_base iob + DISK0_BLKSIZE * 1 \<le> length (io_buf iob)"
    using b(1) len by (simp_all add: iob BLKSIZE_eq)
  note io = disk0_io_ok [OF g(1) this(1,2) g(2) iob(3) this(3,4), of wr, folded disk_only_def, unfolded iob add_0]
  obtain iob' s' where r: "disk0_io (sfs_dev f) iob wr s = Some (0, iob', s')" "good_disk (fs_nblocks f) s'" "disk_only s s'"
    "if wr then io_buf iob' = buf \<and> (\<forall>j. blk s' j = (if b \<le> j \<and> j < b + 1 then take DISK0_BLKSIZE (drop (DISK0_BLKSIZE * (j - b)) buf) else blk s j))
     else io_buf iob' = overlay buf 0 (concat (map (blk s) [b..<b + 1])) \<and> blk s' = blk s"
    using io by blast
  have run: "sfs_rwblock_nolock f buf ?b wr check s = Some (0, io_buf iob', s')"
    unfolding sfs_rwblock_nolock_def off iob_def [symmetric] Let_def using lt nz r(1) by (simp add: dop_io_def g(3))
  have "io_buf iob' = (if wr then buf else blk s b @ drop SFS_BLKSIZE buf)"
    using r(4) by (simp add: overlay_def BLKSIZE_eq split: if_splits)
  moreover have "blk s' = (if wr then (blk s)(b := take SFS_BLKSIZE buf) else blk s)"
    using r(4) unfolding BLKSIZE_eq by (cases wr) (simp_all add: fun_eq_iff)
  ultimately show ?thesis using run r(3) sfs_ok_disk [OF ok r(2)] by (intro exI [of _ s']) simp
qed

text \<open>A block number that may belong to a file: not the super block, and on the disk.\<close>

abbreviation data_block :: "sfs_fs \<Rightarrow> u32 \<Rightarrow> bool" where
  "data_block f b \<equiv> b \<noteq> 0 \<and> unat b < fs_nblocks f"

lemma sfs_block_read:
  assumes "sfs_ok f s" and "data_block f b" and "SFS_BLKSIZE \<le> length buf"
  shows "\<exists>s'. sfs_rwblock_nolock f buf b False True s = Some (0, blk s (unat b) @ drop SFS_BLKSIZE buf, s') \<and> sfs_ok f s' \<and> disk_only s s' \<and> blk s' = blk s"
  using sfs_rwblock_nolock_ok [of f s "unat b" True buf False] assms by (simp add: unat_eq_zero)

lemma sfs_block_write:
  assumes "sfs_ok f s" and "data_block f b" and "SFS_BLKSIZE \<le> length buf"
  shows "\<exists>s'. sfs_rwblock_nolock f buf b True True s = Some (0, buf, s') \<and> sfs_ok f s' \<and> disk_only s s' \<and>
    blk s' = (blk s)(unat b := take SFS_BLKSIZE buf)"
  using sfs_rwblock_nolock_ok [of f s "unat b" True buf True] assms by (simp add: unat_eq_zero)

lemma sfs_rbuf_ok:
  assumes "sfs_ok f s" and "data_block f b" and "off < SFS_BLKSIZE" "off + len \<le> SFS_BLKSIZE"
  shows "\<exists>f' s'. sfs_rbuf f len b off s = Some (0, take len (drop off (blk s (unat b))), f', s') \<and> sfs_ok f' s' \<and> fs_frame f f' \<and>
    disk_only s s' \<and> fs_free f' = fs_free f \<and> blk s' = blk s"
proof -
  have len: "length (sfs_buffer f) = SFS_BLKSIZE" using assms(1) by (simp add: sfs_ok_def)
  obtain s' where "sfs_rwblock_nolock f (sfs_buffer f) b False True s = Some (0, blk s (unat b) @ drop SFS_BLKSIZE (sfs_buffer f), s')"
    "sfs_ok f s'" "disk_only s s'" "blk s' = blk s"
    using sfs_block_read [OF assms(1,2), of "sfs_buffer f"] len by auto
  moreover from this(2) have "sfs_ok (f\<lparr>sfs_buffer := blk s (unat b)\<rparr>) s'" by (simp add: sfs_ok_buffer)
  ultimately show ?thesis using assms(3,4) len by (simp add: sfs_rbuf_def)
qed

lemma sfs_wbuf_ok:
  assumes "sfs_ok f s" and "data_block f b" and "off < SFS_BLKSIZE" "off + length data \<le> SFS_BLKSIZE"
  shows "\<exists>f' s'. sfs_wbuf f data b off s = Some (0, f', s') \<and> sfs_ok f' s' \<and> fs_frame f f' \<and>
    disk_only s s' \<and> fs_free f' = fs_free f \<and> blk s' = (blk s)(unat b := overlay (blk s (unat b)) off data)"
proof -
  have len: "length (sfs_buffer f) = SFS_BLKSIZE" using assms(1) by (simp add: sfs_ok_def)
  let ?o = "overlay (blk s (unat b)) off data"
  have lo: "length ?o = SFS_BLKSIZE" using assms(4) by simp
  obtain s1 where 1: "sfs_rwblock_nolock f (sfs_buffer f) b False True s = Some (0, blk s (unat b) @ drop SFS_BLKSIZE (sfs_buffer f), s1)"
    "sfs_ok f s1" "disk_only s s1" "blk s1 = blk s"
    using sfs_block_read [OF assms(1,2), of "sfs_buffer f"] len by auto
  obtain s' where 2: "sfs_rwblock_nolock f ?o b True True s1 = Some (0, ?o, s')" "sfs_ok f s'" "disk_only s1 s'" "blk s' = (blk s1)(unat b := take SFS_BLKSIZE ?o)"
    using sfs_block_write [OF 1(2) assms(2), of ?o] lo by auto
  have "sfs_ok (f\<lparr>sfs_buffer := ?o\<rparr>) s'" using 2(2) lo by (simp add: sfs_ok_buffer)
  moreover have "blk s' = (blk s)(unat b := ?o)" using 2(4) 1(4) lo by simp
  ultimately show ?thesis using assms(3,4) len 1(1) 2(1) disk_only_trans [OF 1(3) 2(3)] by (simp add: sfs_wbuf_def)
qed

lemma sfs_clear_block_ok:
  assumes "sfs_ok f s" and "data_block f b"
  shows "\<exists>f' s'. sfs_clear_block f b 1 s = Some (0, f', s') \<and> sfs_ok f' s' \<and> fs_frame f f' \<and>
    disk_only s s' \<and> fs_free f' = fs_free f \<and> blk s' = (blk s)(unat b := replicate SFS_BLKSIZE 0)"
proof -
  obtain s' where "sfs_rwblock_nolock f (replicate SFS_BLKSIZE 0) b True True s = Some (0, replicate SFS_BLKSIZE 0, s')"
    "sfs_ok f s'" "disk_only s s'" "blk s' = (blk s)(unat b := replicate SFS_BLKSIZE 0)"
    using sfs_block_write [OF assms, of "replicate SFS_BLKSIZE 0"] by auto
  moreover from this(2) have "sfs_ok (f\<lparr>sfs_buffer := replicate SFS_BLKSIZE 0\<rparr>) s'" by (simp add: sfs_ok_buffer)
  ultimately show ?thesis by (simp add: sfs_clear_block_def)
qed

section \<open>Allocating and freeing blocks\<close>

lemma sfs_block_inuse_ok:
  assumes "sfs_ok f s" and "data_block f b"
  shows "sfs_block_inuse f b = Some (unat b \<notin> fs_free f)"
  using assms bitmap_test_ok [of "sfs_freemap f" "unat b"] by (simp add: sfs_block_inuse_def sfs_ok_def word_less_nat_alt)

lemma sfs_block_alloc_none: "sfs_ok f s \<Longrightarrow> fs_free f = {} \<Longrightarrow> sfs_block_alloc f s = Some (- E_NO_MEM, 0, f, s)"
  using alloc_word_ok [of "sfs_freemap f" 0] by (simp add: sfs_ok_def sfs_block_alloc_def bitmap_alloc_def E_NO_MEM_def)

lemma sfs_block_alloc_some:
  assumes ok: "sfs_ok f s" and ne: "fs_free f \<noteq> {}"
  shows "\<exists>b f' s'. sfs_block_alloc f s = Some (0, b, f', s') \<and> data_block f b \<and> unat b \<in> fs_free f \<and> sfs_ok f' s' \<and> fs_frame f f' \<and>
    disk_only s s' \<and> fs_free f' = fs_free f - {unat b} \<and> blk s' = (blk s)(unat b := replicate SFS_BLKSIZE 0)"
proof -
  obtain i bm where a: "bitmap_alloc (sfs_freemap f) = Some (0, i, bm)" "i \<in> fs_free f" "bitmap_ok bm" "free_bits bm = fs_free f - {i}"
    "nbits bm = nbits (sfs_freemap f)"
    using alloc_word_ok [of "sfs_freemap f" 0] ok ne by (auto simp: sfs_ok_def bitmap_alloc_def least_free_def)
  define f1 where "f1 = f\<lparr>sfs_freemap := bm, sfs_sb := (sfs_sb f)\<lparr>sb_unused := sb_unused (sfs_sb f) - 1\<rparr>, sfs_super_dirty := True\<rparr>"
  have i: "0 < i" "i < fs_nblocks f" using a(2) ok by (auto simp: sfs_ok_def)
  have "fs_nblocks f \<le> 2 ^ 19" using ok by (simp add: sfs_ok_def)
  then have u: "unat (word_of_nat i :: u32) = i" using i(2) by (simp add: unat_of_nat take_bit_nat_eq_self)
  have db: "data_block f (word_of_nat i)" using i u by auto
  have pos: "0 < card (fs_free f)" using ne finite_fs_free [OF ok] by (simp add: card_gt_0_iff)
  then have un: "sb_unused (sfs_sb f) > 0" "sb_unused (sfs_sb f) \<noteq> 0" using ok by (auto simp: sfs_ok_def word_gt_0)
  have "unat (sb_unused (sfs_sb f) - 1) = card (fs_free f - {i})"
    using ok a(2) un(2) unat_minus_one [of "sb_unused (sfs_sb f)"] by (simp add: sfs_ok_def card_Diff_singleton)
  then have ok1: "sfs_ok f1 s" using ok a(3,4,5) by (auto simp: sfs_ok_def f1_def)
  have db1: "data_block f1 (word_of_nat i)" using db by (simp add: f1_def)
  have use: "sfs_block_inuse f1 (word_of_nat i) = Some True" using sfs_block_inuse_ok [OF ok1 db1] u a(4) by (simp add: f1_def)
  obtain f' s' where c: "sfs_clear_block f1 (word_of_nat i) 1 s = Some (0, f', s')" "sfs_ok f' s'" "fs_frame f1 f'" "disk_only s s'"
    "fs_free f' = fs_free f1" "blk s' = (blk s)(i := replicate SFS_BLKSIZE 0)"
    using sfs_clear_block_ok [OF ok1 db1] u by auto
  have "sfs_block_alloc f s = Some (0, word_of_nat i, f', s')"
    unfolding sfs_block_alloc_def a(1) using un use c(1) by (simp add: f1_def)
  then show ?thesis using db u a(2,4) c(2-6) by (intro exI [of _ "word_of_nat i"] exI [of _ f'] exI [of _ s']) (simp add: f1_def)
qed

lemma sfs_block_free_ok:
  assumes ok: "sfs_ok f s" and b: "data_block f b" "unat b \<notin> fs_free f"
  shows "\<exists>f'. sfs_block_free f b = Some f' \<and> sfs_ok f' s \<and> fs_frame f f' \<and> fs_free f' = insert (unat b) (fs_free f)"
proof -
  have "unat b < nbits (sfs_freemap f)" using ok b(1) by (simp add: sfs_ok_def)
  then obtain bm where m: "bitmap_free (sfs_freemap f) (unat b) = Some bm" "bitmap_ok bm" "free_bits bm = insert (unat b) (fs_free f)"
    "nbits bm = nbits (sfs_freemap f)" using bitmap_free_ok [of "sfs_freemap f" "unat b"] ok b(2) by (auto simp: sfs_ok_def)
  have fin: "finite (fs_free f)" using ok by (rule finite_fs_free)
  have "insert (unat b) (fs_free f) \<subseteq> {0<..<fs_nblocks f}" using ok b(1) by (auto simp: sfs_ok_def unat_gt_0)
  then have sub: "free_bits bm \<subseteq> {0<..<fs_nblocks f}" using m(3) by simp
  then have "card (free_bits bm) \<le> card {0<..<fs_nblocks f}" by (intro card_mono) simp_all
  moreover have "card (free_bits bm) = card (fs_free f) + 1" using m(3) fin b(2) by simp
  moreover have "fs_nblocks f \<le> 2 ^ 19" "unat (sb_unused (sfs_sb f)) = card (fs_free f)" using ok by (simp_all add: sfs_ok_def)
  ultimately have "unat (sb_unused (sfs_sb f)) + 1 < 2 ^ 32" by simp
  then have "unat (sb_unused (sfs_sb f) + 1) = card (free_bits bm)"
    using ok m(3) fin b(2) by (simp add: sfs_ok_def unat_word_ariths)
  then show ?thesis using ok m sub b(2) by (simp add: sfs_block_free_def sfs_block_inuse_ok [OF ok b(1)]) (simp add: sfs_ok_def)
qed

section \<open>The block map of a file\<close>

text \<open>Block \<open>i\<close> of the file, 0 if there is none, as the direct entries and the indirect block give it.\<close>

definition bmap :: "sfs_inode \<Rightarrow> 'a devs_scheme \<Rightarrow> nat \<Rightarrow> u32" where
  "bmap sin s i =
     (if i < SFS_NDIRECT then di_direct (sin_din sin) ! i
      else if di_indirect (sin_din sin) = 0 then 0
      else words_of (blk s (unat (di_indirect (sin_din sin)))) (i - SFS_NDIRECT))"

abbreviation nblk :: "sfs_inode \<Rightarrow> nat" where "nblk sin \<equiv> unat (di_blocks (sin_din sin))"
abbreviation ind :: "sfs_inode \<Rightarrow> u32" where "ind sin \<equiv> di_indirect (sin_din sin)"

definition MAXBLKS :: nat where "MAXBLKS = SFS_NDIRECT + SFS_BLK_NENTRY"

text \<open>The blocks of a file, and the blocks in use by anything else.\<close>

definition owned :: "sfs_inode \<Rightarrow> 'a devs_scheme \<Rightarrow> nat set" where
  "owned sin s = unat ` bmap sin s ` {..<nblk sin} \<union> (if ind sin = 0 then {} else {unat (ind sin)})"

definition others :: "sfs_fs \<Rightarrow> sfs_inode \<Rightarrow> 'a devs_scheme \<Rightarrow> nat set" where
  "others f sin s = {..<fs_nblocks f} - fs_free f - owned sin s"

definition inode_ok :: "sfs_fs \<Rightarrow> sfs_inode \<Rightarrow> 'a devs_scheme \<Rightarrow> bool" where
  "inode_ok f sin s \<longleftrightarrow> length (di_direct (sin_din sin)) = SFS_NDIRECT \<and> nblk sin \<le> MAXBLKS \<and>
     (\<forall>i<nblk sin. data_block f (bmap sin s i) \<and> unat (bmap sin s i) \<notin> fs_free f) \<and>
     (\<forall>i. nblk sin \<le> i \<longrightarrow> i < MAXBLKS \<longrightarrow> bmap sin s i = 0) \<and> inj_on (bmap sin s) {..<nblk sin} \<and>
     (ind sin \<noteq> 0 \<longrightarrow> data_block f (ind sin) \<and> unat (ind sin) \<notin> fs_free f \<and> ind sin \<notin> bmap sin s ` {..<nblk sin})"

definition fbyte :: "sfs_inode \<Rightarrow> 'a devs_scheme \<Rightarrow> nat \<Rightarrow> u8" where
  "fbyte sin s p = blk s (unat (bmap sin s (p div SFS_BLKSIZE))) ! (p mod SFS_BLKSIZE)"

text \<open>
  A step of a file operation from \<open>(f, sin, s)\<close> to \<open>(f', sin', s')\<close> that stores \<open>d\<close> at position \<open>off\<close>: the
  invariants hold afterwards, new blocks are zero where nothing was stored, the rest of the file and the blocks of
  the others are as they were.
\<close>

definition file_step :: "nat \<Rightarrow> u8 list \<Rightarrow> sfs_fs \<Rightarrow> sfs_inode \<Rightarrow> 'a devs_scheme \<Rightarrow> sfs_fs \<Rightarrow> sfs_inode \<Rightarrow> 'a devs_scheme \<Rightarrow> bool" where
  "file_step off d f sin s f' sin' s' \<longleftrightarrow> sfs_ok f' s' \<and> inode_ok f' sin' s' \<and> fs_frame f f' \<and> disk_only s s' \<and>
     sin_ino sin' = sin_ino sin \<and> sin_reclaim sin' = sin_reclaim sin \<and> di_size (sin_din sin') = di_size (sin_din sin) \<and>
     di_type (sin_din sin') = di_type (sin_din sin) \<and> di_nlinks (sin_din sin') = di_nlinks (sin_din sin) \<and>
     nblk sin \<le> nblk sin' \<and> (d \<noteq> [] \<longrightarrow> off + length d \<le> SFS_BLKSIZE * nblk sin') \<and> others f' sin' s' = others f sin s \<and> (\<forall>j\<in>others f sin s. blk s' j = blk s j) \<and>
     (\<forall>p<SFS_BLKSIZE * nblk sin'. fbyte sin' s' p =
        (if off \<le> p \<and> p < off + length d then d ! (p - off) else if p < SFS_BLKSIZE * nblk sin then fbyte sin s p else 0))"

text \<open>A step that changes no block and no entry of the free map.\<close>

definition quiet :: "sfs_fs \<Rightarrow> 'a devs_scheme \<Rightarrow> sfs_fs \<Rightarrow> 'a devs_scheme \<Rightarrow> bool" where
  "quiet f s f' s' \<longleftrightarrow> sfs_ok f' s' \<and> fs_frame f f' \<and> disk_only s s' \<and> fs_free f' = fs_free f \<and> blk s' = blk s"

lemma quiet_refl: "sfs_ok f s \<Longrightarrow> quiet f s f s"
  by (simp add: quiet_def)

lemma quiet_trans: "quiet f s f1 s1 \<Longrightarrow> quiet f1 s1 f2 s2 \<Longrightarrow> quiet f s f2 s2"
  unfolding quiet_def using disk_only_trans by auto

lemma quiet_bmap: "quiet f s f' s' \<Longrightarrow> bmap sin s' = bmap sin s"
  by (simp add: quiet_def bmap_def fun_eq_iff)

lemma quiet_inode_ok: "quiet f s f' s' \<Longrightarrow> inode_ok f' sin s' = inode_ok f sin s"
  by (simp add: inode_ok_def quiet_bmap) (simp add: quiet_def)

lemma quiet_file_step: "quiet f s f' s' \<Longrightarrow> inode_ok f sin s \<Longrightarrow> file_step off [] f sin s f' sin s'"
  by (simp add: file_step_def quiet_inode_ok others_def owned_def fbyte_def quiet_bmap) (auto simp: quiet_def)

lemma file_step_trans:
  assumes 1: "file_step off d f sin s f1 sin1 s1" and 2: "file_step (off + length d) d' f1 sin1 s1 f2 sin2 s2"
  shows "file_step off (d @ d') f sin s f2 sin2 s2"
proof -
  let ?P = "\<lambda>d p sin s. if off \<le> p \<and> p < off + length d then d ! (p - off) else if p < SFS_BLKSIZE * nblk sin then fbyte sin s p else 0"
  have "fbyte sin2 s2 p = ?P (d @ d') p sin s" if p: "p < SFS_BLKSIZE * nblk sin2" for p
  proof -
    have n: "SFS_BLKSIZE * nblk sin \<le> SFS_BLKSIZE * nblk sin1" using 1 by (simp add: file_step_def)
    have e2: "fbyte sin2 s2 p = (if off + length d \<le> p \<and> p < off + length d + length d' then d' ! (p - (off + length d))
      else if p < SFS_BLKSIZE * nblk sin1 then fbyte sin1 s1 p else 0)" using 2 p by (simp add: file_step_def)
    have e1: "p < SFS_BLKSIZE * nblk sin1 \<Longrightarrow> fbyte sin1 s1 p = ?P d p sin s" using 1 by (simp add: file_step_def)
    show ?thesis
    proof (cases "p < SFS_BLKSIZE * nblk sin1")
      case True
      then show ?thesis unfolding e2 e1 [OF True] by (auto simp: nth_append)
    next
      case False
      then have "\<not> p < SFS_BLKSIZE * nblk sin" using n by linarith
      moreover have "d = [] \<or> off + length d \<le> p" using 1 False by (auto simp: file_step_def)
      ultimately show ?thesis unfolding e2 using False by (auto simp: nth_append)
    qed
  qed
  moreover have "disk_only s s2" using 1 2 disk_only_trans unfolding file_step_def by blast
  moreover have "d @ d' \<noteq> [] \<longrightarrow> off + length (d @ d') \<le> SFS_BLKSIZE * nblk sin2"
  proof (cases "d' = []")
    case True
    have m: "SFS_BLKSIZE * nblk sin1 \<le> SFS_BLKSIZE * nblk sin2" using 2 by (simp add: file_step_def)
    have "d \<noteq> [] \<longrightarrow> off + length d \<le> SFS_BLKSIZE * nblk sin1" using 1 by (simp add: file_step_def)
    then show ?thesis using True order.trans [OF _ m] by simp
  next
    case False
    then show ?thesis using 2 by (simp add: file_step_def add.assoc)
  qed
  ultimately show ?thesis using 1 2 unfolding file_step_def by simp
qed

section \<open>Looking up and adding blocks\<close>

lemma bmap_blocks [simp]: "bmap (sin\<lparr>sin_din := (sin_din sin)\<lparr>di_blocks := n\<rparr>\<rparr>) = bmap sin"
  by (simp add: bmap_def fun_eq_iff)

lemma inode_ok_bmap: "inode_ok f sin s \<Longrightarrow> i < nblk sin \<Longrightarrow> data_block f (bmap sin s i) \<and> unat (bmap sin s i) \<notin> fs_free f"
  by (simp add: inode_ok_def)

lemma inode_ok_ind: "inode_ok f sin s \<Longrightarrow> ind sin \<noteq> 0 \<Longrightarrow> data_block f (ind sin) \<and> unat (ind sin) \<notin> fs_free f"
  by (simp add: inode_ok_def)

lemma inode_ok_ind_neq:
  assumes "inode_ok f sin s" and "ind sin \<noteq> 0" and "i < nblk sin"
  shows "unat (bmap sin s i) \<noteq> unat (ind sin)"
proof -
  have "ind sin \<notin> bmap sin s ` {..<nblk sin}" using assms(1,2) by (simp add: inode_ok_def)
  then show ?thesis using assms(3) unfolding word_unat_eq_iff [symmetric] by (metis imageI lessThan_iff)
qed

lemma sfs_rbuf_quiet:
  assumes "sfs_ok f s" and "data_block f b" and "off < SFS_BLKSIZE" "off + len \<le> SFS_BLKSIZE"
  shows "\<exists>f' s'. sfs_rbuf f len b off s = Some (0, take len (drop off (blk s (unat b))), f', s') \<and> quiet f s f' s'"
  using sfs_rbuf_ok [OF assms] unfolding quiet_def by blast

text \<open>A word of the indirect block.\<close>

lemma rbuf_entry:
  assumes "sfs_ok f s" and "data_block f b" and "k < SFS_BLK_NENTRY"
  shows "\<exists>f' s' bs. sfs_rbuf f 4 b (k * 4) s = Some (0, bs, f', s') \<and> of_le32 bs = words_of (blk s (unat b)) k \<and> quiet f s f' s'"
proof -
  have "k * 4 < SFS_BLKSIZE" "k * 4 + 4 \<le> SFS_BLKSIZE" using assms(3) by (simp_all add: SFS_BLK_NENTRY_def SFS_BLKSIZE_def)
  then show ?thesis using sfs_rbuf_quiet [OF assms(1,2), of "k * 4" 4] by (auto simp: words_of_def mult.commute)
qed

lemma bmap_get_existing:
  assumes ok: "sfs_ok f s" "inode_ok f sin s" and i: "i < nblk sin"
  shows "\<exists>f' s'. sfs_bmap_get_nolock f sin i create s = Some (0, bmap sin s i, sin, f', s') \<and> quiet f s f' s'"
proof -
  have b: "data_block f (bmap sin s i)" "unat (bmap sin s i) \<notin> fs_free f" using inode_ok_bmap [OF ok(2) i] by auto
  show ?thesis
  proof (cases "i < SFS_NDIRECT")
    case True
    then have "bmap sin s i = di_direct (sin_din sin) ! i" by (simp add: bmap_def)
    then show ?thesis using True b sfs_block_inuse_ok [OF ok(1) b(1)] quiet_refl [OF ok(1)] by (simp add: sfs_bmap_get_nolock_def)
  next
    case False
    then have e: "bmap sin s i = words_of (blk s (unat (ind sin))) (i - SFS_NDIRECT)" and nz: "ind sin \<noteq> 0"
      using b(1) by (auto simp: bmap_def split: if_splits)
    have "nblk sin \<le> MAXBLKS" using ok(2) by (simp add: inode_ok_def)
    then have k: "i - SFS_NDIRECT < SFS_BLK_NENTRY" using i False by (simp add: MAXBLKS_def)
    obtain f' s' bs where r: "sfs_rbuf f 4 (ind sin) ((i - SFS_NDIRECT) * 4) s = Some (0, bs, f', s')" "of_le32 bs = bmap sin s i" "quiet f s f' s'"
      using rbuf_entry [OF ok(1) _ k] inode_ok_ind [OF ok(2) nz] unfolding e by blast
    have "sfs_bmap_get_sub_nolock f (ind sin) (i - SFS_NDIRECT) create s = Some (0, ind sin, bmap sin s i, f', s')"
      unfolding sfs_bmap_get_sub_nolock_def using k nz r(1,2) b(1) by simp
    moreover have "sfs_block_inuse f' (bmap sin s i) = Some True" using sfs_block_inuse_ok [of f' s' "bmap sin s i"] r(3) b by (simp add: quiet_def)
    ultimately show ?thesis using False k r(3) by (simp add: sfs_bmap_get_nolock_def)
  qed
qed

lemma bmap_load_existing:
  assumes ok: "sfs_ok f s" "inode_ok f sin s" and i: "i < nblk sin"
  shows "\<exists>f' s'. sfs_bmap_load_nolock f sin i s = Some (0, bmap sin s i, sin, f', s') \<and> quiet f s f' s'"
proof -
  obtain f' s' where r: "sfs_bmap_get_nolock f sin i False s = Some (0, bmap sin s i, sin, f', s')" "quiet f s f' s'"
    using bmap_get_existing [OF assms] by blast
  have "sfs_block_inuse f' (bmap sin s i) = Some True"
    using sfs_block_inuse_ok [of f' s' "bmap sin s i"] r(2) inode_ok_bmap [OF ok(2) i] by (simp add: quiet_def)
  then show ?thesis using i r by (simp add: sfs_bmap_load_nolock_def)
qed

text \<open>Adding block \<open>b\<close>, and the indirect block if there was none, at the end of the block map.\<close>

lemma grow_step:
  assumes inv: "inode_ok f sin s" "sfs_ok f' s'" "fs_frame f f'" "disk_only s s'"
    and keep: "sin_ino sin' = sin_ino sin" "sin_reclaim sin' = sin_reclaim sin" "di_size (sin_din sin') = di_size (sin_din sin)"
      "di_type (sin_din sin') = di_type (sin_din sin)" "di_nlinks (sin_din sin') = di_nlinks (sin_din sin)"
    and n: "nblk sin < MAXBLKS" "nblk sin' = Suc (nblk sin)" "length (di_direct (sin_din sin')) = SFS_NDIRECT"
    and map: "\<And>i. i < MAXBLKS \<Longrightarrow> bmap sin' s' i = (if i = nblk sin then b else bmap sin s i)"
    and b: "data_block f b" "unat b \<in> fs_free f" "ind sin' \<noteq> b"
    and ind: "ind sin' = ind sin \<or> ind sin = 0 \<and> data_block f (ind sin') \<and> unat (ind sin') \<in> fs_free f"
    and free: "fs_free f' = fs_free f - owned sin' s'"
    and blks: "\<And>j. j \<notin> fs_free f \<Longrightarrow> ind sin = 0 \<or> j \<noteq> unat (ind sin) \<Longrightarrow> blk s' j = blk s j" "blk s' (unat b) = replicate SFS_BLKSIZE 0"
  shows "file_step off [] f sin s f' sin' s'"
proof -
  let ?n = "nblk sin"
  have old: "\<And>i. i < ?n \<Longrightarrow> bmap sin' s' i = bmap sin s i" and new: "bmap sin' s' ?n = b" using map n(1) by auto
  have lt: "{..<nblk sin'} = insert ?n {..<?n}" using n(2) by (simp add: lessThan_Suc)
  have img: "bmap sin' s' ` {..<nblk sin'} = insert b (bmap sin s ` {..<?n})" unfolding lt using old new by (simp add: image_def) blast
  have bn: "b \<notin> bmap sin s ` {..<?n}" using inode_ok_bmap [OF inv(1)] b(2) by auto
  have own: "owned sin' s' = insert (unat b) (owned sin s) \<union> (if ind sin' = 0 then {} else {unat (ind sin')})"
    unfolding owned_def img using ind by auto
  have "bmap sin' s' ` {..<?n} = bmap sin s ` {..<?n}" "inj_on (bmap sin' s') {..<?n}"
    using old inv(1) by (auto simp: inode_ok_def inj_on_def intro!: image_cong)
  then have inj: "inj_on (bmap sin' s') {..<nblk sin'}" unfolding lt inj_on_insert using new bn by simp
  have ib: "\<And>i. i < nblk sin' \<Longrightarrow> unat (bmap sin' s' i) \<in> owned sin' s'" by (auto simp: owned_def)
  have "ind sin' \<notin> bmap sin s ` {..<?n}" if "ind sin' \<noteq> 0"
    using ind that inv(1) inode_ok_bmap [OF inv(1)] by (auto simp: inode_ok_def)
  moreover have "data_block f (ind sin')" if "ind sin' \<noteq> 0" using ind that inode_ok_ind [OF inv(1)] by auto
  moreover have "data_block f (bmap sin' s' i)" if "i < nblk sin'" for i
    using that n(2) old new b(1) inode_ok_bmap [OF inv(1), of i] by (cases "i = ?n") auto
  moreover have "bmap sin' s' i = 0" if "nblk sin' \<le> i" "i < MAXBLKS" for i using map [OF that(2)] that n(2) inv(1) by (simp add: inode_ok_def)
  ultimately have "inode_ok f' sin' s'"
    unfolding inode_ok_def img using n inj ib b(3) inv(3) free by (auto simp: owned_def)
  moreover have io: "ind sin \<noteq> 0 \<Longrightarrow> unat (ind sin) \<in> owned sin s" by (simp add: owned_def)
  have "others f' sin' s' = others f sin s"
    unfolding others_def free using inv(3) own b(2) ind io by (auto split: if_splits)
  moreover have oj: "blk s' j = blk s j" if "j \<in> others f sin s" for j
    using that blks(1) [of j] by (auto simp: others_def owned_def split: if_splits)
  moreover have "fbyte sin' s' p = (if p < SFS_BLKSIZE * ?n then fbyte sin s p else 0)" if p: "p < SFS_BLKSIZE * nblk sin'" for p
  proof (cases "p div SFS_BLKSIZE < ?n")
    case True
    then have "unat (bmap sin s (p div SFS_BLKSIZE)) \<noteq> unat (ind sin)" if "ind sin \<noteq> 0" using inode_ok_ind_neq [OF inv(1) that] by blast
    then have "blk s' (unat (bmap sin s (p div SFS_BLKSIZE))) = blk s (unat (bmap sin s (p div SFS_BLKSIZE)))"
      using inode_ok_bmap [OF inv(1) True] by (intro blks(1)) auto
    moreover have "p < SFS_BLKSIZE * ?n" using True by (simp add: div_less_iff_less_mult mult.commute)
    ultimately show ?thesis using True old by (simp add: fbyte_def)
  next
    case False
    moreover have "p div SFS_BLKSIZE < Suc ?n" using p n(2) by (simp add: less_mult_imp_div_less mult.commute)
    ultimately have "p div SFS_BLKSIZE = ?n" by simp
    moreover have "\<not> p < SFS_BLKSIZE * ?n" using False less_mult_imp_div_less [of p ?n SFS_BLKSIZE] by (auto simp: mult.commute)
    ultimately show ?thesis using new blks(2) by (simp add: fbyte_def)
  qed
  ultimately show ?thesis using inv keep n(2) unfolding file_step_def by auto
qed

lemma nth_overlay:
  assumes "i + length ys \<le> length xs" and "j < length xs"
  shows "overlay xs i ys ! j = (if i \<le> j \<and> j < i + length ys then ys ! (j - i) else xs ! j)"
  using assms by (auto simp: overlay_def nth_append)

lemma words_of_nth:
  assumes "4 * i + 4 \<le> length bs"
  shows "words_of bs i = of_le32 [bs ! (4 * i), bs ! (4 * i + 1), bs ! (4 * i + 2), bs ! (4 * i + 3)]"
  using assms by (simp add: words_of_def of_le32_def)

lemma words_of_overlay:
  assumes "k < SFS_BLK_NENTRY" and "i < SFS_BLK_NENTRY" and "length bs = SFS_BLKSIZE"
  shows "words_of (overlay bs (k * 4) (le32 w)) i = (if i = k then w else words_of bs i)"
proof -
  have l: "4 * i + 4 \<le> length bs" "k * 4 + length (le32 w) \<le> length bs" using assms by (simp_all add: SFS_BLKSIZE_def SFS_BLK_NENTRY_def)
  have b: "overlay bs (k * 4) (le32 w) ! (4 * i + r) = (if i = k then le32 w ! r else bs ! (4 * i + r))" if "r < 4" for r
    using l that by (auto simp: nth_overlay)
  have "words_of (overlay bs (k * 4) (le32 w)) i =
    (if i = k then of_le32 [le32 w ! 0, le32 w ! 1, le32 w ! 2, le32 w ! 3] else words_of bs i)"
    using l b [of 0] b [of 1] b [of 2] b [of 3] by (simp add: words_of_nth)
  moreover have "[le32 w ! 0, le32 w ! 1, le32 w ! 2, le32 w ! 3] = le32 w" by (simp add: le32_def)
  ultimately show ?thesis by simp
qed

lemma words_of_zeros: "i < SFS_BLK_NENTRY \<Longrightarrow> words_of (replicate SFS_BLKSIZE 0) i = 0"
  by (simp add: words_of_def of_le32_def SFS_BLKSIZE_def SFS_BLK_NENTRY_def)

lemma free_step:
  assumes "inode_ok f sin s" and "sfs_ok f' s'" "fs_frame f f'" "disk_only s s'" and free: "fs_free f' = fs_free f"
    and blks: "\<And>j. j \<notin> fs_free f \<Longrightarrow> blk s' j = blk s j"
  shows "file_step off [] f sin s f' sin s'"
proof -
  have b: "bmap sin s' = bmap sin s" using inode_ok_ind [OF assms(1)] blks by (auto simp: bmap_def fun_eq_iff)
  have "blk s' (unat (bmap sin s (p div SFS_BLKSIZE))) = blk s (unat (bmap sin s (p div SFS_BLKSIZE)))" if "p < SFS_BLKSIZE * nblk sin" for p
    using inode_ok_bmap [OF assms(1), of "p div SFS_BLKSIZE"] that by (intro blks) (simp add: less_mult_imp_div_less mult.commute)
  moreover have "inode_ok f' sin s'" using assms(1,3) free by (simp add: inode_ok_def b)
  ultimately show ?thesis using assms(2-4) free blks by (auto simp: file_step_def others_def owned_def fbyte_def b)
qed

abbreviation add_block :: "sfs_inode \<Rightarrow> sfs_inode" where
  "add_block sin \<equiv> upd_din (\<lambda>d. d\<lparr>di_blocks := di_blocks d + 1\<rparr>) sin"

definition grown :: "sfs_fs \<Rightarrow> sfs_inode \<Rightarrow> 'a devs_scheme \<Rightarrow> u32 \<Rightarrow> sfs_inode \<Rightarrow> sfs_fs \<Rightarrow> 'a devs_scheme \<Rightarrow> bool" where
  "grown f sin s b sin' f' s' \<longleftrightarrow> file_step 0 [] f sin s f' (add_block sin') s' \<and> di_blocks (sin_din sin') = di_blocks (sin_din sin) \<and> bmap sin' s' (nblk sin) = b"

lemma nblk_add_block: "nblk sin < MAXBLKS \<Longrightarrow> unat (di_blocks (sin_din sin) + 1) = Suc (nblk sin)"
  by (simp add: unat_word_ariths MAXBLKS_def SFS_NDIRECT_def SFS_BLK_NENTRY_def)

lemma grown_inuse:
  assumes "grown f sin s b sin' f' s'" and "nblk sin < MAXBLKS"
  shows "b \<noteq> 0 \<and> sfs_block_inuse f' b = Some True"
proof -
  have ok: "sfs_ok f' s'" "inode_ok f' (add_block sin') s'" and b: "bmap sin' s' (nblk sin) = b" and n: "nblk (add_block sin') = Suc (nblk sin)"
    using assms nblk_add_block by (auto simp: grown_def file_step_def)
  have "data_block f' b \<and> unat b \<notin> fs_free f'" using inode_ok_bmap [OF ok(2), of "nblk sin"] n b by simp
  then show ?thesis using sfs_block_inuse_ok [OF ok(1), of b] by simp
qed

lemma owned_add_block:
  assumes ok: "inode_ok f sin s" and n: "nblk sin < MAXBLKS" and keep: "di_blocks (sin_din sin') = di_blocks (sin_din sin)"
    and map: "\<And>i. i < MAXBLKS \<Longrightarrow> bmap sin' s' i = (if i = nblk sin then b else bmap sin s i)" and b: "unat b \<in> fs_free f"
  shows "owned (add_block sin') s' \<inter> fs_free f = insert (unat b) (if ind sin' = 0 then {} else {unat (ind sin')} \<inter> fs_free f)"
proof -
  have "{..<nblk (add_block sin')} = insert (nblk sin) {..<nblk sin}" using nblk_add_block [OF n] keep by (simp add: lessThan_Suc)
  then have "bmap (add_block sin') s' ` {..<nblk (add_block sin')} = insert b (bmap sin s ` {..<nblk sin})" using n by (simp add: map)
  then show ?thesis using b inode_ok_bmap [OF ok] by (auto simp: owned_def)
qed

lemma get_new_direct:
  assumes ok: "sfs_ok f s" "inode_ok f sin s" and n: "nblk sin < SFS_NDIRECT" and ne: "fs_free f \<noteq> {}"
  shows "\<exists>b sin' f' s'. sfs_bmap_get_nolock f sin (nblk sin) True s = Some (0, b, sin', f', s') \<and> grown f sin s b sin' f' s'"
proof -
  let ?n = "nblk sin"
  have len: "length (di_direct (sin_din sin)) = SFS_NDIRECT" and nm: "?n < MAXBLKS" using ok(2) n by (simp_all add: inode_ok_def MAXBLKS_def)
  have "bmap sin s ?n = 0" using ok(2) nm by (simp add: inode_ok_def)
  then have z: "di_direct (sin_din sin) ! ?n = 0" using n by (simp add: bmap_def)
  obtain b f' s' where a: "sfs_block_alloc f s = Some (0, b, f', s')" "data_block f b" "unat b \<in> fs_free f" "sfs_ok f' s'" "fs_frame f f'"
    "disk_only s s'" "fs_free f' = fs_free f - {unat b}" "blk s' = (blk s)(unat b := replicate SFS_BLKSIZE 0)"
    using sfs_block_alloc_some [OF ok(1) ne] by blast
  define sin' where "sin' = (upd_din (\<lambda>d. d\<lparr>di_direct := (di_direct d)[?n := b]\<rparr>) sin)\<lparr>sin_dirty := True\<rparr>"
  have ib: "ind sin \<noteq> 0 \<Longrightarrow> unat (ind sin) \<noteq> unat b" using inode_ok_ind [OF ok(2)] a(3) by auto
  have map: "bmap sin' s' i = (if i = ?n then b else bmap sin s i)" for i
    using n len ib a(8) by (auto simp: bmap_def sin'_def)
  have "file_step 0 [] f sin s f' (add_block sin') s'"
  proof (rule grow_step [OF ok(2) a(4,5,6)])
    show "nblk (add_block sin') = Suc ?n" using nblk_add_block [OF nm] by (simp add: sin'_def)
    show "bmap (add_block sin') s' i = (if i = ?n then b else bmap sin s i)" for i using map by simp
    have "owned (add_block sin') s' \<inter> fs_free f = {unat b}"
      using owned_add_block [OF ok(2) nm, of sin' s' b] map a(3) inode_ok_ind [OF ok(2)] by (auto simp: sin'_def)
    then show "fs_free f' = fs_free f - owned (add_block sin') s'" using a(7) by blast
  qed (use a len nm ib in \<open>auto simp: sin'_def\<close>)
  then have g: "grown f sin s b sin' f' s'" using map by (simp add: grown_def sin'_def)
  have "sfs_bmap_get_nolock f sin ?n True s = Some (0, b, sin', f', s')"
    using n z a(1) grown_inuse [OF g nm] by (simp add: sfs_bmap_get_nolock_def sin'_def Let_def)
  then show ?thesis using g by blast
qed

lemma get_new_indirect:
  assumes ok: "sfs_ok f s" "inode_ok f sin s" and n: "SFS_NDIRECT \<le> nblk sin" "nblk sin < MAXBLKS" and i: "ind sin \<noteq> 0"
  shows "if fs_free f = {} then \<exists>f' s'. sfs_bmap_get_nolock f sin (nblk sin) True s = Some (- E_NO_MEM, 0, sin, f', s') \<and> quiet f s f' s'
    else \<exists>b f' s'. sfs_bmap_get_nolock f sin (nblk sin) True s = Some (0, b, sin, f', s') \<and> grown f sin s b sin f' s'"
proof -
  let ?n = "nblk sin" and ?k = "nblk sin - SFS_NDIRECT" and ?e = "unat (ind sin)"
  have k: "?k < SFS_BLK_NENTRY" using n by (simp add: MAXBLKS_def)
  have e: "data_block f (ind sin)" "?e \<notin> fs_free f" using inode_ok_ind [OF ok(2) i] by auto
  have "bmap sin s ?n = 0" using ok(2) n(2) by (simp add: inode_ok_def)
  then have z: "words_of (blk s ?e) ?k = 0" using n(1) i by (simp add: bmap_def)
  obtain f1 s1 bs where r: "sfs_rbuf f 4 (ind sin) (?k * 4) s = Some (0, bs, f1, s1)" "of_le32 bs = 0" "quiet f s f1 s1"
    using rbuf_entry [OF ok(1) e(1) k] unfolding z by blast
  have q: "sfs_ok f1 s1" "fs_frame f f1" "fs_free f1 = fs_free f" "disk_only s s1" "blk s1 = blk s" using r(3) by (simp_all add: quiet_def)
  show ?thesis
  proof (cases "fs_free f = {}")
    case True
    have "sfs_bmap_get_sub_nolock f (ind sin) ?k True s = Some (- E_NO_MEM, ind sin, 0, f1, s1)"
      unfolding sfs_bmap_get_sub_nolock_def using k i r(1,2) sfs_block_alloc_none [OF q(1)] q(3) True by (simp add: E_NO_MEM_def)
    then show ?thesis using True n k r(3) by (simp add: sfs_bmap_get_nolock_def E_NO_MEM_def)
  next
    case False
    obtain b f2 s2 where a: "sfs_block_alloc f1 s1 = Some (0, b, f2, s2)" "data_block f b" "unat b \<in> fs_free f" "sfs_ok f2 s2" "fs_frame f f2"
      "disk_only s1 s2" "fs_free f2 = fs_free f - {unat b}" "blk s2 = (blk s)(unat b := replicate SFS_BLKSIZE 0)"
      using sfs_block_alloc_some [OF q(1)] q False by auto
    have eb: "?e \<noteq> unat b" using e(2) a(3) by auto
    obtain f' s' where w: "sfs_wbuf f2 (le32 b) (ind sin) (?k * 4) s2 = Some (0, f', s')" "sfs_ok f' s'" "fs_frame f2 f'"
      "disk_only s2 s'" "fs_free f' = fs_free f2" "blk s' = (blk s2)(?e := overlay (blk s2 ?e) (?k * 4) (le32 b))"
      using sfs_wbuf_ok [OF a(4), of "ind sin" "?k * 4" "le32 b"] e(1) a(5) k by (auto simp: SFS_BLK_NENTRY_def SFS_BLKSIZE_def)
    have map: "bmap sin s' j = (if j = ?n then b else bmap sin s j)" if j: "j < MAXBLKS" for j
    proof (cases "j < SFS_NDIRECT")
      case False
      then have "j - SFS_NDIRECT < SFS_BLK_NENTRY" "j - SFS_NDIRECT = ?k \<longleftrightarrow> j = ?n" using j n(1) by (auto simp: MAXBLKS_def)
      then show ?thesis using False i words_of_overlay [OF k, of "j - SFS_NDIRECT" "blk s ?e" b] eb by (simp add: bmap_def w(6) a(8))
    qed (use n(1) in \<open>simp add: bmap_def\<close>)
    have "file_step 0 [] f sin s f' (add_block sin) s'"
    proof (rule grow_step [OF ok(2) w(2)])
      show "bmap (add_block sin) s' j = (if j = ?n then b else bmap sin s j)" if "j < MAXBLKS" for j using map [OF that] by simp
      show "disk_only s s'" using disk_only_trans [OF q(4) disk_only_trans [OF a(6) w(4)]] .
      have "owned (add_block sin) s' \<inter> fs_free f = {unat b}"
        using owned_add_block [of f sin s sin s' b, OF ok(2) n(2) refl map a(3)] e(2) by simp
      then show "fs_free f' = fs_free f - owned (add_block sin) s'" unfolding w(5) a(7) by blast
      show "nblk (add_block sin) = Suc ?n" using nblk_add_block [OF n(2)] by simp
      show "length (di_direct (sin_din (add_block sin))) = SFS_NDIRECT" using ok(2) by (simp add: inode_ok_def)
      show "blk s' j = blk s j" if "j \<notin> fs_free f" "ind sin = 0 \<or> j \<noteq> ?e" for j
        using that i a(3) by (cases "j = unat b") (simp_all add: w(6) a(8))
      show "blk s' (unat b) = replicate SFS_BLKSIZE 0" using eb by (simp add: w(6) a(8))
      show "ind (add_block sin) \<noteq> b" using eb by auto
    qed (use a(2,3,5) w(3) n(2) in simp_all)
    then have g: "grown f sin s b sin f' s'" using map n(2) by (simp add: grown_def)
    have "sfs_bmap_get_sub_nolock f (ind sin) ?k True s = Some (0, ind sin, b, f', s')"
      unfolding sfs_bmap_get_sub_nolock_def using k i r(1,2) a(1) w(1) by simp
    then show ?thesis using False n k grown_inuse [OF g n(2)] g by (simp add: sfs_bmap_get_nolock_def)
  qed
qed

text \<open>The first block past the direct ones: the indirect block is allocated too, and given back if there is none left for the data.\<close>

lemma no_indirect: "inode_ok f sin s \<Longrightarrow> ind sin = 0 \<Longrightarrow> nblk sin \<le> SFS_NDIRECT"
  by (rule ccontr) (use inode_ok_bmap [of f sin s SFS_NDIRECT] in \<open>auto simp: bmap_def\<close>)

lemma get_first_indirect_fails:
  assumes ok: "sfs_ok f s" "inode_ok f sin s" and n: "nblk sin = SFS_NDIRECT" and i: "ind sin = 0"
    and a: "sfs_block_alloc f s = Some (0, e, f1, s1)" "data_block f e" "unat e \<in> fs_free f" "sfs_ok f1 s1" "fs_frame f f1" "disk_only s s1"
      "fs_free f1 = fs_free f - {unat e}" "blk s1 = (blk s)(unat e := replicate SFS_BLKSIZE 0)" and none: "fs_free f1 = {}"
  shows "\<exists>f' s'. sfs_bmap_get_nolock f sin (nblk sin) True s = Some (- E_NO_MEM, 0, sin, f', s') \<and> file_step 0 [] f sin s f' sin s' \<and> card (fs_free f') \<le> 1"
proof -
  obtain f' where g: "sfs_block_free f1 e = Some f'" "sfs_ok f' s1" "fs_frame f1 f'" "fs_free f' = insert (unat e) (fs_free f1)"
    using sfs_block_free_ok [OF a(4), of e] a(2,5,7) by auto
  have "sfs_bmap_get_sub_nolock f 0 0 True s = Some (- E_NO_MEM, 0, 0, f', s1)"
    unfolding sfs_bmap_get_sub_nolock_def using a(1,2) sfs_block_alloc_none [OF a(4) none] g(1) by (simp add: SFS_BLK_NENTRY_def E_NO_MEM_def)
  then have "sfs_bmap_get_nolock f sin (nblk sin) True s = Some (- E_NO_MEM, 0, sin, f', s1)"
    using n i by (simp add: sfs_bmap_get_nolock_def E_NO_MEM_def SFS_BLK_NENTRY_def)
  moreover have "fs_free f' = fs_free f" using g(4) a(3,7) by auto
  moreover have "blk s1 j = blk s j" if "j \<notin> fs_free f" for j using that a(3) by (cases "j = unat e") (simp_all add: a(8))
  ultimately have "file_step 0 [] f sin s f' sin s1" using ok(2) g(2,3) a(5,6) by (intro free_step) simp_all
  moreover have "card (fs_free f') \<le> 1" using g(4) none by simp
  ultimately show ?thesis using \<open>sfs_bmap_get_nolock f sin (nblk sin) True s = _\<close> by blast
qed

lemma get_first_indirect_ok:
  assumes ok: "sfs_ok f s" "inode_ok f sin s" and n: "nblk sin = SFS_NDIRECT" and i: "ind sin = 0"
    and a: "sfs_block_alloc f s = Some (0, e, f1, s1)" "data_block f e" "unat e \<in> fs_free f" "sfs_ok f1 s1" "fs_frame f f1" "disk_only s s1"
      "fs_free f1 = fs_free f - {unat e}" "blk s1 = (blk s)(unat e := replicate SFS_BLKSIZE 0)" and some: "fs_free f1 \<noteq> {}"
  shows "\<exists>b sin' f' s'. sfs_bmap_get_nolock f sin (nblk sin) True s = Some (0, b, sin', f', s') \<and> grown f sin s b sin' f' s'"
proof -
  let ?n = "nblk sin"
  have nm: "?n < MAXBLKS" "SFS_NDIRECT < MAXBLKS" using n by (simp_all add: MAXBLKS_def SFS_BLK_NENTRY_def)
  obtain b f2 s2 where c: "sfs_block_alloc f1 s1 = Some (0, b, f2, s2)" "data_block f1 b" "unat b \<in> fs_free f1" "sfs_ok f2 s2" "fs_frame f1 f2"
    "disk_only s1 s2" "fs_free f2 = fs_free f1 - {unat b}" "blk s2 = (blk s1)(unat b := replicate SFS_BLKSIZE 0)"
    using sfs_block_alloc_some [OF a(4) some] by blast
  have eb: "unat e \<noteq> unat b" and bf: "unat b \<in> fs_free f" using c(3) a(7) by auto
  have de: "data_block f2 e" using a(2,5) c(5) by simp
  obtain f' s' where w: "sfs_wbuf f2 (le32 b) e 0 s2 = Some (0, f', s')" "sfs_ok f' s'" "fs_frame f2 f'"
    "disk_only s2 s'" "fs_free f' = fs_free f2" "blk s' = (blk s2)(unat e := overlay (blk s2 (unat e)) 0 (le32 b))"
    using sfs_wbuf_ok [OF c(4) de, of 0 "le32 b"] by (auto simp: SFS_BLKSIZE_def)
  have be: "blk s' (unat e) = overlay (replicate SFS_BLKSIZE 0) 0 (le32 b)" using eb by (simp add: w(6) c(8) a(8))
  define sin' where "sin' = (upd_din (\<lambda>d. d\<lparr>di_indirect := e\<rparr>) sin)\<lparr>sin_dirty := True\<rparr>"
  have map: "bmap sin' s' j = (if j = ?n then b else bmap sin s j)" if j: "j < MAXBLKS" for j
  proof (cases "j < SFS_NDIRECT")
    case False
    then have "j - SFS_NDIRECT < SFS_BLK_NENTRY" "j - SFS_NDIRECT = 0 \<longleftrightarrow> j = ?n" using j n by (auto simp: MAXBLKS_def)
    then have "words_of (blk s' (unat e)) (j - SFS_NDIRECT) = (if j = ?n then b else 0)"
      unfolding be using words_of_overlay [of 0 "j - SFS_NDIRECT" "replicate SFS_BLKSIZE 0" b] words_of_zeros by simp
    then show ?thesis using False a(2) i by (simp add: bmap_def sin'_def)
  qed (use n in \<open>simp add: bmap_def sin'_def\<close>)
  have "file_step 0 [] f sin s f' (add_block sin') s'"
  proof (rule grow_step [OF ok(2) w(2)])
    show "bmap (add_block sin') s' j = (if j = ?n then b else bmap sin s j)" if "j < MAXBLKS" for j using map [OF that] by simp
    show "disk_only s s'" using disk_only_trans [OF a(6) disk_only_trans [OF c(6) w(4)]] .
    have "owned (add_block sin') s' \<inter> fs_free f = {unat b, unat e}"
      using owned_add_block [of f sin s sin' s' b, OF ok(2) nm(1) _ map bf] a(2,3) by (simp add: sin'_def)
    then show "fs_free f' = fs_free f - owned (add_block sin') s'" unfolding w(5) c(7) a(7) by blast
    show "nblk (add_block sin') = Suc ?n" using nblk_add_block [OF nm(1)] by (simp add: sin'_def)
    show "length (di_direct (sin_din (add_block sin'))) = SFS_NDIRECT" using ok(2) by (simp add: inode_ok_def sin'_def)
    show "blk s' j = blk s j" if "j \<notin> fs_free f" for j
      using that a(3) bf by (cases "j = unat b"; cases "j = unat e") (simp_all add: w(6) c(8) a(8))
    show "blk s' (unat b) = replicate SFS_BLKSIZE 0" using eb by (simp add: w(6) c(8))
    show "ind (add_block sin') \<noteq> b" using eb by (auto simp: sin'_def)
  qed (use a(2,3,5) bf c(2,5) w(3) nm i in \<open>simp_all add: sin'_def\<close>)
  then have g: "grown f sin s b sin' f' s'" using map nm by (simp add: grown_def sin'_def)
  have "sfs_bmap_get_sub_nolock f 0 0 True s = Some (0, e, b, f', s')"
    unfolding sfs_bmap_get_sub_nolock_def using a(1,2) c(1) w(1) by (simp add: SFS_BLK_NENTRY_def)
  then have "sfs_bmap_get_nolock f sin ?n True s = Some (0, b, sin', f', s')"
    using n i a(2) grown_inuse [OF g nm(1)] by (simp add: sfs_bmap_get_nolock_def sin'_def SFS_BLK_NENTRY_def Let_def)
  then show ?thesis using g by blast
qed

lemma bmap_get_full:
  assumes ok: "sfs_ok f s" "inode_ok f sin s" and n: "nblk sin < MAXBLKS" and full: "fs_free f = {}"
  shows "\<exists>f' s'. sfs_bmap_get_nolock f sin (nblk sin) True s = Some (- E_NO_MEM, 0, sin, f', s') \<and> file_step 0 [] f sin s f' sin s' \<and> card (fs_free f') \<le> 1"
proof -
  have z: "bmap sin s (nblk sin) = 0" using ok(2) n by (simp add: inode_ok_def)
  have none: "sfs_block_alloc f s = Some (- E_NO_MEM, 0, f, s)" using ok(1) full by (rule sfs_block_alloc_none)
  have "\<exists>f' s'. sfs_bmap_get_nolock f sin (nblk sin) True s = Some (- E_NO_MEM, 0, sin, f', s') \<and> quiet f s f' s'"
  proof (cases "nblk sin < SFS_NDIRECT")
    case True
    then show ?thesis using z none quiet_refl [OF ok(1)] by (simp add: bmap_def sfs_bmap_get_nolock_def E_NO_MEM_def)
  next
    case False
    show ?thesis
    proof (cases "ind sin = 0")
      case True
      then have "sfs_bmap_get_sub_nolock f (ind sin) (nblk sin - SFS_NDIRECT) True s = Some (- E_NO_MEM, 0, 0, f, s)"
        unfolding sfs_bmap_get_sub_nolock_def using False n none by (simp add: MAXBLKS_def E_NO_MEM_def)
      then show ?thesis using False n quiet_refl [OF ok(1)] True by (simp add: sfs_bmap_get_nolock_def E_NO_MEM_def MAXBLKS_def Let_def)
    qed (use get_new_indirect [OF ok _ n] full False in auto)
  qed
  then obtain f' s' where "sfs_bmap_get_nolock f sin (nblk sin) True s = Some (- E_NO_MEM, 0, sin, f', s')" "quiet f s f' s'" by blast
  then show ?thesis using quiet_file_step [OF _ ok(2)] full by (auto simp: quiet_def)
qed

text \<open>Loading a block at or below the end of the file: it is there afterwards, or there was no room for it.\<close>

lemma bmap_load_new:
  assumes inv: "sfs_ok f s" "inode_ok f sin s" and n: "nblk sin < MAXBLKS"
  shows "(\<exists>sin' f' s'. sfs_bmap_load_nolock f sin (nblk sin) s = Some (0, bmap sin' s' (nblk sin), sin', f', s') \<and> file_step 0 [] f sin s f' sin' s' \<and> nblk sin' = Suc (nblk sin)) \<or>
    (\<exists>f' s'. sfs_bmap_load_nolock f sin (nblk sin) s = Some (- E_NO_MEM, 0, sin, f', s') \<and> file_step 0 [] f sin s f' sin s' \<and> card (fs_free f') \<le> 1)"
proof -
  consider (ok) b sin' f' s' where "sfs_bmap_get_nolock f sin (nblk sin) True s = Some (0, b, sin', f', s')" "grown f sin s b sin' f' s'"
    | (fail) f' s' where "sfs_bmap_get_nolock f sin (nblk sin) True s = Some (- E_NO_MEM, 0, sin, f', s')" "file_step 0 [] f sin s f' sin s'" "card (fs_free f') \<le> 1"
  proof (cases "fs_free f = {}")
    case True
    then show thesis using that(2) bmap_get_full [OF inv n] by blast
  next
    case False
    then obtain e f1 s1 where a: "sfs_block_alloc f s = Some (0, e, f1, s1)" "data_block f e" "unat e \<in> fs_free f" "sfs_ok f1 s1" "fs_frame f f1"
      "disk_only s s1" "fs_free f1 = fs_free f - {unat e}" "blk s1 = (blk s)(unat e := replicate SFS_BLKSIZE 0)"
      using sfs_block_alloc_some [OF inv(1)] by blast
    consider "nblk sin < SFS_NDIRECT" | "SFS_NDIRECT \<le> nblk sin" "ind sin \<noteq> 0" | "nblk sin = SFS_NDIRECT" "ind sin = 0"
      using no_indirect [OF inv(2)] by fastforce
    then show thesis
    proof cases
      case 1
      then show ?thesis using get_new_direct [OF inv _ False] that(1) by blast
    next
      case 2
      then show ?thesis using get_new_indirect [OF inv 2(1) n 2(2)] False that(1) by auto
    next
      case 3
      then show ?thesis using get_first_indirect_ok [OF inv 3 a] get_first_indirect_fails [OF inv 3 a] that by blast
    qed
  qed
  then show ?thesis
  proof cases
    case ok
    then have "sfs_bmap_load_nolock f sin (nblk sin) s = Some (0, b, add_block sin', f', s')"
      using grown_inuse [OF ok(2) n] by (simp add: sfs_bmap_load_nolock_def)
    moreover have "di_blocks (sin_din sin') = di_blocks (sin_din sin)" using ok(2) by (simp add: grown_def)
    ultimately show ?thesis using ok(2) nblk_add_block [OF n]
      by (intro disjI1 exI [of _ "add_block sin'"] exI [of _ f'] exI [of _ s']) (auto simp: grown_def)
  next
    case fail
    then show ?thesis by (simp add: sfs_bmap_load_nolock_def E_NO_MEM_def)
  qed
qed

lemma file_step_nil: "file_step off [] f sin s f' sin' s' \<Longrightarrow> file_step off' [] f sin s f' sin' s'"
  unfolding file_step_def by auto

lemma bmap_load_ok:
  assumes ok: "sfs_ok f s" "inode_ok f sin s" and i: "i \<le> nblk sin" "i < MAXBLKS"
  shows "\<exists>ret ino sin' f' s'. sfs_bmap_load_nolock f sin i s = Some (ret, ino, sin', f', s') \<and> file_step off [] f sin s f' sin' s' \<and>
    (ret = 0 \<and> ino = bmap sin' s' i \<and> i < nblk sin' \<and> nblk sin' = max (nblk sin) (Suc i) \<or> ret = - E_NO_MEM \<and> sin' = sin \<and> card (fs_free f') \<le> 1)"
proof (cases "i < nblk sin")
  case True
  obtain f' s' where r: "sfs_bmap_load_nolock f sin i s = Some (0, bmap sin s i, sin, f', s')" "quiet f s f' s'"
    using bmap_load_existing [OF ok True] by blast
  then show ?thesis using True quiet_file_step [OF r(2) ok(2), of off] quiet_bmap [OF r(2), of sin] by simp
next
  case False
  then have e: "nblk sin = i" using i(1) by simp
  then show ?thesis using bmap_load_new [OF ok] i(2) file_step_nil [of 0 f sin s _ _ _ off] unfolding e by auto
qed

section \<open>Writing\<close>

text \<open>Storing bytes in a block that the file already has.\<close>

lemma store_step:
  assumes ok: "inode_ok f sin s" "sfs_ok f' s'" "fs_frame f f'" "disk_only s s'" "fs_free f' = fs_free f"
    and i: "i < nblk sin" and d: "o' + length d \<le> SFS_BLKSIZE"
    and blks: "blk s' = (blk s)(unat (bmap sin s i) := overlay (blk s (unat (bmap sin s i))) o' d)"
  shows "file_step (SFS_BLKSIZE * i + o') d f sin s f' sin s'"
proof -
  let ?b = "unat (bmap sin s i)"
  have neq: "ind sin \<noteq> 0 \<Longrightarrow> unat (ind sin) \<noteq> ?b" using inode_ok_ind_neq [OF ok(1) _ i] by auto
  have map: "bmap sin s' = bmap sin s" using neq by (auto simp: bmap_def blks fun_eq_iff)
  have inj: "unat (bmap sin s j) = ?b \<longleftrightarrow> j = i" if "j < nblk sin" for j
    using ok(1) i that unfolding word_unat_eq_iff [symmetric] by (auto simp: inode_ok_def inj_on_def)
  have "?b \<in> owned sin s" using i by (simp add: owned_def)
  then have "\<forall>j\<in>others f sin s. blk s' j = blk s j" by (auto simp: others_def blks)
  moreover have "fbyte sin s' p = (if SFS_BLKSIZE * i + o' \<le> p \<and> p < SFS_BLKSIZE * i + o' + length d then d ! (p - (SFS_BLKSIZE * i + o')) else fbyte sin s p)"
    if p: "p < SFS_BLKSIZE * nblk sin" for p
  proof -
    define q r where "q = p div SFS_BLKSIZE" and "r = p mod SFS_BLKSIZE"
    have pqr: "p = SFS_BLKSIZE * q + r" "r < SFS_BLKSIZE" by (simp_all add: q_def r_def)
    have q: "q < nblk sin" unfolding q_def using p by (simp add: less_mult_imp_div_less mult.commute)
    show ?thesis
    proof (cases "q = i")
      case True
      then show ?thesis using pqr d by (auto simp: fbyte_def map blks nth_overlay simp flip: q_def r_def)
    next
      case False
      then have "\<not> (SFS_BLKSIZE * i + o' \<le> p \<and> p < SFS_BLKSIZE * i + o' + length d)"
        using d pqr mult_le_mono2 [of "Suc q" i SFS_BLKSIZE] mult_le_mono2 [of "Suc i" q SFS_BLKSIZE] by (cases "q < i") auto
      then show ?thesis using False inj [OF q] by (auto simp: fbyte_def map blks simp flip: q_def r_def)
    qed
  qed
  moreover have "SFS_BLKSIZE * i + o' + length d \<le> SFS_BLKSIZE * nblk sin"
    using d mult_le_mono2 [of "Suc i" "nblk sin" SFS_BLKSIZE] i by simp
  moreover have "inode_ok f' sin s'" using ok(1,3,5) by (simp add: inode_ok_def map)
  ultimately show ?thesis using ok by (simp add: file_step_def others_def owned_def map)
qed

lemma sfs_wblock_ok:
  assumes "sfs_ok f s" and "data_block f b" and "SFS_BLKSIZE \<le> length buf"
  shows "\<exists>s'. sfs_wblock f buf b 1 s = Some (0, buf, s') \<and> sfs_ok f s' \<and> disk_only s s' \<and> blk s' = (blk s)(unat b := take SFS_BLKSIZE buf)"
  using sfs_block_write [OF assms] by (auto simp: sfs_wblock_def sfs_rwblock_def)

abbreviation piece_off :: "nat option \<Rightarrow> nat" where "piece_off off \<equiv> case off of None \<Rightarrow> 0 | Some o' \<Rightarrow> o'"

text \<open>What a write returns: all went well, or the disk is full but for at most one block.\<close>

abbreviation wrote :: "int \<Rightarrow> bool \<Rightarrow> sfs_fs \<Rightarrow> bool" where
  "wrote ret all f' \<equiv> ret = 0 \<and> all \<or> ret = - E_NO_MEM \<and> \<not> all \<and> card (fs_free f') \<le> 1"

lemma write_piece:
  assumes ok: "sfs_ok f s" "inode_ok f sin s" and i: "i \<le> nblk sin" "i < MAXBLKS"
    and sz: "0 < sz" "piece_off off + sz \<le> SFS_BLKSIZE" "off = None \<Longrightarrow> sz = SFS_BLKSIZE" and buf: "pos + sz \<le> length buf"
  shows "\<exists>ret n sin' f' s'. sfs_io_piece True f sin buf pos i sz off s = Some (ret, buf, sin', f', s') \<and> (n = 0 \<or> n = sz) \<and>
    file_step (SFS_BLKSIZE * i + piece_off off) (take n (drop pos buf)) f sin s f' sin' s' \<and>
    nblk sin' = (if n = 0 then nblk sin else max (nblk sin) (Suc i)) \<and> wrote ret (n = sz) f'"
proof -
  let ?p = "SFS_BLKSIZE * i + piece_off off"
  obtain ret ino sin1 f1 s1 where l: "sfs_bmap_load_nolock f sin i s = Some (ret, ino, sin1, f1, s1)" "file_step ?p [] f sin s f1 sin1 s1"
    "ret = 0 \<and> ino = bmap sin1 s1 i \<and> i < nblk sin1 \<and> nblk sin1 = max (nblk sin) (Suc i) \<or> ret = - E_NO_MEM \<and> sin1 = sin \<and> card (fs_free f1) \<le> 1"
    using bmap_load_ok [OF ok i] by blast
  show ?thesis
  proof (cases "ret = 0")
    case False
    then have "ret = - E_NO_MEM" "sin1 = sin" "card (fs_free f1) \<le> 1" using l(3) by auto
    then show ?thesis using l(1,2) False sz(1) by (intro exI [of _ ret] exI [of _ 0] exI [of _ sin1] exI [of _ f1] exI [of _ s1]) (simp add: sfs_io_piece_def)
  next
    case True
    then have r: "ino = bmap sin1 s1 i" "i < nblk sin1" "nblk sin1 = max (nblk sin) (Suc i)" using l(3) by (auto simp: E_NO_MEM_def)
    have ok1: "sfs_ok f1 s1" "inode_ok f1 sin1 s1" using l(2) by (simp_all add: file_step_def)
    have db: "data_block f1 ino" using inode_ok_bmap [OF ok1(2) r(2)] r(1) by simp
    have "\<exists>f' s'. sfs_io_piece True f sin buf pos i sz off s = Some (0, buf, sin1, f', s') \<and> sfs_ok f' s' \<and> fs_frame f1 f' \<and> disk_only s1 s' \<and>
      fs_free f' = fs_free f1 \<and> blk s' = (blk s1)(unat ino := overlay (blk s1 (unat ino)) (piece_off off) (take sz (drop pos buf)))"
    proof (cases off)
      case None
      then have "sz = SFS_BLKSIZE" "SFS_BLKSIZE \<le> length (drop pos buf)" using sz(3) buf by auto
      then show ?thesis using None l(1) True sfs_wblock_ok [OF ok1(1) db, of "drop pos buf"] by (auto simp: sfs_io_piece_def overlay_def)
    next
      case (Some o')
      then have "o' < SFS_BLKSIZE" "o' + length (take sz (drop pos buf)) \<le> SFS_BLKSIZE" using sz buf by auto
      then show ?thesis using Some l(1) True sfs_wbuf_ok [OF ok1(1) db, of o' "take sz (drop pos buf)"] by (auto simp: sfs_io_piece_def)
    qed
    then obtain f' s' where w: "sfs_io_piece True f sin buf pos i sz off s = Some (0, buf, sin1, f', s')" "sfs_ok f' s'" "fs_frame f1 f'" "disk_only s1 s'"
      "fs_free f' = fs_free f1" "blk s' = (blk s1)(unat ino := overlay (blk s1 (unat ino)) (piece_off off) (take sz (drop pos buf)))" by blast
    have "file_step ?p (take sz (drop pos buf)) f1 sin1 s1 f' sin1 s'"
      using store_step [OF ok1(2) w(2-5) r(2) _ w(6) [unfolded r(1)]] sz(2) buf by simp
    then have "file_step ?p (take sz (drop pos buf)) f sin s f' sin1 s'"
      using file_step_trans [OF l(2), of "take sz (drop pos buf)" f' sin1 s'] by simp
    then show ?thesis using w(1) r(3) sz(1) by (intro exI [of _ 0] exI [of _ sz] exI [of _ sin1] exI [of _ f'] exI [of _ s']) simp
  qed
qed

lemma write_blocks:
  assumes "sfs_ok f s" "inode_ok f sin s" and "i \<le> nblk sin" "i + k \<le> MAXBLKS" and "pos + SFS_BLKSIZE * k \<le> length buf"
  shows "\<exists>ret m sin' f' s'. sfs_io_blocks True f sin buf pos i k s = Some (ret, pos + SFS_BLKSIZE * m, buf, sin', f', s') \<and> m \<le> k \<and>
    file_step (SFS_BLKSIZE * i) (take (SFS_BLKSIZE * m) (drop pos buf)) f sin s f' sin' s' \<and> nblk sin' = max (nblk sin) (i + m) \<and> wrote ret (m = k) f'"
  using assms
proof (induction k arbitrary: f sin s pos i)
  case 0
  then show ?case using quiet_file_step [OF quiet_refl [OF "0.prems"(1)]] by (simp add: max_def)
next
  case (Suc k)
  have "i < MAXBLKS" "0 < SFS_BLKSIZE" "piece_off None + SFS_BLKSIZE \<le> SFS_BLKSIZE" "pos + SFS_BLKSIZE \<le> length buf"
    using Suc.prems(4,5) by simp_all
  note w = write_piece [OF Suc.prems(1,2,3) this(1,2,3) refl this(4)]
  obtain ret n sin1 f1 s1 where p: "sfs_io_piece True f sin buf pos i SFS_BLKSIZE None s = Some (ret, buf, sin1, f1, s1)" "n = 0 \<or> n = SFS_BLKSIZE"
    "file_step (SFS_BLKSIZE * i) (take n (drop pos buf)) f sin s f1 sin1 s1" "nblk sin1 = (if n = 0 then nblk sin else max (nblk sin) (Suc i))"
    "wrote ret (n = SFS_BLKSIZE) f1"
    using w by (simp only: option.case add_0_right) blast
  show ?case
  proof (cases "ret = 0")
    case False
    then have "n = 0" "ret = - E_NO_MEM" "card (fs_free f1) \<le> 1" using p(2,5) by auto
    then show ?thesis using p(1,3,4) False Suc.prems(3)
      by (intro exI [of _ ret] exI [of _ 0] exI [of _ sin1] exI [of _ f1] exI [of _ s1]) (simp add: max_def)
  next
    case True
    then have n: "n = SFS_BLKSIZE" "nblk sin1 = max (nblk sin) (Suc i)" using p(4,5) by (auto simp: E_NO_MEM_def)
    have ok1: "sfs_ok f1 s1" "inode_ok f1 sin1 s1" using p(3) by (simp_all add: file_step_def)
    have c: "i + 1 \<le> nblk sin1" "i + 1 + k \<le> MAXBLKS" "pos + SFS_BLKSIZE + SFS_BLKSIZE * k \<le> length buf" using n(2) Suc.prems(4,5) by simp_all
    obtain ret' m sin' f' s' where r: "sfs_io_blocks True f1 sin1 buf (pos + SFS_BLKSIZE) (i + 1) k s1 = Some (ret', pos + SFS_BLKSIZE + SFS_BLKSIZE * m, buf, sin', f', s')"
      "m \<le> k" "file_step (SFS_BLKSIZE * (i + 1)) (take (SFS_BLKSIZE * m) (drop (pos + SFS_BLKSIZE) buf)) f1 sin1 s1 f' sin' s'"
      "nblk sin' = max (nblk sin1) (i + 1 + m)" "wrote ret' (m = k) f'"
      using Suc.IH [OF ok1 c] by blast
    have app: "take n (drop pos buf) @ take (SFS_BLKSIZE * m) (drop (pos + SFS_BLKSIZE) buf) = take (SFS_BLKSIZE * Suc m) (drop pos buf)"
      by (simp add: n take_add add.commute)
    have "SFS_BLKSIZE * (i + 1) = SFS_BLKSIZE * i + length (take n (drop pos buf))" using n Suc.prems(5) by simp
    from r(3) [unfolded this] have "file_step (SFS_BLKSIZE * i) (take (SFS_BLKSIZE * Suc m) (drop pos buf)) f sin s f' sin' s'"
      unfolding app [symmetric] by (rule file_step_trans [OF p(3)])
    then show ?thesis using p(1) True r(1,2,4,5) n(2)
      by (intro exI [of _ ret'] exI [of _ "Suc m"] exI [of _ sin'] exI [of _ f'] exI [of _ s']) (auto simp: algebra_simps)
  qed
qed

definition cdiv :: "nat \<Rightarrow> nat" where "cdiv n = (n + SFS_BLKSIZE - 1) div SFS_BLKSIZE"

lemma cdiv_split: "r \<le> SFS_BLKSIZE \<Longrightarrow> cdiv (SFS_BLKSIZE * i + r) = (if r = 0 then i else Suc i)"
proof -
  assume r: "r \<le> SFS_BLKSIZE"
  have e: "SFS_BLKSIZE * i + r + SFS_BLKSIZE - 1 = (if r = 0 then SFS_BLKSIZE - 1 + SFS_BLKSIZE * i else (r - 1) + SFS_BLKSIZE * Suc i)"
    by (auto simp: SFS_BLKSIZE_def)
  have m: "(SFS_BLKSIZE - 1) div SFS_BLKSIZE = 0" "r \<noteq> 0 \<Longrightarrow> (r - 1) div SFS_BLKSIZE = 0" using r by (auto simp: SFS_BLKSIZE_def)
  show ?thesis
  proof (cases "r = 0")
    case False
    then have "cdiv (SFS_BLKSIZE * i + r) = Suc i + (r - 1) div SFS_BLKSIZE"
      using div_mult_self2 [OF SFS_BLKSIZE_pos(2), of "r - 1" "Suc i"] unfolding cdiv_def e by simp
    then show ?thesis using False m(2) by simp
  next
    case True
    then have "cdiv (SFS_BLKSIZE * i + r) = i + (SFS_BLKSIZE - 1) div SFS_BLKSIZE"
      using div_mult_self2 [OF SFS_BLKSIZE_pos(2), of "SFS_BLKSIZE - 1" i] unfolding cdiv_def e by simp
    then show ?thesis using True m(1) by simp
  qed
qed

lemma write_rest:
  assumes ok: "sfs_ok f s" "inode_ok f sin s" and i: "i \<le> nblk sin" "i + k + (if sz = 0 then 0 else 1) \<le> MAXBLKS"
    and sz: "sz < SFS_BLKSIZE" and buf: "pos + SFS_BLKSIZE * k + sz \<le> length buf"
  shows "\<exists>ret n sin' f' s'. sfs_io_rest True f sin buf pos i k sz s = Some (ret, pos + n, buf, sin', f', s') \<and> n \<le> SFS_BLKSIZE * k + sz \<and>
    file_step (SFS_BLKSIZE * i) (take n (drop pos buf)) f sin s f' sin' s' \<and> nblk sin' = max (nblk sin) (cdiv (SFS_BLKSIZE * i + n)) \<and>
    wrote ret (n = SFS_BLKSIZE * k + sz) f'"
proof -
  obtain ret m sin1 f1 s1 where b: "sfs_io_blocks True f sin buf pos i k s = Some (ret, pos + SFS_BLKSIZE * m, buf, sin1, f1, s1)" "m \<le> k"
    "file_step (SFS_BLKSIZE * i) (take (SFS_BLKSIZE * m) (drop pos buf)) f sin s f1 sin1 s1" "nblk sin1 = max (nblk sin) (i + m)" "wrote ret (m = k) f1"
    using write_blocks [OF ok i(1), of k pos buf] i(2) buf by auto
  have cm: "cdiv (SFS_BLKSIZE * i + SFS_BLKSIZE * m) = i + m" using cdiv_split [of 0 "i + m"] by (simp add: algebra_simps)
  show ?thesis
  proof (cases "ret = 0 \<and> sz \<noteq> 0")
    case False
    then have "sfs_io_rest True f sin buf pos i k sz s = Some (ret, pos + SFS_BLKSIZE * m, buf, sin1, f1, s1)"
      using b(1) by (auto simp: sfs_io_rest_def)
    moreover have "m = k \<and> sz = 0" if h: "SFS_BLKSIZE * m = SFS_BLKSIZE * k + sz"
    proof -
      have "SFS_BLKSIZE * k \<le> SFS_BLKSIZE * m" using h by linarith
      then have "m = k" using b(2) by simp
      then show ?thesis using h by simp
    qed
    then have "wrote ret (SFS_BLKSIZE * m = SFS_BLKSIZE * k + sz) f1" using b(5) False by (auto simp: E_NO_MEM_def)
    moreover have "SFS_BLKSIZE * m \<le> SFS_BLKSIZE * k + sz" using mult_le_mono2 [OF b(2), of SFS_BLKSIZE] by linarith
    ultimately show ?thesis using b(3,4) cm
      by (intro exI [of _ ret] exI [of _ "SFS_BLKSIZE * m"] exI [of _ sin1] exI [of _ f1] exI [of _ s1]) auto
  next
    case True
    then have m: "m = k" using b(5) by (auto simp: E_NO_MEM_def)
    let ?p = "pos + SFS_BLKSIZE * k"
    have ok1: "sfs_ok f1 s1" "inode_ok f1 sin1 s1" using b(3) by (simp_all add: file_step_def)
    have "i + k \<le> nblk sin1" "i + k < MAXBLKS" "0 < sz" "piece_off (Some 0) + sz \<le> SFS_BLKSIZE" "Some 0 = None \<Longrightarrow> sz = SFS_BLKSIZE" "?p + sz \<le> length buf"
      using b(4) i(2) m True sz buf by simp_all
    note w = write_piece [OF ok1 this]
    obtain ret' n sin' f' s' where p: "sfs_io_piece True f1 sin1 buf ?p (i + k) sz (Some 0) s1 = Some (ret', buf, sin', f', s')" "n = 0 \<or> n = sz"
      "file_step (SFS_BLKSIZE * (i + k)) (take n (drop ?p buf)) f1 sin1 s1 f' sin' s'"
      "nblk sin' = (if n = 0 then nblk sin1 else max (nblk sin1) (Suc (i + k)))" "wrote ret' (n = sz) f'"
      using w by (simp only: option.case add_0_right) blast
    have "take (SFS_BLKSIZE * m) (drop pos buf) @ take n (drop ?p buf) = take (SFS_BLKSIZE * k + n) (drop pos buf)"
      by (simp only: m take_add drop_drop add.commute [of pos])
    moreover have "length (take (SFS_BLKSIZE * m) (drop pos buf)) = SFS_BLKSIZE * k" using m buf by simp
    ultimately have st: "file_step (SFS_BLKSIZE * i) (take (SFS_BLKSIZE * k + n) (drop pos buf)) f sin s f' sin' s'"
      using file_step_trans [OF b(3), of "take n (drop ?p buf)" f' sin' s'] p(3) by (simp add: distrib_left)
    have "n \<le> SFS_BLKSIZE" using p(2) sz by auto
    then have "cdiv (SFS_BLKSIZE * i + (SFS_BLKSIZE * k + n)) = (if n = 0 then i + k else Suc (i + k))"
      using cdiv_split [of n "i + k"] by (simp add: distrib_left add.assoc)
    moreover have "sfs_io_rest True f sin buf pos i k sz s = Some (ret', pos + (SFS_BLKSIZE * k + n), buf, sin', f', s')"
      using b(1) m True p(1,2,5) by (auto simp: sfs_io_rest_def E_NO_MEM_def)
    ultimately show ?thesis using st p(2,4,5) b(4) m
      by (intro exI [of _ ret'] exI [of _ "SFS_BLKSIZE * k + n"] exI [of _ sin'] exI [of _ f'] exI [of _ s']) auto
  qed
qed

lemma write_first:
  assumes ok: "sfs_ok f s" "inode_ok f sin s" and i: "i < nblk sin" and o': "o' \<noteq> 0" "o' < SFS_BLKSIZE" and r: "r < SFS_BLKSIZE"
    and e: "i \<le> e" "e + (if r = 0 then 0 else 1) \<le> MAXBLKS" "SFS_BLKSIZE * i + o' < SFS_BLKSIZE * e + r"
    and buf: "SFS_BLKSIZE * e + r - (SFS_BLKSIZE * i + o') \<le> length buf"
  shows "\<exists>ret n sin' f' s'. sfs_io_transfer True f sin buf (SFS_BLKSIZE * i + o') (SFS_BLKSIZE * e + r) s = Some (ret, n, buf, sin', f', s') \<and>
    n \<le> SFS_BLKSIZE * e + r - (SFS_BLKSIZE * i + o') \<and> file_step (SFS_BLKSIZE * i + o') (take n buf) f sin s f' sin' s' \<and>
    nblk sin' = max (nblk sin) (cdiv (SFS_BLKSIZE * i + o' + n)) \<and> wrote ret (n = SFS_BLKSIZE * e + r - (SFS_BLKSIZE * i + o')) f'"
proof -
  let ?p = "SFS_BLKSIZE * i + o'" and ?e = "SFS_BLKSIZE * e + r"
  define sz where "sz = (if e - i \<noteq> 0 then SFS_BLKSIZE - o' else ?e - ?p)"
  have sz: "0 < sz" "o' + sz \<le> SFS_BLKSIZE" "sz \<le> ?e - ?p" "e = i \<Longrightarrow> sz = ?e - ?p" "e \<noteq> i \<Longrightarrow> o' + sz = SFS_BLKSIZE"
    using o' r e by (auto simp: sz_def SFS_BLKSIZE_def)
  have "nblk sin \<le> MAXBLKS" using ok(2) by (simp add: inode_ok_def)
  then have "i \<le> nblk sin" "i < MAXBLKS" "piece_off (Some o') + sz \<le> SFS_BLKSIZE" "Some o' = None \<Longrightarrow> sz = SFS_BLKSIZE" "0 + sz \<le> length buf"
    using i sz buf by simp_all
  note w = write_piece [OF ok this(1,2) sz(1) this(3-5)]
  obtain ret n sin1 f1 s1 where p: "sfs_io_piece True f sin buf 0 i sz (Some o') s = Some (ret, buf, sin1, f1, s1)" "n = 0 \<or> n = sz"
    "file_step ?p (take n buf) f sin s f1 sin1 s1" "nblk sin1 = (if n = 0 then nblk sin else max (nblk sin) (Suc i))" "wrote ret (n = sz) f1"
    using w by (simp only: option.case drop_0) blast
  have n1: "nblk sin1 = nblk sin" using p(4) i by (simp add: max_def)
  have q: "?p div SFS_BLKSIZE = i" "?e div SFS_BLKSIZE = e" "?p mod SFS_BLKSIZE = o'" "?e mod SFS_BLKSIZE = r" using o' r by simp_all
  have ci: "cdiv (?p + x) = Suc i" if "o' + x \<le> SFS_BLKSIZE" for x using cdiv_split [OF that, of i] o'(1) by (simp add: add.assoc)
  have run: "sfs_io_transfer True f sin buf ?p ?e s =
    (if ret \<noteq> 0 then Some (ret, 0, buf, sin1, f1, s1) else if e = i then Some (0, sz, buf, sin1, f1, s1)
     else sfs_io_rest True f1 sin1 buf sz (i + 1) (e - i - 1) r s1)"
    unfolding sfs_io_transfer_def q Let_def using o'(1) e(1) p(1) by (simp add: sz_def)
  consider (fail) "ret \<noteq> 0" | (one) "ret = 0" "e = i" | (more) "ret = 0" "e \<noteq> i" by blast
  then show ?thesis
  proof cases
    case fail
    then have "n = 0" "ret = - E_NO_MEM" "card (fs_free f1) \<le> 1" using p(2,5) by auto
    then show ?thesis using p(3) n1 fail e(3) ci [of 0] o'(2) i unfolding run
      by (intro exI [of _ ret] exI [of _ 0] exI [of _ sin1] exI [of _ f1] exI [of _ s1]) (simp add: max_def)
  next
    case one
    then have "n = sz" using p(5) by (auto simp: E_NO_MEM_def)
    then show ?thesis using p(3) n1 one sz ci [of sz] i unfolding run
      by (intro exI [of _ 0] exI [of _ sz] exI [of _ sin1] exI [of _ f1] exI [of _ s1]) (simp add: max_def)
  next
    case more
    then have n: "n = sz" using p(5) by (auto simp: E_NO_MEM_def)
    have ok1: "sfs_ok f1 s1" "inode_ok f1 sin1 s1" using p(3) by (simp_all add: file_step_def)
    have tot: "?e - ?p = sz + (SFS_BLKSIZE * (e - i - 1) + r)" using sz(5) more e(1) o'(2) by (auto simp: SFS_BLKSIZE_def)
    have "i + 1 \<le> nblk sin1" "i + 1 + (e - i - 1) + (if r = 0 then 0 else 1) \<le> MAXBLKS" "sz + SFS_BLKSIZE * (e - i - 1) + r \<le> length buf"
      using i n1 e more buf tot by auto
    note w2 = write_rest [OF ok1 this(1,2) r this(3)]
    obtain ret' m sin' f' s' where t: "sfs_io_rest True f1 sin1 buf sz (i + 1) (e - i - 1) r s1 = Some (ret', sz + m, buf, sin', f', s')"
      "m \<le> SFS_BLKSIZE * (e - i - 1) + r" "file_step (SFS_BLKSIZE * (i + 1)) (take m (drop sz buf)) f1 sin1 s1 f' sin' s'"
      "nblk sin' = max (nblk sin1) (cdiv (SFS_BLKSIZE * (i + 1) + m))" "wrote ret' (m = SFS_BLKSIZE * (e - i - 1) + r) f'"
      using w2 by blast
    have len: "SFS_BLKSIZE * (i + 1) = ?p + length (take n buf)" "SFS_BLKSIZE * (i + 1) = ?p + sz" using n sz(3,5) more buf by simp_all
    have "file_step ?p (take n buf @ take m (drop sz buf)) f sin s f' sin' s'" using t(3) unfolding len(1) by (rule file_step_trans [OF p(3)])
    moreover have "take n buf @ take m (drop sz buf) = take (sz + m) buf" unfolding n by (simp only: take_add)
    ultimately have st: "file_step ?p (take (sz + m) buf) f sin s f' sin' s'" by simp
    have "nblk sin' = max (nblk sin) (cdiv (?p + (sz + m)))" using t(4) unfolding n1 len(2) by (simp add: add.assoc)
    then show ?thesis unfolding run tot using more t(1,2,5) st
      by (intro exI [of _ ret'] exI [of _ "sz + m"] exI [of _ sin'] exI [of _ f'] exI [of _ s']) auto
  qed
qed

lemma write_transfer:
  assumes ok: "sfs_ok f s" "inode_ok f sin s" and off: "offset \<le> SFS_BLKSIZE * nblk sin" "offset < endpos" "endpos \<le> SFS_BLKSIZE * MAXBLKS"
    and buf: "endpos - offset \<le> length buf"
  shows "\<exists>ret n sin' f' s'. sfs_io_transfer True f sin buf offset endpos s = Some (ret, n, buf, sin', f', s') \<and> n \<le> endpos - offset \<and>
    file_step offset (take n buf) f sin s f' sin' s' \<and> nblk sin' = max (nblk sin) (cdiv (offset + n)) \<and> wrote ret (n = endpos - offset) f'"
proof -
  define i o' e r where "i = offset div SFS_BLKSIZE" and "o' = offset mod SFS_BLKSIZE" and "e = endpos div SFS_BLKSIZE" and "r = endpos mod SFS_BLKSIZE"
  have d: "offset = SFS_BLKSIZE * i + o'" "o' < SFS_BLKSIZE" "endpos = SFS_BLKSIZE * e + r" "r < SFS_BLKSIZE" by (simp_all add: i_def o'_def e_def r_def)
  have ie: "i \<le> e" unfolding i_def e_def using off(2) by (simp add: div_le_mono)
  have em: "e + (if r = 0 then 0 else 1) \<le> MAXBLKS" using off(3) d(3) by (auto simp: SFS_BLKSIZE_def)
  have iN: "i \<le> nblk sin" "o' \<noteq> 0 \<Longrightarrow> i < nblk sin" using off(1) d(1) by (auto simp: SFS_BLKSIZE_def)
  show ?thesis
  proof (cases "o' = 0")
    case True
    have len: "SFS_BLKSIZE * (e - i) + r = endpos - offset" using True d ie by (auto simp: SFS_BLKSIZE_def)
    have "i + (e - i) + (if r = 0 then 0 else 1) \<le> MAXBLKS" "0 + SFS_BLKSIZE * (e - i) + r \<le> length buf" using em ie buf len by auto
    note w = write_rest [OF ok iN(1) this(1) d(4) this(2)]
    have "sfs_io_transfer True f sin buf offset endpos s = sfs_io_rest True f sin buf 0 i (e - i) r s"
      using True by (simp add: sfs_io_transfer_def flip: i_def o'_def e_def r_def)
    then show ?thesis using w unfolding len d(1) True by simp
  next
    case False
    show ?thesis using write_first [OF ok iN(2) [OF False] False d(2,4) ie em] off(2) buf unfolding d(1,3) by simp
  qed
qed

section \<open>Reading\<close>

abbreviation fbytes :: "sfs_inode \<Rightarrow> 'a devs_scheme \<Rightarrow> nat \<Rightarrow> nat \<Rightarrow> u8 list" where
  "fbytes sin s p n \<equiv> map (fbyte sin s) [p..<p + n]"

lemma quiet_fbyte: "quiet f s f' s' \<Longrightarrow> fbyte sin s' = fbyte sin s"
  by (simp add: fbyte_def quiet_bmap fun_eq_iff) (simp add: quiet_def)

lemma blk_fbytes:
  assumes "o' + n \<le> SFS_BLKSIZE"
  shows "take n (drop o' (blk s (unat (bmap sin s i)))) = fbytes sin s (SFS_BLKSIZE * i + o') n"
proof (rule nth_equalityI)
  fix j assume "j < length (take n (drop o' (blk s (unat (bmap sin s i)))))"
  then have j: "j < n" "o' + j < SFS_BLKSIZE" using assms by auto
  then have "(SFS_BLKSIZE * i + o' + j) div SFS_BLKSIZE = i" "(SFS_BLKSIZE * i + o' + j) mod SFS_BLKSIZE = o' + j" by (simp_all add: add.assoc)
  then show "take n (drop o' (blk s (unat (bmap sin s i)))) ! j = fbytes sin s (SFS_BLKSIZE * i + o') n ! j" using j by (simp add: fbyte_def)
qed (use assms in simp)

lemma sfs_rblock_ok:
  assumes "sfs_ok f s" and "data_block f b" and "SFS_BLKSIZE \<le> length buf"
  shows "\<exists>s'. sfs_rblock f buf b 1 s = Some (0, blk s (unat b) @ drop SFS_BLKSIZE buf, s') \<and> quiet f s f s'"
  using sfs_block_read [OF assms] by (auto simp: sfs_rblock_def sfs_rwblock_def quiet_def)

lemma read_piece:
  assumes ok: "sfs_ok f s" "inode_ok f sin s" and i: "i < nblk sin"
    and sz: "0 < sz" "piece_off off + sz \<le> SFS_BLKSIZE" "off = None \<Longrightarrow> sz = SFS_BLKSIZE" and buf: "pos + sz \<le> length buf"
  shows "\<exists>f' s'. sfs_io_piece False f sin buf pos i sz off s = Some (0, overlay buf pos (fbytes sin s (SFS_BLKSIZE * i + piece_off off) sz), sin, f', s') \<and> quiet f s f' s'"
proof -
  obtain f1 s1 where l: "sfs_bmap_load_nolock f sin i s = Some (0, bmap sin s i, sin, f1, s1)" "quiet f s f1 s1"
    using bmap_load_existing [OF ok i] by blast
  have b: "sfs_ok f1 s1" "data_block f1 (bmap sin s i)" "blk s1 = blk s" using inode_ok_bmap [OF ok(2) i] l(2) by (simp_all add: quiet_def)
  show ?thesis
  proof (cases off)
    case None
    then have z: "sz = SFS_BLKSIZE" "SFS_BLKSIZE \<le> length (drop pos buf)" using sz(3) buf by auto
    obtain s' where r: "sfs_rblock f1 (drop pos buf) (bmap sin s i) 1 s1 = Some (0, blk s1 (unat (bmap sin s i)) @ drop SFS_BLKSIZE (drop pos buf), s')" "quiet f1 s1 f1 s'"
      using sfs_rblock_ok [OF b(1,2) z(2)] by blast
    have "blk s (unat (bmap sin s i)) = fbytes sin s (SFS_BLKSIZE * i) SFS_BLKSIZE" using blk_fbytes [of 0 SFS_BLKSIZE] by simp
    then show ?thesis using None l(1) r(1) z(1) b(3) quiet_trans [OF l(2) r(2)] by (simp add: sfs_io_piece_def overlay_def add.commute)
  next
    case (Some o')
    then have "o' < SFS_BLKSIZE" "o' + sz \<le> SFS_BLKSIZE" using sz by auto
    then obtain f' s' where r: "sfs_rbuf f1 sz (bmap sin s i) o' s1 = Some (0, take sz (drop o' (blk s (unat (bmap sin s i)))), f', s')" "quiet f1 s1 f' s'"
      using sfs_rbuf_quiet [OF b(1,2), of o' sz] b(3) by auto
    then show ?thesis using Some l(1) blk_fbytes [OF \<open>o' + sz \<le> SFS_BLKSIZE\<close>, of s sin i] quiet_trans [OF l(2) r(2)] by (simp add: sfs_io_piece_def)
  qed
qed

lemma fbytes_app: "fbytes sin s p m @ fbytes sin s (p + m) n = fbytes sin s p (m + n)"
  using upt_add_eq_append [of p "p + m" n] by (simp add: add.assoc)

lemma overlay_fbytes:
  "pos + m + n \<le> length buf \<Longrightarrow> overlay (overlay buf pos (fbytes sin s p m)) (pos + m) (fbytes sin s (p + m) n) = overlay buf pos (fbytes sin s p (m + n))"
  using overlay_overlay [of pos "fbytes sin s p m" "fbytes sin s (p + m) n" buf] by (simp add: fbytes_app)

lemma read_blocks:
  assumes "sfs_ok f s" "inode_ok f sin s" and "i + k \<le> nblk sin" and "pos + SFS_BLKSIZE * k \<le> length buf"
  shows "\<exists>f' s'. sfs_io_blocks False f sin buf pos i k s =
    Some (0, pos + SFS_BLKSIZE * k, overlay buf pos (fbytes sin s (SFS_BLKSIZE * i) (SFS_BLKSIZE * k)), sin, f', s') \<and> quiet f s f' s'"
  using assms
proof (induction k arbitrary: f s pos i buf)
  case 0
  then show ?case using quiet_refl by simp
next
  case (Suc k)
  let ?buf = "overlay buf pos (fbytes sin s (SFS_BLKSIZE * i) SFS_BLKSIZE)"
  have "i < nblk sin" "0 < SFS_BLKSIZE" "piece_off None + SFS_BLKSIZE \<le> SFS_BLKSIZE" "pos + SFS_BLKSIZE \<le> length buf" using Suc.prems(3,4) by simp_all
  note p = read_piece [OF Suc.prems(1,2) this(1,2,3) refl this(4)]
  obtain f1 s1 where p: "sfs_io_piece False f sin buf pos i SFS_BLKSIZE None s = Some (0, ?buf, sin, f1, s1)" "quiet f s f1 s1"
    using p by (simp only: option.case add_0_right) blast
  have len: "length ?buf = length buf" using Suc.prems(4) by simp
  have ok1: "sfs_ok f1 s1" "inode_ok f1 sin s1" "i + 1 + k \<le> nblk sin" "pos + SFS_BLKSIZE + SFS_BLKSIZE * k \<le> length ?buf"
    using p(2) quiet_inode_ok [OF p(2)] Suc.prems(2,3,4) unfolding len by (simp_all add: quiet_def)
  obtain f' s' where r: "sfs_io_blocks False f1 sin ?buf (pos + SFS_BLKSIZE) (i + 1) k s1 = Some (0, pos + SFS_BLKSIZE + SFS_BLKSIZE * k,
      overlay ?buf (pos + SFS_BLKSIZE) (fbytes sin s1 (SFS_BLKSIZE * (i + 1)) (SFS_BLKSIZE * k)), sin, f', s')" "quiet f1 s1 f' s'"
    using Suc.IH [OF ok1] by blast
  have "overlay ?buf (pos + SFS_BLKSIZE) (fbytes sin s1 (SFS_BLKSIZE * (i + 1)) (SFS_BLKSIZE * k)) =
    overlay buf pos (fbytes sin s (SFS_BLKSIZE * i) (SFS_BLKSIZE * Suc k))"
    using overlay_fbytes [of pos SFS_BLKSIZE "SFS_BLKSIZE * k" buf sin s "SFS_BLKSIZE * i"] Suc.prems(4) quiet_fbyte [OF p(2)] by (simp add: add.commute)
  then show ?case using p(1) r(1) quiet_trans [OF p(2) r(2)] by (simp add: add.assoc)
qed

lemma read_rest:
  assumes ok: "sfs_ok f s" "inode_ok f sin s" and i: "i + k + (if sz = 0 then 0 else 1) \<le> nblk sin"
    and sz: "sz < SFS_BLKSIZE" and buf: "pos + SFS_BLKSIZE * k + sz \<le> length buf"
  shows "\<exists>f' s'. sfs_io_rest False f sin buf pos i k sz s =
    Some (0, pos + (SFS_BLKSIZE * k + sz), overlay buf pos (fbytes sin s (SFS_BLKSIZE * i) (SFS_BLKSIZE * k + sz)), sin, f', s') \<and> quiet f s f' s'"
proof -
  let ?buf = "overlay buf pos (fbytes sin s (SFS_BLKSIZE * i) (SFS_BLKSIZE * k))"
  obtain f1 s1 where b: "sfs_io_blocks False f sin buf pos i k s = Some (0, pos + SFS_BLKSIZE * k, ?buf, sin, f1, s1)" "quiet f s f1 s1"
    using read_blocks [OF ok, of i k pos buf] i buf by auto
  show ?thesis
  proof (cases "sz = 0")
    case True
    then show ?thesis using b by (simp add: sfs_io_rest_def)
  next
    case False
    have len: "length ?buf = length buf" using buf by simp
    have "sfs_ok f1 s1" "inode_ok f1 sin s1" "i + k < nblk sin" "0 < sz" "piece_off (Some 0) + sz \<le> SFS_BLKSIZE" "Some 0 = None \<Longrightarrow> sz = SFS_BLKSIZE"
      "pos + SFS_BLKSIZE * k + sz \<le> length ?buf"
      using b(2) quiet_inode_ok [OF b(2)] ok(2) i sz False buf unfolding len by (simp_all add: quiet_def)
    note p = read_piece [OF this]
    obtain f' s' where p: "sfs_io_piece False f1 sin ?buf (pos + SFS_BLKSIZE * k) (i + k) sz (Some 0) s1 =
        Some (0, overlay ?buf (pos + SFS_BLKSIZE * k) (fbytes sin s1 (SFS_BLKSIZE * (i + k)) sz), sin, f', s')" "quiet f1 s1 f' s'"
      using p by (simp only: option.case add_0_right) blast
    have "overlay ?buf (pos + SFS_BLKSIZE * k) (fbytes sin s1 (SFS_BLKSIZE * (i + k)) sz) = overlay buf pos (fbytes sin s (SFS_BLKSIZE * i) (SFS_BLKSIZE * k + sz))"
      using overlay_fbytes [of pos "SFS_BLKSIZE * k" sz buf sin s "SFS_BLKSIZE * i"] buf quiet_fbyte [OF b(2)] by (simp add: distrib_left)
    then show ?thesis using b(1) p(1) False quiet_trans [OF b(2) p(2)] by (simp add: sfs_io_rest_def)
  qed
qed

lemma read_first:
  assumes ok: "sfs_ok f s" "inode_ok f sin s" and o': "o' \<noteq> 0" "o' < SFS_BLKSIZE" and r: "r < SFS_BLKSIZE"
    and e: "i \<le> e" "e + (if r = 0 then 0 else 1) \<le> nblk sin" "SFS_BLKSIZE * i + o' < SFS_BLKSIZE * e + r"
    and buf: "SFS_BLKSIZE * e + r - (SFS_BLKSIZE * i + o') \<le> length buf"
  shows "\<exists>f' s'. sfs_io_transfer False f sin buf (SFS_BLKSIZE * i + o') (SFS_BLKSIZE * e + r) s =
    Some (0, SFS_BLKSIZE * e + r - (SFS_BLKSIZE * i + o'),
      overlay buf 0 (fbytes sin s (SFS_BLKSIZE * i + o') (SFS_BLKSIZE * e + r - (SFS_BLKSIZE * i + o'))), sin, f', s') \<and> quiet f s f' s'"
proof -
  let ?p = "SFS_BLKSIZE * i + o'" and ?e = "SFS_BLKSIZE * e + r"
  define sz where "sz = (if e - i \<noteq> 0 then SFS_BLKSIZE - o' else ?e - ?p)"
  have sz: "0 < sz" "o' + sz \<le> SFS_BLKSIZE" "sz \<le> ?e - ?p" "e = i \<Longrightarrow> sz = ?e - ?p" "e \<noteq> i \<Longrightarrow> o' + sz = SFS_BLKSIZE"
    using o' r e by (auto simp: sz_def SFS_BLKSIZE_def)
  have "i < nblk sin" using e by (cases "e = i") (auto split: if_splits)
  moreover have "piece_off (Some o') + sz \<le> SFS_BLKSIZE" "Some o' = None \<Longrightarrow> sz = SFS_BLKSIZE" "0 + sz \<le> length buf"
    using sz buf by simp_all
  ultimately have w: "\<exists>f' s'. sfs_io_piece False f sin buf 0 i sz (Some o') s = Some (0, overlay buf 0 (fbytes sin s ?p sz), sin, f', s') \<and> quiet f s f' s'"
    using read_piece [OF ok _ sz(1), of i "Some o'" 0 buf] by simp
  obtain f1 s1 where p: "sfs_io_piece False f sin buf 0 i sz (Some o') s = Some (0, overlay buf 0 (fbytes sin s ?p sz), sin, f1, s1)" "quiet f s f1 s1"
    using w by blast
  let ?buf = "overlay buf 0 (fbytes sin s ?p sz)"
  have q: "?p div SFS_BLKSIZE = i" "?e div SFS_BLKSIZE = e" "?p mod SFS_BLKSIZE = o'" "?e mod SFS_BLKSIZE = r" using o' r by simp_all
  have run: "sfs_io_transfer False f sin buf ?p ?e s =
    (if e = i then Some (0, sz, ?buf, sin, f1, s1) else sfs_io_rest False f1 sin ?buf sz (i + 1) (e - i - 1) r s1)"
    unfolding sfs_io_transfer_def q Let_def using o'(1) e(1) p(1) by (simp add: sz_def)
  show ?thesis
  proof (cases "e = i")
    case True
    then show ?thesis using p(2) sz(4) unfolding run by auto
  next
    case False
    have tot: "?e - ?p = sz + (SFS_BLKSIZE * (e - i - 1) + r)" using sz(5) False e(1) o'(2) by (auto simp: SFS_BLKSIZE_def)
    have len: "length ?buf = length buf" using sz(3) buf by simp
    have "sfs_ok f1 s1" "inode_ok f1 sin s1" "i + 1 + (e - i - 1) + (if r = 0 then 0 else 1) \<le> nblk sin"
      "sz + SFS_BLKSIZE * (e - i - 1) + r \<le> length ?buf"
      using p(2) quiet_inode_ok [OF p(2)] ok(2) e(1,2) False buf tot unfolding len by (auto simp: quiet_def)
    note w2 = read_rest [OF this(1-3) r this(4)]
    obtain f' s' where t: "sfs_io_rest False f1 sin ?buf sz (i + 1) (e - i - 1) r s1 = Some (0, ?e - ?p,
        overlay ?buf sz (fbytes sin s (SFS_BLKSIZE * (i + 1)) (SFS_BLKSIZE * (e - i - 1) + r)), sin, f', s')" "quiet f1 s1 f' s'"
      using w2 unfolding tot quiet_fbyte [OF p(2)] by blast
    have pe: "SFS_BLKSIZE * (i + 1) = ?p + sz" using sz(5) False by simp
    have "overlay ?buf sz (fbytes sin s (SFS_BLKSIZE * (i + 1)) (SFS_BLKSIZE * (e - i - 1) + r)) = overlay buf 0 (fbytes sin s ?p (?e - ?p))"
      using overlay_fbytes [of 0 sz "SFS_BLKSIZE * (e - i - 1) + r" buf sin s ?p] buf unfolding tot pe by simp
    then show ?thesis unfolding run using False t(1) quiet_trans [OF p(2) t(2)] by simp
  qed
qed

lemma read_transfer:
  assumes ok: "sfs_ok f s" "inode_ok f sin s" and off: "offset < endpos" "endpos \<le> SFS_BLKSIZE * nblk sin" and buf: "endpos - offset \<le> length buf"
  shows "\<exists>f' s'. sfs_io_transfer False f sin buf offset endpos s =
    Some (0, endpos - offset, overlay buf 0 (fbytes sin s offset (endpos - offset)), sin, f', s') \<and> quiet f s f' s'"
proof -
  define i o' e r where "i = offset div SFS_BLKSIZE" and "o' = offset mod SFS_BLKSIZE" and "e = endpos div SFS_BLKSIZE" and "r = endpos mod SFS_BLKSIZE"
  have d: "offset = SFS_BLKSIZE * i + o'" "o' < SFS_BLKSIZE" "endpos = SFS_BLKSIZE * e + r" "r < SFS_BLKSIZE" by (simp_all add: i_def o'_def e_def r_def)
  have ie: "i \<le> e" unfolding i_def e_def using off(1) by (simp add: div_le_mono)
  have em: "e + (if r = 0 then 0 else 1) \<le> nblk sin" using off(2) d(3) by (auto simp: SFS_BLKSIZE_def)
  show ?thesis
  proof (cases "o' = 0")
    case True
    have len: "SFS_BLKSIZE * (e - i) + r = endpos - offset" using True d ie by (auto simp: SFS_BLKSIZE_def)
    have "i + (e - i) + (if r = 0 then 0 else 1) \<le> nblk sin" "0 + SFS_BLKSIZE * (e - i) + r \<le> length buf" using em ie buf len by auto
    note w = read_rest [OF ok this(1) d(4) this(2)]
    have "sfs_io_transfer False f sin buf offset endpos s = sfs_io_rest False f sin buf 0 i (e - i) r s"
      using True by (simp add: sfs_io_transfer_def flip: i_def o'_def e_def r_def)
    then show ?thesis using w unfolding len d(1) True by simp
  next
    case False
    show ?thesis using read_first [OF ok False d(2,4) ie em] off(1) buf unfolding d(1,3) by simp
  qed
qed

section \<open>Files as byte sequences\<close>

definition contents :: "sfs_inode \<Rightarrow> 'a devs_scheme \<Rightarrow> u8 list" where
  "contents sin s = map (fbyte sin s) [0..<unat (di_size (sin_din sin))]"

text \<open>The invariant of a file: its inode is well-formed and has exactly the blocks its size needs.\<close>

definition file_ok :: "sfs_fs \<Rightarrow> sfs_inode \<Rightarrow> 'a devs_scheme \<Rightarrow> bool" where
  "file_ok f sin s \<longleftrightarrow> inode_ok f sin s \<and> nblk sin = cdiv (unat (di_size (sin_din sin))) \<and> di_type (sin_din sin) \<noteq> SFS_TYPE_DIR"

lemma cdiv_bound: "n \<le> SFS_BLKSIZE * cdiv n"
  using cdiv_split [of "n mod SFS_BLKSIZE" "n div SFS_BLKSIZE"] mod_less_divisor [of SFS_BLKSIZE n] mult_div_mod_eq [of SFS_BLKSIZE n]
  by (auto simp: SFS_BLKSIZE_def split: if_splits)

lemma cdiv_mono: "m \<le> n \<Longrightarrow> cdiv m \<le> cdiv n"
  by (simp add: cdiv_def div_le_mono)

lemma sint_of_small: "0 \<le> k \<Longrightarrow> k < 2 ^ 31 \<Longrightarrow> sint (word_of_int k :: u32) = k"
  by (subst signed_of_int) (simp add: signed_take_bit_int_eq_self)

lemma MAXBLKS_bytes: "SFS_BLKSIZE * MAXBLKS = 4243456"
  by (simp add: SFS_BLKSIZE_def MAXBLKS_def SFS_NDIRECT_def SFS_BLK_NENTRY_def)

lemma file_ok_size: "file_ok f sin s \<Longrightarrow> unat (di_size (sin_din sin)) \<le> SFS_BLKSIZE * nblk sin"
  using cdiv_bound by (simp add: file_ok_def)

lemma write_run:
  assumes ok: "sfs_ok f s" "file_ok f sin s" and off: "off \<le> unat (di_size (sin_din sin))" "off + length buf \<le> SFS_BLKSIZE * MAXBLKS"
  shows "\<exists>ret n sin1 sin' f' s'. sfs_io_nolock True f sin buf (int off) (length buf) s = Some (ret, n, buf, sin', f', s') \<and> n \<le> length buf \<and>
    file_step off (take n buf) f sin s f' sin1 s' \<and> nblk sin1 = max (nblk sin) (cdiv (off + n)) \<and> wrote ret (n = length buf) f' \<and>
    sin' = (if off + n > unat (di_size (sin_din sin)) then (upd_din (\<lambda>d. d\<lparr>di_size := word_of_nat (off + n)\<rparr>) sin1)\<lparr>sin_dirty := True\<rparr> else sin1)"
proof -
  have inode: "inode_ok f sin s" and ty: "di_type (sin_din sin) \<noteq> SFS_TYPE_DIR" using ok(2) by (simp_all add: file_ok_def)
  have e: "sint (word_of_int (int off + int (length buf)) :: u32) = int (off + length buf)"
    using off(2) unfolding MAXBLKS_bytes by (subst sint_of_small) simp_all
  have m: "\<not> int off \<ge> int SFS_MAX_FILE_SIZE" "\<not> int (off + length buf) > int SFS_MAX_FILE_SIZE"
    using off(2) unfolding MAXBLKS_bytes by (simp_all add: SFS_MAX_FILE_SIZE_def)
  show ?thesis
  proof (cases "buf = []")
    case True
    have "sfs_io_nolock True f sin buf (int off) (length buf) s = Some (0, 0, buf, sin, f, s)"
      unfolding sfs_io_nolock_def Let_def e using ty m True by simp
    moreover have "cdiv off \<le> nblk sin" using cdiv_mono [OF off(1)] ok(2) by (simp add: file_ok_def)
    moreover have "file_step off [] f sin s f sin s" using quiet_file_step [OF quiet_refl [OF ok(1)] inode] .
    ultimately show ?thesis using True off(1) by (intro exI [of _ 0] exI [of _ sin] exI [of _ f] exI [of _ s]) (simp add: max_def)
  next
    case False
    have "off \<le> SFS_BLKSIZE * nblk sin" "off < off + length buf" "off + length buf - off \<le> length buf" using off(1) file_ok_size [OF ok(2)] False by auto
    note w = write_transfer [OF ok(1) inode this(1,2) off(2) this(3)]
    obtain ret n sin1 f' s' where t: "sfs_io_transfer True f sin buf off (off + length buf) s = Some (ret, n, buf, sin1, f', s')" "n \<le> length buf"
      "file_step off (take n buf) f sin s f' sin1 s'" "nblk sin1 = max (nblk sin) (cdiv (off + n))" "wrote ret (n = length buf) f'"
      using w unfolding add_diff_cancel_left' by blast
    have "di_size (sin_din sin1) = di_size (sin_din sin)" using t(3) by (simp add: file_step_def)
    then have "sfs_io_nolock True f sin buf (int off) (length buf) s = Some (ret, n, buf,
      (if off + n > unat (di_size (sin_din sin)) then (upd_din (\<lambda>d. d\<lparr>di_size := word_of_nat (off + n)\<rparr>) sin1)\<lparr>sin_dirty := True\<rparr> else sin1), f', s')"
      unfolding sfs_io_nolock_def Let_def e using ty m False t(1) by (simp add: nat_int_add)
    then show ?thesis using t(2-5) by blast
  qed
qed

abbreviation set_size :: "nat \<Rightarrow> sfs_inode \<Rightarrow> sfs_inode" where
  "set_size n sin \<equiv> (upd_din (\<lambda>d. d\<lparr>di_size := word_of_nat n\<rparr>) sin)\<lparr>sin_dirty := True\<rparr>"

lemma set_size_bmap [simp]: "bmap (set_size n sin) = bmap sin"
  by (simp add: bmap_def fun_eq_iff)

lemma set_size_simps [simp]:
  "owned (set_size n sin) = owned sin" "others f (set_size n sin) = others f sin"
  "inode_ok f (set_size n sin) = inode_ok f sin" "fbyte (set_size n sin) = fbyte sin"
  by (simp_all add: owned_def others_def inode_ok_def fbyte_def fun_eq_iff)

text \<open>Everything there is to know about a write, from its run.\<close>

lemma write_result:
  assumes ok: "sfs_ok f s" "file_ok f sin s" and off: "off \<le> unat (di_size (sin_din sin))" "off + length buf \<le> SFS_BLKSIZE * MAXBLKS"
  shows "\<exists>ret n sin' f' s'. sfs_io_nolock True f sin buf (int off) (length buf) s = Some (ret, n, buf, sin', f', s') \<and> n \<le> length buf \<and>
    wrote ret (n = length buf) f' \<and> sfs_ok f' s' \<and> file_ok f' sin' s' \<and> contents sin' s' = overlay (contents sin s) off (take n buf) \<and>
    unat (di_size (sin_din sin')) = max (unat (di_size (sin_din sin))) (off + n) \<and> fs_nblocks f' = fs_nblocks f \<and>
    sin_ino sin' = sin_ino sin \<and> others f' sin' s' = others f sin s \<and> (\<forall>j\<in>others f sin s. blk s' j = blk s j)"
proof -
  let ?sz = "unat (di_size (sin_din sin))"
  obtain ret n sin1 sin' f' s' where r: "sfs_io_nolock True f sin buf (int off) (length buf) s = Some (ret, n, buf, sin', f', s')" "n \<le> length buf"
    "file_step off (take n buf) f sin s f' sin1 s'" "nblk sin1 = max (nblk sin) (cdiv (off + n))" "wrote ret (n = length buf) f'"
    "sin' = (if off + n > ?sz then set_size (off + n) sin1 else sin1)" using write_run [OF assms] by blast
  have sz1: "unat (di_size (sin_din sin1)) = ?sz" and ty: "di_type (sin_din sin1) = di_type (sin_din sin)" using r(3) by (simp_all add: file_step_def)
  have "off + n < 2 ^ 32" using r(2) off(2) unfolding MAXBLKS_bytes by simp
  then have "unat (word_of_nat (off + n) :: u32) = off + n" by (simp add: unat_of_nat take_bit_nat_eq_self del: of_nat_add)
  then have sz: "unat (di_size (sin_din sin')) = max ?sz (off + n)" using sz1 r(6) by (auto simp: max_def simp del: of_nat_add)
  have same: "bmap sin' = bmap sin1" "owned sin' = owned sin1" "others f' sin' = others f' sin1" "inode_ok f' sin' = inode_ok f' sin1" "fbyte sin' = fbyte sin1"
    "nblk sin' = nblk sin1" "di_type (sin_din sin') = di_type (sin_din sin1)" "sin_ino sin' = sin_ino sin1" unfolding r(6) by (simp_all del: of_nat_add)
  have "cdiv (max ?sz (off + n)) = max (cdiv ?sz) (cdiv (off + n))" by (simp add: max_of_mono monoI cdiv_mono)
  then have fok: "file_ok f' sin' s'" using ok(2) r(3,4) sz ty by (simp add: file_ok_def same file_step_def)
  have "contents sin' s' = overlay (contents sin s) off (take n buf)"
  proof (rule nth_equalityI)
    show "length (contents sin' s') = length (overlay (contents sin s) off (take n buf))"
      using sz off(1) r(2) by (simp add: contents_def overlay_def)
    fix p assume "p < length (contents sin' s')"
    then have p: "p < max ?sz (off + n)" using sz by (simp add: contents_def)
    have nb: "nblk sin1 = cdiv (max ?sz (off + n))" using fok sz by (simp add: file_ok_def same)
    have "p < SFS_BLKSIZE * nblk sin1" unfolding nb using p cdiv_bound by (rule less_le_trans)
    then have "fbyte sin1 s' p = (if off \<le> p \<and> p < off + n then take n buf ! (p - off) else if p < SFS_BLKSIZE * nblk sin then fbyte sin s p else 0)"
      using r(2,3) by (simp add: file_step_def)
    moreover have "p < SFS_BLKSIZE * nblk sin" if "p < ?sz" using that file_ok_size [OF ok(2)] by simp
    ultimately have "fbyte sin1 s' p = (if off \<le> p \<and> p < off + n then buf ! (p - off) else fbyte sin s p)"
      using p off(1) by (auto simp: less_max_iff_disj)
    moreover have "contents sin' s' ! p = fbyte sin1 s' p" using p sz by (simp add: contents_def same)
    moreover have "overlay (contents sin s) off (take n buf) ! p = (if off \<le> p \<and> p < off + n then buf ! (p - off) else fbyte sin s p)"
      using p r(2) off(1) by (auto simp: overlay_def nth_append contents_def)
    ultimately show "contents sin' s' ! p = overlay (contents sin s) off (take n buf) ! p" by simp
  qed
  moreover have "sfs_ok f' s'" "fs_nblocks f' = fs_nblocks f" "sin_ino sin' = sin_ino sin" "others f' sin' s' = others f sin s"
    "\<forall>j\<in>others f sin s. blk s' j = blk s j" using r(3) same(8) unfolding same(3) by (simp_all add: file_step_def)
  ultimately show ?thesis using r(1,2,5) sz fok by blast
qed

text \<open>Blocks are neither lost nor made: those that are not \<open>others\<close> are free or belong to the file.\<close>

lemma card_owned:
  assumes "inode_ok f sin s"
  shows "nblk sin \<le> card (owned sin s)" "card (owned sin s) \<le> nblk sin + 1" "finite (owned sin s)"
proof -
  let ?I = "unat ` bmap sin s ` {..<nblk sin}"
  have "card ?I = nblk sin" using assms by (simp add: inode_ok_def card_image inj_on_def word_unat_eq_iff)
  then show "nblk sin \<le> card (owned sin s)" "card (owned sin s) \<le> nblk sin + 1" "finite (owned sin s)"
    using card_insert_le [of ?I "unat (ind sin)"] card_insert_le_m1 [of "nblk sin + 1" ?I "unat (ind sin)"] by (auto simp: owned_def)
qed

lemma free_account:
  assumes "sfs_ok f s" "inode_ok f sin s" "sfs_ok f' s'" "inode_ok f' sin' s'" "fs_nblocks f' = fs_nblocks f" "others f' sin' s' = others f sin s"
  shows "card (fs_free f) + card (owned sin s) = card (fs_free f') + card (owned sin' s')"
proof -
  have part: "card (fs_free g) + card (owned si t) = card ({..<fs_nblocks g} - others g si t)" if ok: "sfs_ok g t" "inode_ok g si t" for g si t
  proof -
    have sub: "fs_free g \<subseteq> {..<fs_nblocks g}" using ok(1) by (auto simp: sfs_ok_def)
    have sub2: "owned si t \<subseteq> {..<fs_nblocks g}" "fs_free g \<inter> owned si t = {}"
      using inode_ok_bmap [OF ok(2)] inode_ok_ind [OF ok(2)] by (auto simp: owned_def split: if_splits)
    have "{..<fs_nblocks g} - others g si t = fs_free g \<union> owned si t" using sub sub2 by (auto simp: others_def)
    then show ?thesis using card_Un_disjoint [OF finite_fs_free [OF ok(1)] card_owned(3) [OF ok(2)] sub2(2)] by simp
  qed
  show ?thesis using part [OF assms(1,2)] part [OF assms(3,4)] assms(5,6) by simp
qed

lemma read_result:
  assumes ok: "sfs_ok f s" "file_ok f sin s" and off: "off + length buf < 2 ^ 31" "off < SFS_MAX_FILE_SIZE" "unat (di_size (sin_din sin)) \<le> SFS_MAX_FILE_SIZE"
  shows "\<exists>f' s'. sfs_io_nolock False f sin buf (int off) (length buf) s =
    Some (0, min (length buf) (unat (di_size (sin_din sin)) - off), overlay buf 0 (take (length buf) (drop off (contents sin s))), sin, f', s') \<and> quiet f s f' s'"
proof -
  let ?sz = "unat (di_size (sin_din sin))"
  have inode: "inode_ok f sin s" and ty: "di_type (sin_din sin) \<noteq> SFS_TYPE_DIR" using ok(2) by (simp_all add: file_ok_def)
  have e: "sint (word_of_int (int off + int (length buf)) :: u32) = int (off + length buf)" using off(1) by (subst sint_of_small) simp_all
  have u: "uint (di_size (sin_din sin)) \<le> int k \<longleftrightarrow> ?sz \<le> k" "uint (di_size (sin_din sin)) < int k \<longleftrightarrow> ?sz < k" for k
    unfolding uint_nat by (simp_all only: of_nat_le_iff of_nat_less_iff)
  have m: "\<not> int off \<ge> int SFS_MAX_FILE_SIZE" using off(2) by simp
  show ?thesis
  proof (cases "buf = [] \<or> ?sz \<le> off")
    case True
    then have "sfs_io_nolock False f sin buf (int off) (length buf) s = Some (0, 0, buf, sin, f, s)"
      unfolding sfs_io_nolock_def Let_def e using ty m u(1) [of off] by auto
    moreover have "overlay buf 0 (take (length buf) (drop off (contents sin s))) = buf" using True by (auto simp: contents_def overlay_def)
    ultimately show ?thesis using True quiet_refl [OF ok(1)] by auto
  next
    case False
    define endpos where "endpos = min (off + length buf) ?sz"
    have ep: "off < endpos" "endpos \<le> SFS_BLKSIZE * nblk sin" "endpos - off \<le> length buf" "endpos - off = min (length buf) (?sz - off)"
      using False file_ok_size [OF ok(2)] by (auto simp: endpos_def)
    obtain f' s' where t: "sfs_io_transfer False f sin buf off endpos s = Some (0, endpos - off, overlay buf 0 (fbytes sin s off (endpos - off)), sin, f', s')" "quiet f s f' s'"
      using read_transfer [OF ok(1) inode ep(1-3)] by blast
    have n: "nat (if \<not> False \<and> (if int (off + length buf) > int SFS_MAX_FILE_SIZE then int SFS_MAX_FILE_SIZE else int (off + length buf)) > uint (di_size (sin_din sin))
        then uint (di_size (sin_din sin)) else if int (off + length buf) > int SFS_MAX_FILE_SIZE then int SFS_MAX_FILE_SIZE else int (off + length buf)) = endpos"
      using off(3) u(2) [of SFS_MAX_FILE_SIZE] u(2) [of "off + length buf"] unfolding endpos_def unat_eq_nat_uint by (auto simp del: nat_uint_eq)
    have "int off < int (off + length buf)" "\<not> int off \<ge> uint (di_size (sin_din sin))" "int off \<noteq> int (off + length buf)" using False u(1) [of off] by auto
    then have "sfs_io_nolock False f sin buf (int off) (length buf) s = Some (0, endpos - off, overlay buf 0 (fbytes sin s off (endpos - off)), sin, f', s')"
      unfolding sfs_io_nolock_def Let_def e n nat_int using ty m t(1) ep(1) by (simp add: endpos_def)
    moreover have "fbytes sin s off (endpos - off) = take (length buf) (drop off (contents sin s))"
      using ep(1) by (simp add: contents_def drop_map take_map endpos_def min_def)
    ultimately show ?thesis using t(2) ep(4) by auto
  qed
qed

lemma write_enough_room:
  assumes ok: "sfs_ok f s" "file_ok f sin s" and off: "off \<le> unat (di_size (sin_din sin))" "off + length buf \<le> SFS_BLKSIZE * MAXBLKS"
    and room: "cdiv (off + length buf) - nblk sin + 2 < card (fs_free f)"
  shows "\<exists>sin' f' s'. sfs_io_nolock True f sin buf (int off) (length buf) s = Some (0, length buf, buf, sin', f', s') \<and> sfs_ok f' s' \<and> file_ok f' sin' s' \<and>
    contents sin' s' = overlay (contents sin s) off buf \<and> unat (di_size (sin_din sin')) = max (unat (di_size (sin_din sin))) (off + length buf)"
proof -
  obtain ret n sin' f' s' where r: "sfs_io_nolock True f sin buf (int off) (length buf) s = Some (ret, n, buf, sin', f', s')" "n \<le> length buf"
    "wrote ret (n = length buf) f'" "sfs_ok f' s'" "file_ok f' sin' s'" "contents sin' s' = overlay (contents sin s) off (take n buf)"
    "unat (di_size (sin_din sin')) = max (unat (di_size (sin_din sin))) (off + n)" "fs_nblocks f' = fs_nblocks f" "others f' sin' s' = others f sin s"
    using write_result [OF ok off] by blast
  have i: "inode_ok f sin s" "inode_ok f' sin' s'" "nblk sin = cdiv (unat (di_size (sin_din sin)))" "nblk sin' = cdiv (unat (di_size (sin_din sin')))"
    using ok(2) r(5) by (simp_all add: file_ok_def)
  have "nblk sin' = max (nblk sin) (cdiv (off + n))" unfolding i(3,4) r(7) by (simp add: max_of_mono monoI cdiv_mono)
  moreover have "cdiv (off + n) \<le> cdiv (off + length buf)" using r(2) by (simp add: cdiv_mono)
  moreover have "card (fs_free f) + card (owned sin s) = card (fs_free f') + card (owned sin' s')" using free_account [OF ok(1) i(1) r(4) i(2) r(8,9)] .
  ultimately have "card (fs_free f) \<le> card (fs_free f') + (cdiv (off + length buf) - nblk sin) + 1"
    using card_owned(1) [OF i(1)] card_owned(2) [OF i(2)] by simp
  then have "ret = 0" "n = length buf" using r(3) room by auto
  then show ?thesis using r by auto
qed

section \<open>An example file system\<close>

text \<open>Eight blocks, of which the last four are free, and an empty file with its inode in block 3.\<close>

definition sfs_example :: sfs_fs where
  "sfs_example = \<lparr>sfs_sb = \<lparr>sb_magic = SFS_MAGIC, sb_blocks = 8, sb_unused = 4, sb_info = replicate 32 0\<rparr>,
     sfs_dev = \<lparr>d_blocks = 8, d_blocksize = 4096, d_ops = Disk0_ops\<rparr>, sfs_freemap = \<lparr>nbits = 32, nwords = 1, bm_map = [0xF0]\<rparr>,
     sfs_super_dirty = False, sfs_buffer = replicate SFS_BLKSIZE 0, sfs_inodes = [], sfs_hash = \<lambda>_. []\<rparr>"

definition sin_example :: sfs_inode where
  "sin_example = \<lparr>sin_din = \<lparr>di_size = 0, di_type = SFS_TYPE_FILE, di_nlinks = 1, di_blocks = 0, di_direct = replicate SFS_NDIRECT 0, di_indirect = 0\<rparr>,
     sin_ino = 3, sin_dirty = False, sin_reclaim = 1\<rparr>"

lemma example_free: "fs_free sfs_example = {4..<8}"
proof -
  have e: "(0xF0 :: u32) = push_bit 4 (mask 4)" by (simp add: mask_eq_exp_minus_1 push_bit_eq_mult)
  have b: "bit (0xF0 :: u32) n \<longleftrightarrow> 4 \<le> n \<and> n < 8" for n unfolding e by (auto simp: bit_simps)
  have m: "i \<in> fs_free sfs_example \<longleftrightarrow> i < 32 \<and> bit (0xF0 :: u32) i" for i by (cases "i < 32") (simp_all add: sfs_example_def free_bits_def WORD_BITS_def)
  show ?thesis by (rule set_eqI, simp only: m b atLeastLessThan_iff) auto
qed

lemma example_ok: "sfs_ok sfs_example devs_empty" "file_ok sfs_example sin_example devs_empty" "contents sin_example devs_empty = []"
proof -
  have "bitmap_ok (sfs_freemap sfs_example)" unfolding bitmap_ok_def example_free by (simp add: sfs_example_def WORD_BITS_def) auto
  moreover have "good_disk 8 devs_empty" by (simp add: good_disk_def devs_empty_def MAX_DISK_NSECS_def)
  moreover have "fs_nblocks sfs_example = 8" by (simp add: sfs_example_def)
  ultimately show "sfs_ok sfs_example devs_empty" unfolding sfs_ok_def example_free by (auto simp: sfs_example_def)
  have "bmap sin_example devs_empty i = 0" for i by (simp add: bmap_def sin_example_def)
  moreover have "cdiv 0 = 0" by (simp add: cdiv_def SFS_BLKSIZE_def)
  ultimately show "file_ok sfs_example sin_example devs_empty"
    by (simp add: file_ok_def inode_ok_def) (simp add: sin_example_def SFS_TYPE_FILE_def SFS_TYPE_DIR_def)
  show "contents sin_example devs_empty = []" by (simp add: contents_def sin_example_def)
qed

lemma example_room: "cdiv 2 - nblk sin_example + 2 < card (fs_free sfs_example)"
  unfolding example_free by (simp add: cdiv_def SFS_BLKSIZE_def sin_example_def)

section \<open>Reading and writing files\<close>

text \<open>
  C36: a write to a file at a position not past its end returns, and changes the file, as a sequence of bytes, by
  putting the first \<open>n\<close> bytes of the buffer at that position, where \<open>n\<close> is the length it reports; the invariants
  of the file system and of the file hold afterwards. Either everything is written and the result is 0, or the
  result is \<open>-E_NO_MEM\<close> and the disk is full but for at most one block.
\<close>

theorem sfs_write_refines:
  assumes "sfs_ok f s" and "file_ok f sin s" and "off \<le> length (contents sin s)" and "off + length buf \<le> SFS_BLKSIZE * MAXBLKS"
  shows "\<exists>ret n sin' f' s'. sfs_io_nolock True f sin buf (int off) (length buf) s = Some (ret, n, buf, sin', f', s') \<and> n \<le> length buf \<and>
    contents sin' s' = take off (contents sin s) @ take n buf @ drop (off + n) (contents sin s) \<and> sfs_ok f' s' \<and> file_ok f' sin' s' \<and>
    (ret = 0 \<and> n = length buf \<or> ret = - E_NO_MEM \<and> n < length buf \<and> card (fs_free f') \<le> 1)"
proof -
  have off: "off \<le> unat (di_size (sin_din sin))" using assms(3) by (simp add: contents_def)
  obtain ret n sin' f' s' where r: "sfs_io_nolock True f sin buf (int off) (length buf) s = Some (ret, n, buf, sin', f', s')" "n \<le> length buf"
    "wrote ret (n = length buf) f'" "sfs_ok f' s'" "file_ok f' sin' s'" "contents sin' s' = overlay (contents sin s) off (take n buf)"
    using write_result [OF assms(1,2) off assms(4)] by blast
  have "overlay (contents sin s) off (take n buf) = take off (contents sin s) @ take n buf @ drop (off + n) (contents sin s)"
    using r(2) by (simp add: overlay_def)
  then show ?thesis using r by (intro exI [of _ ret] exI [of _ n] exI [of _ sin'] exI [of _ f'] exI [of _ s']) auto
qed

theorem sfs_write_refines_witness:
  "\<exists>ret n sin' f' s'. sfs_io_nolock True sfs_example sin_example [104, 105] 0 2 devs_empty = Some (ret, n, [104, 105], sin', f', s') \<and> n \<le> 2 \<and>
    contents sin' s' = take n [104, 105] \<and> sfs_ok f' s'"
proof -
  have "0 + length [104, 105 :: u8] \<le> SFS_BLKSIZE * MAXBLKS" unfolding MAXBLKS_bytes by simp
  from sfs_write_refines [OF example_ok(1,2) _ this] show ?thesis by (auto simp: example_ok(3) numeral_2_eq_2)
qed

text \<open>
  C37: a write touches only the file it writes to: every block in use that is not a block of the file keeps its
  contents, stays in use, and does not become a block of the file.
\<close>

theorem sfs_write_isolated:
  assumes "sfs_ok f s" and "file_ok f sin s" and "off \<le> length (contents sin s)" and "off + length buf \<le> SFS_BLKSIZE * MAXBLKS"
    and "j < fs_nblocks f" and "j \<notin> fs_free f" and "j \<notin> owned sin s"
  shows "\<exists>ret n sin' f' s'. sfs_io_nolock True f sin buf (int off) (length buf) s = Some (ret, n, buf, sin', f', s') \<and>
    blk s' j = blk s j \<and> j \<notin> fs_free f' \<and> j \<notin> owned sin' s'"
proof -
  have off: "off \<le> unat (di_size (sin_din sin))" using assms(3) by (simp add: contents_def)
  have "j \<in> others f sin s" using assms(5-7) by (simp add: others_def)
  then show ?thesis using write_result [OF assms(1,2) off assms(4)] by (fastforce simp: others_def)
qed

theorem sfs_write_isolated_witness:
  "\<exists>ret n sin' f' s'. sfs_io_nolock True sfs_example sin_example [104, 105] 0 2 devs_empty = Some (ret, n, [104, 105], sin', f', s') \<and> blk s' 3 = blk devs_empty 3 \<and> 3 \<notin> fs_free f'"
proof -
  have "0 + length [104, 105 :: u8] \<le> SFS_BLKSIZE * MAXBLKS" unfolding MAXBLKS_bytes by simp
  moreover have "3 < fs_nblocks sfs_example" "3 \<notin> fs_free sfs_example" "3 \<notin> owned sin_example devs_empty"
    unfolding example_free by (simp_all add: sfs_example_def sin_example_def owned_def)
  ultimately show ?thesis using sfs_write_isolated [OF example_ok(1,2), of 0 "[104, 105]" 3] by (auto simp: numeral_2_eq_2)
qed



text \<open>
  C39: what is written is read back: if there is room for the new blocks and two more, a write of \<open>d\<close> succeeds, and a
  read of as many bytes at the same position then returns \<open>d\<close>.
\<close>

theorem sfs_write_read:
  assumes "sfs_ok f s" and "file_ok f sin s" and "off \<le> length (contents sin s)" and "off + length d \<le> SFS_BLKSIZE * MAXBLKS"
    and "cdiv (off + length d) - nblk sin + 2 < card (fs_free f)" and "length buf = length d"
  shows "\<exists>sin' f' s' f'' s''. sfs_io_nolock True f sin d (int off) (length d) s = Some (0, length d, d, sin', f', s') \<and>
    sfs_io_nolock False f' sin' buf (int off) (length d) s' = Some (0, length d, d, sin', f'', s'')"
proof -
  have off: "off \<le> unat (di_size (sin_din sin))" using assms(3) by (simp add: contents_def)
  obtain sin' f' s' where w: "sfs_io_nolock True f sin d (int off) (length d) s = Some (0, length d, d, sin', f', s')" "sfs_ok f' s'" "file_ok f' sin' s'"
    "contents sin' s' = overlay (contents sin s) off d" "unat (di_size (sin_din sin')) = max (unat (di_size (sin_din sin))) (off + length d)"
    using write_enough_room [OF assms(1,2) off assms(4,5)] by blast
  have "nblk sin \<le> MAXBLKS" using assms(2) by (simp add: file_ok_def inode_ok_def)
  then have "unat (di_size (sin_din sin)) \<le> SFS_BLKSIZE * MAXBLKS" using file_ok_size [OF assms(2)] mult_le_mono2 order.trans by blast
  then have "off + length buf < 2 ^ 31" "off < SFS_MAX_FILE_SIZE" "unat (di_size (sin_din sin')) \<le> SFS_MAX_FILE_SIZE"
    using assms(4,6) off unfolding w(5) MAXBLKS_bytes by (simp_all add: SFS_MAX_FILE_SIZE_def)
  from read_result [OF w(2,3) this] obtain f'' s'' where "sfs_io_nolock False f' sin' buf (int off) (length d) s' =
      Some (0, length d, overlay buf 0 (take (length d) (drop off (contents sin' s'))), sin', f'', s'')" unfolding w(5) assms(6) by auto
  moreover have "overlay buf 0 (take (length d) (drop off (contents sin' s'))) = d"
    using off assms(6) unfolding w(4) by (simp add: overlay_def contents_def)
  ultimately show ?thesis using w(1) by auto
qed

theorem sfs_write_read_witness:
  "\<exists>sin' f' s' f'' s''. sfs_io_nolock True sfs_example sin_example [104, 105] 0 2 devs_empty = Some (0, 2, [104, 105], sin', f', s') \<and>
    sfs_io_nolock False f' sin' [0, 0] 0 2 s' = Some (0, 2, [104, 105], sin', f'', s'')"
proof -
  have "0 + length [104, 105 :: u8] \<le> SFS_BLKSIZE * MAXBLKS" unfolding MAXBLKS_bytes by simp
  moreover have "cdiv (0 + length [104, 105 :: u8]) - nblk sin_example + 2 < card (fs_free sfs_example)" using example_room by (simp add: numeral_2_eq_2)
  ultimately show ?thesis using sfs_write_read [OF example_ok(1,2), of 0 "[104, 105]" "[0, 0]"] by (simp add: numeral_2_eq_2)
qed

end
