(* ===== verification/Vfs.thy ===== *)
theory Vfs
  imports Sfs_File Lib_Heap
begin

text \<open>
  The virtual file system: inodes and their reference counts (src/ucore_os/kern/fs/vfs/inode.c), device
  inodes (kern/fs/devs/dev.c), the inode operations and the mounting of the Simple File System
  (kern/fs/sfs/sfs_inode.c, sfs_fs.c), the table of devices (vfs/vfsdev.c), path lookup (vfs/vfslookup.c,
  vfspath.c, vfs.c) and \<open>vfs_open\<close> and \<open>vfs_close\<close> (vfs/vfsfile.c).

  Inodes and file systems are named by numbers; the tables map the allocated ones to their contents. The
  three tables of inode operations are the constructors of \<open>inode_ops\<close>, and a call through an entry that is
  NULL fails the assertion in \<open>__vop_op\<close>. Allocating an object that stays asks \<open>falloc\<close> for a number that is
  not in use; the outcomes of allocations that are freed again in the same call are the list \<open>ktmp\<close>.
  Messages printed with cprintf or warn are left out.
\<close>

section \<open>State\<close>

datatype inode_ops = Dev_node_ops | Sfs_node_dirops | Sfs_node_fileops
datatype in_info = Device_info device | Sfs_info sfs_inode

record inode =
  in_info :: in_info
  ref_count :: int
  open_count :: int
  in_fs :: "nat option"
  in_ops :: inode_ops

record vfs_dev =
  devname :: "u8 list"
  devnode :: "nat option"
  vdev_fs :: "nat option"
  mountable :: bool

datatype fd_status = FD_NONE | FD_INIT | FD_OPENED | FD_CLOSED

record file_desc =
  f_status :: fd_status
  f_readable :: bool
  f_writable :: bool
  f_fd :: int
  f_pos :: int
  f_node :: "nat option"
  f_open :: int

record files_struct =
  fs_pwd :: "nat option"
  fd_array :: "file_desc list"
  files_count :: int

text \<open>\<open>filesp\<close> is the field of that name of the current process.\<close>

record fsys = devs +
  inodes :: "nat \<Rightarrow> inode option"
  fss :: "nat \<Rightarrow> sfs_fs option"
  vdev_list :: "vfs_dev list"
  bootfs_node :: "nat option"
  ftab :: "nat \<Rightarrow> files_struct option"
  filesp :: "nat option"
  falloc :: "nat set \<Rightarrow> nat option"
  ktmp :: "bool list"

record stat =
  st_mode :: u32
  st_nlinks :: u32
  st_blocks :: u32
  st_size :: u32

definition S_IFMT :: u32 where "S_IFMT = 0x7000"
definition S_IFREG :: u32 where "S_IFREG = 0x1000"
definition S_IFDIR :: u32 where "S_IFDIR = 0x2000"
definition S_IFLNK :: u32 where "S_IFLNK = 0x3000"
definition S_IFCHR :: u32 where "S_IFCHR = 0x4000"
definition S_IFBLK :: u32 where "S_IFBLK = 0x5000"
definition S_ISDIR :: "u32 \<Rightarrow> bool" where "S_ISDIR mode \<longleftrightarrow> mode AND S_IFMT = S_IFDIR"

definition MAX_INODE_COUNT :: int where "MAX_INODE_COUNT = 0x10000"
definition FS_MAX_DNAME_LEN :: nat where "FS_MAX_DNAME_LEN = 31"
definition SFS_HLIST_SHIFT :: nat where "SFS_HLIST_SHIFT = 10"
definition SFS_HLIST_SIZE :: nat where "SFS_HLIST_SIZE = 1024"
definition sfs_dentry_size :: nat where "sfs_dentry_size = 256"

abbreviation kbytes :: "string \<Rightarrow> u8 list" where "kbytes str \<equiv> map of_char str"

text \<open>The string a byte array holds.\<close>

definition cstr :: "u8 list \<Rightarrow> u8 list" where "cstr bs = takeWhile (\<lambda>b. b \<noteq> 0) bs"

definition kmalloc_tmp :: "'a fsys_scheme \<Rightarrow> bool \<times> 'a fsys_scheme" where
  "kmalloc_tmp s = (case ktmp s of [] \<Rightarrow> (True, s) | b # bs \<Rightarrow> (b, s\<lparr>ktmp := bs\<rparr>))"

abbreviation upd_inode :: "nat \<Rightarrow> (inode \<Rightarrow> inode) \<Rightarrow> 'a fsys_scheme \<Rightarrow> 'a fsys_scheme" where
  "upd_inode k g s \<equiv> s\<lparr>inodes := (inodes s)(k := map_option g (inodes s k))\<rparr>"

section \<open>Inodes (inode.c)\<close>

definition alloc_inode :: "in_info \<Rightarrow> 'a fsys_scheme \<Rightarrow> (nat \<times> 'a fsys_scheme) option" where
  "alloc_inode info s = do {
     k \<leftarrow> falloc s (dom (inodes s));
     Some (k, s\<lparr>inodes := (inodes s)(k \<mapsto> \<lparr>in_info = info, ref_count = 0, open_count = 0, in_fs = None, in_ops = Dev_node_ops\<rparr>)\<rparr>)
   }"

definition inode_ref_inc :: "nat \<Rightarrow> 'a fsys_scheme \<Rightarrow> (int \<times> 'a fsys_scheme) option" where
  "inode_ref_inc k s = do {
     node \<leftarrow> inodes s k;
     Some (ref_count node + 1, upd_inode k (\<lambda>n. n\<lparr>ref_count := ref_count n + 1\<rparr>) s)
   }"

definition inode_init :: "nat \<Rightarrow> inode_ops \<Rightarrow> nat option \<Rightarrow> 'a fsys_scheme \<Rightarrow> 'a fsys_scheme option" where
  "inode_init k ops fs s = do {
     (_, s) \<leftarrow> inode_ref_inc k (upd_inode k (\<lambda>n. n\<lparr>ref_count := 0, open_count := 0, in_ops := ops, in_fs := fs\<rparr>) s);
     Some s
   }"

definition inode_kill :: "nat \<Rightarrow> 'a fsys_scheme \<Rightarrow> 'a fsys_scheme option" where
  "inode_kill k s = do {
     node \<leftarrow> inodes s k;
     kassert (ref_count node = 0);
     kassert (open_count node = 0);
     Some (s\<lparr>inodes := (inodes s)(k := None)\<rparr>)
   }"

definition inode_open_inc :: "nat \<Rightarrow> 'a fsys_scheme \<Rightarrow> (int \<times> 'a fsys_scheme) option" where
  "inode_open_inc k s = do {
     node \<leftarrow> inodes s k;
     Some (open_count node + 1, upd_inode k (\<lambda>n. n\<lparr>open_count := open_count n + 1\<rparr>) s)
   }"

text \<open>\<open>__vop_op\<close> up to the call: the node is there and passes \<open>inode_check\<close>.\<close>

definition inode_check :: "nat \<Rightarrow> 'a fsys_scheme \<Rightarrow> inode option" where
  "inode_check k s = do {
     node \<leftarrow> inodes s k;
     kassert (ref_count node \<ge> open_count node \<and> open_count node \<ge> 0);
     kassert (ref_count node < MAX_INODE_COUNT \<and> open_count node < MAX_INODE_COUNT);
     Some node
   }"

text \<open>\<open>vop_info\<close> for the two kinds of inode, with the file system of an SFS inode.\<close>

definition vop_device :: "nat \<Rightarrow> 'a fsys_scheme \<Rightarrow> device option" where
  "vop_device k s = do {
     node \<leftarrow> inodes s k;
     case in_info node of Device_info dev \<Rightarrow> Some dev | Sfs_info _ \<Rightarrow> None
   }"

definition vop_sfs :: "nat \<Rightarrow> 'a fsys_scheme \<Rightarrow> (nat \<times> sfs_fs \<times> sfs_inode) option" where
  "vop_sfs k s = do {
     node \<leftarrow> inodes s k;
     fs \<leftarrow> in_fs node;
     f \<leftarrow> fss s fs;
     case in_info node of Sfs_info sin \<Rightarrow> Some (fs, f, sin) | Device_info _ \<Rightarrow> None
   }"

definition put_sfs :: "nat \<Rightarrow> nat \<Rightarrow> sfs_fs \<Rightarrow> sfs_inode \<Rightarrow> 'a fsys_scheme \<Rightarrow> 'a fsys_scheme" where
  "put_sfs k fs f sin s = upd_inode k (\<lambda>n. n\<lparr>in_info := Sfs_info sin\<rparr>) s\<lparr>fss := (fss s)(fs \<mapsto> f)\<rparr>"

section \<open>SFS inode operations that release nothing (sfs_inode.c)\<close>

definition sfs_get_ops :: "u16 \<Rightarrow> inode_ops option" where
  "sfs_get_ops type = (if type = SFS_TYPE_DIR then Some Sfs_node_dirops else if type = SFS_TYPE_FILE then Some Sfs_node_fileops else panic)"

definition sfs_hash_list :: "u32 \<Rightarrow> nat" where
  "sfs_hash_list ino = unat (hash32 ino SFS_HLIST_SHIFT)"

definition sfs_set_links :: "nat \<Rightarrow> u32 \<Rightarrow> sfs_fs \<Rightarrow> sfs_fs" where
  "sfs_set_links k ino f = f\<lparr>sfs_inodes := k # sfs_inodes f, sfs_hash := (sfs_hash f)(sfs_hash_list ino := k # sfs_hash f (sfs_hash_list ino))\<rparr>"

definition sfs_remove_links :: "nat \<Rightarrow> u32 \<Rightarrow> sfs_fs \<Rightarrow> sfs_fs" where
  "sfs_remove_links k ino f = f\<lparr>sfs_inodes := remove1 k (sfs_inodes f), sfs_hash := (sfs_hash f)(sfs_hash_list ino := remove1 k (sfs_hash f (sfs_hash_list ino)))\<rparr>"

definition sfs_create_inode :: "nat \<Rightarrow> sfs_disk_inode \<Rightarrow> u32 \<Rightarrow> 'a fsys_scheme \<Rightarrow> (int \<times> nat option \<times> 'a fsys_scheme) option" where
  "sfs_create_inode fs din ino s =
     (case alloc_inode (Sfs_info \<lparr>sin_din = din, sin_ino = ino, sin_dirty = False, sin_reclaim = 1\<rparr>) s of
        None \<Rightarrow> Some (- E_NO_MEM, None, s)
      | Some (k, s) \<Rightarrow> do {
          ops \<leftarrow> sfs_get_ops (di_type din);
          s \<leftarrow> inode_init k ops (Some fs) s;
          Some (0, Some k, s)
        })"

fun lookup_loop :: "nat list \<Rightarrow> u32 \<Rightarrow> 'a fsys_scheme \<Rightarrow> (nat option \<times> 'a fsys_scheme) option" where
  "lookup_loop [] ino s = Some (None, s)"
| "lookup_loop (k # ks) ino s = do {
     (fs, f, sin) \<leftarrow> vop_sfs k s;
     if sin_ino sin = ino then do {
       (n, s) \<leftarrow> inode_ref_inc k s;
       Some (Some k, if n = 1 then put_sfs k fs f (sin\<lparr>sin_reclaim := sin_reclaim sin + 1\<rparr>) s else s)
     }
     else lookup_loop ks ino s
   }"

definition lookup_sfs_nolock :: "nat \<Rightarrow> u32 \<Rightarrow> 'a fsys_scheme \<Rightarrow> (nat option \<times> 'a fsys_scheme) option" where
  "lookup_sfs_nolock fs ino s = do {
     f \<leftarrow> fss s fs;
     lookup_loop (sfs_hash f (sfs_hash_list ino)) ino s
   }"

definition sfs_load_inode :: "nat \<Rightarrow> u32 \<Rightarrow> 'a fsys_scheme \<Rightarrow> (int \<times> nat option \<times> 'a fsys_scheme) option" where
  "sfs_load_inode fs ino s = do {
     (node, s) \<leftarrow> lookup_sfs_nolock fs ino s;
     if node \<noteq> None then Some (0, node, s)
     else (case kmalloc_tmp s of
         (False, s) \<Rightarrow> Some (- E_NO_MEM, None, s)
       | (True, s) \<Rightarrow> do {
           f \<leftarrow> fss s fs;
           inuse \<leftarrow> sfs_block_inuse f ino;
           kassert inuse;
           (ret, bs, f, s) \<leftarrow> sfs_rbuf f din_size ino 0 s;
           let s = s\<lparr>fss := (fss s)(fs \<mapsto> f)\<rparr>;
           if ret \<noteq> 0 then Some (ret, None, s)
           else do {
             let din = dec_din bs;
             kassert (di_nlinks din \<noteq> 0);
             (ret, node, s) \<leftarrow> sfs_create_inode fs din ino s;
             if ret \<noteq> 0 then Some (ret, None, s)
             else do {
               k \<leftarrow> node;
               Some (0, Some k, s\<lparr>fss := (fss s)(fs \<mapsto> sfs_set_links k ino f)\<rparr>)
             }
           }
         })
   }"

definition sfs_gettype :: "nat \<Rightarrow> 'a fsys_scheme \<Rightarrow> u32 option" where
  "sfs_gettype k s = do {
     (_, _, sin) \<leftarrow> vop_sfs k s;
     let type = di_type (sin_din sin);
     if type = SFS_TYPE_DIR then Some S_IFDIR else if type = SFS_TYPE_FILE then Some S_IFREG
     else if type = SFS_TYPE_LINK then Some S_IFLNK else panic
   }"

definition sfs_fsync :: "nat \<Rightarrow> 'a fsys_scheme \<Rightarrow> (int \<times> 'a fsys_scheme) option" where
  "sfs_fsync k s = do {
     (fs, f, sin) \<leftarrow> vop_sfs k s;
     if sin_dirty sin then do {
       (ret, f, s) \<leftarrow> sfs_wbuf f (enc_din (sin_din sin)) (sin_ino sin) 0 s;
       Some (ret, put_sfs k fs f (sin\<lparr>sin_dirty := (ret \<noteq> 0)\<rparr>) s)
     }
     else Some (0, s)
   }"

definition sfs_truncate_node :: "nat \<Rightarrow> int \<Rightarrow> 'a fsys_scheme \<Rightarrow> (int \<times> 'a fsys_scheme) option" where
  "sfs_truncate_node k len s = do {
     (fs, f, sin) \<leftarrow> vop_sfs k s;
     (ret, sin, f, s) \<leftarrow> sfs_truncfile f sin len s;
     Some (ret, put_sfs k fs f sin s)
   }"

definition sfs_opendir :: "u32 \<Rightarrow> int" where
  "sfs_opendir open_flags =
     (if open_flags AND O_ACCMODE \<noteq> O_RDONLY then - E_ISDIR else if open_flags AND O_APPEND \<noteq> 0 then - E_ISDIR else 0)"

definition sfs_openfile :: "u32 \<Rightarrow> int" where "sfs_openfile open_flags = 0"

definition sfs_fstat :: "nat \<Rightarrow> 'a fsys_scheme \<Rightarrow> (int \<times> stat) option" where
  "sfs_fstat k s = do {
     _ \<leftarrow> inode_check k s;
     mode \<leftarrow> sfs_gettype k s;
     (_, _, sin) \<leftarrow> vop_sfs k s;
     let din = sin_din sin;
     Some (0, \<lparr>st_mode = mode, st_nlinks = ucast (di_nlinks din), st_blocks = di_blocks din, st_size = di_size din\<rparr>)
   }"

definition sfs_io :: "nat \<Rightarrow> iobuf \<Rightarrow> bool \<Rightarrow> 'a fsys_scheme \<Rightarrow> (int \<times> iobuf \<times> 'a fsys_scheme) option" where
  "sfs_io k iob wr s = do {
     (fs, f, sin) \<leftarrow> vop_sfs k s;
     (ret, alen, buf, sin, f, s) \<leftarrow> sfs_io_nolock wr f sin (drop (io_base iob) (io_buf iob)) (io_offset iob) (io_resid iob) s;
     let iob = iob\<lparr>io_buf := take (io_base iob) (io_buf iob) @ buf\<rparr>;
     iob \<leftarrow> (if alen \<noteq> 0 then iobuf_skip iob alen else Some iob);
     Some (ret, iob, put_sfs k fs f sin s)
   }"

definition sfs_read :: "nat \<Rightarrow> iobuf \<Rightarrow> 'a fsys_scheme \<Rightarrow> (int \<times> iobuf \<times> 'a fsys_scheme) option" where "sfs_read k iob s = sfs_io k iob False s"
definition sfs_write :: "nat \<Rightarrow> iobuf \<Rightarrow> 'a fsys_scheme \<Rightarrow> (int \<times> iobuf \<times> 'a fsys_scheme) option" where "sfs_write k iob s = sfs_io k iob True s"

section \<open>Directories (sfs_inode.c)\<close>

definition sfs_dirent_read_nolock :: "sfs_fs \<Rightarrow> sfs_inode \<Rightarrow> nat \<Rightarrow> 'a fsys_scheme \<Rightarrow> (int \<times> sfs_disk_entry \<times> sfs_inode \<times> sfs_fs \<times> 'a fsys_scheme) option" where
  "sfs_dirent_read_nolock f sin slot s = do {
     kassert (di_type (sin_din sin) = SFS_TYPE_DIR \<and> slot < unat (di_blocks (sin_din sin)));
     (ret, ino, sin, f, s) \<leftarrow> sfs_bmap_load_nolock f sin slot s;
     if ret \<noteq> 0 then Some (ret, \<lparr>de_ino = 0, de_name = []\<rparr>, sin, f, s)
     else do {
       inuse \<leftarrow> sfs_block_inuse f ino;
       kassert inuse;
       (ret, bs, f, s) \<leftarrow> sfs_rbuf f entry_size ino 0 s;
       if ret \<noteq> 0 then Some (ret, \<lparr>de_ino = 0, de_name = []\<rparr>, sin, f, s)
       else (let e = dec_entry bs in Some (0, e\<lparr>de_name := (de_name e)[SFS_MAX_FNAME_LEN := 0]\<rparr>, sin, f, s))
     }
   }"

text \<open>
  The loop of \<open>sfs_dirent_search_nolock\<close>; the result is the return value, \<open>*ino_store\<close>, \<open>*slot\<close> and \<open>*empty_slot\<close>.
\<close>

function search_loop :: "nat \<Rightarrow> nat \<Rightarrow> u8 list \<Rightarrow> nat \<Rightarrow> sfs_fs \<Rightarrow> sfs_inode \<Rightarrow> 'a fsys_scheme \<Rightarrow>
    (int \<times> u32 \<times> nat \<times> nat \<times> sfs_inode \<times> sfs_fs \<times> 'a fsys_scheme) option" where
  "search_loop i nslots name eslot f sin s =
     (if i < nslots then do {
        (ret, e, sin, f, s) \<leftarrow> sfs_dirent_read_nolock f sin i s;
        if ret \<noteq> 0 then Some (ret, 0, 0, eslot, sin, f, s)
        else if de_ino e = 0 then search_loop (i + 1) nslots name i f sin s
        else if name = cstr (de_name e) then Some (0, de_ino e, i, eslot, sin, f, s)
        else search_loop (i + 1) nslots name eslot f sin s
      }
      else Some (- E_NOENT, 0, 0, eslot, sin, f, s))"
  by auto
termination by (relation "measure (\<lambda>(i, nslots, _). nslots - i)") auto

declare search_loop.simps [simp del]

definition sfs_dirent_search_nolock :: "sfs_fs \<Rightarrow> sfs_inode \<Rightarrow> u8 list \<Rightarrow> 'a fsys_scheme \<Rightarrow>
    (int \<times> u32 \<times> nat \<times> nat \<times> sfs_inode \<times> sfs_fs \<times> 'a fsys_scheme) option" where
  "sfs_dirent_search_nolock f sin name s = do {
     kassert (length name \<le> SFS_MAX_FNAME_LEN);
     case kmalloc_tmp s of
       (False, s) \<Rightarrow> Some (- E_NO_MEM, 0, 0, 0, sin, f, s)
     | (True, s) \<Rightarrow> (let nslots = unat (di_blocks (sin_din sin)) in search_loop 0 nslots name nslots f sin s)
   }"

function findino_loop :: "nat \<Rightarrow> nat \<Rightarrow> u32 \<Rightarrow> sfs_fs \<Rightarrow> sfs_inode \<Rightarrow> 'a fsys_scheme \<Rightarrow> (int \<times> sfs_disk_entry \<times> sfs_inode \<times> sfs_fs \<times> 'a fsys_scheme) option" where
  "findino_loop i nslots ino f sin s =
     (if i < nslots then do {
        (ret, e, sin, f, s) \<leftarrow> sfs_dirent_read_nolock f sin i s;
        if ret \<noteq> 0 \<or> de_ino e = ino then Some (ret, e, sin, f, s) else findino_loop (i + 1) nslots ino f sin s
      }
      else Some (- E_NOENT, \<lparr>de_ino = 0, de_name = []\<rparr>, sin, f, s))"
  by auto
termination by (relation "measure (\<lambda>(i, nslots, _). nslots - i)") auto

declare findino_loop.simps [simp del]

definition sfs_dirent_findino_nolock :: "sfs_fs \<Rightarrow> sfs_inode \<Rightarrow> u32 \<Rightarrow> 'a fsys_scheme \<Rightarrow> (int \<times> sfs_disk_entry \<times> sfs_inode \<times> sfs_fs \<times> 'a fsys_scheme) option" where
  "sfs_dirent_findino_nolock f sin ino s = findino_loop 0 (unat (di_blocks (sin_din sin))) ino f sin s"

text \<open>\<open>sfs_lookup_once\<close>, given the directory's inode.\<close>

definition sfs_lookup_once :: "nat \<Rightarrow> u8 list \<Rightarrow> 'a fsys_scheme \<Rightarrow> (int \<times> nat option \<times> 'a fsys_scheme) option" where
  "sfs_lookup_once k name s = do {
     (fs, f, sin) \<leftarrow> vop_sfs k s;
     (ret, ino, _, _, sin, f, s) \<leftarrow> sfs_dirent_search_nolock f sin name s;
     let s = put_sfs k fs f sin s;
     if ret = 0 then sfs_load_inode fs ino s else Some (ret, None, s)
   }"

function getdirentry_loop :: "nat \<Rightarrow> nat \<Rightarrow> nat \<Rightarrow> sfs_fs \<Rightarrow> sfs_inode \<Rightarrow> 'a fsys_scheme \<Rightarrow> (int \<times> sfs_disk_entry \<times> sfs_inode \<times> sfs_fs \<times> 'a fsys_scheme) option" where
  "getdirentry_loop i nslots slot f sin s =
     (if i < nslots then do {
        (ret, e, sin, f, s) \<leftarrow> sfs_dirent_read_nolock f sin i s;
        if ret \<noteq> 0 then Some (ret, e, sin, f, s)
        else if de_ino e \<noteq> 0 then if slot = 0 then Some (0, e, sin, f, s) else getdirentry_loop (i + 1) nslots (slot - 1) f sin s
        else getdirentry_loop (i + 1) nslots slot f sin s
      }
      else Some (- E_NOENT, \<lparr>de_ino = 0, de_name = []\<rparr>, sin, f, s))"
  by auto
termination by (relation "measure (\<lambda>(i, nslots, _). nslots - i)") auto

declare getdirentry_loop.simps [simp del]

definition sfs_getdirentry_sub_nolock :: "sfs_fs \<Rightarrow> sfs_inode \<Rightarrow> nat \<Rightarrow> 'a fsys_scheme \<Rightarrow> (int \<times> sfs_disk_entry \<times> sfs_inode \<times> sfs_fs \<times> 'a fsys_scheme) option" where
  "sfs_getdirentry_sub_nolock f sin slot s = getdirentry_loop 0 (unat (di_blocks (sin_din sin))) slot f sin s"

definition sfs_getdirentry :: "nat \<Rightarrow> iobuf \<Rightarrow> 'a fsys_scheme \<Rightarrow> (int \<times> iobuf \<times> 'a fsys_scheme) option" where
  "sfs_getdirentry k iob s =
     (case kmalloc_tmp s of
        (False, s) \<Rightarrow> Some (- E_NO_MEM, iob, s)
      | (True, s) \<Rightarrow> do {
          (fs, f, sin) \<leftarrow> vop_sfs k s;
          let offset = io_offset iob;
          if offset < 0 \<or> offset mod int sfs_dentry_size \<noteq> 0 then Some (- E_INVAL, iob, s)
          else do {
            let slot = nat (offset div int sfs_dentry_size);
            if slot > unat (di_blocks (sin_din sin)) then Some (- E_NOENT, iob, s)
            else do {
              (ret, e, sin, f, s) \<leftarrow> sfs_getdirentry_sub_nolock f sin slot s;
              let s = put_sfs k fs f sin s;
              if ret \<noteq> 0 then Some (ret, iob, s)
              else do {
                (ret, _, iob, _) \<leftarrow> iobuf_move iob (de_name e) sfs_dentry_size True;
                Some (ret, iob, s)
              }
            }
          }
        })"

section \<open>Releasing inodes\<close>

text \<open>\<open>vop_truncate\<close> and \<open>vop_fsync\<close>: only SFS inodes have the latter, only SFS files the former.\<close>

definition vop_truncate :: "nat \<Rightarrow> int \<Rightarrow> 'a fsys_scheme \<Rightarrow> (int \<times> 'a fsys_scheme) option" where
  "vop_truncate k len s = do {
     node \<leftarrow> inode_check k s;
     case in_ops node of Sfs_node_fileops \<Rightarrow> sfs_truncate_node k len s | _ \<Rightarrow> panic
   }"

definition vop_fsync :: "nat \<Rightarrow> 'a fsys_scheme \<Rightarrow> (int \<times> 'a fsys_scheme) option" where
  "vop_fsync k s = do {
     node \<leftarrow> inode_check k s;
     case in_ops node of Dev_node_ops \<Rightarrow> panic | _ \<Rightarrow> sfs_fsync k s
   }"

definition sfs_reclaim :: "nat \<Rightarrow> 'a fsys_scheme \<Rightarrow> (int \<times> 'a fsys_scheme) option" where
  "sfs_reclaim k s = do {
     node \<leftarrow> inodes s k;
     (fs, f, sin) \<leftarrow> vop_sfs k s;
     kassert (sin_reclaim sin > 0);
     let sin = sin\<lparr>sin_reclaim := sin_reclaim sin - 1\<rparr>;
     let s = put_sfs k fs f sin s;
     if sin_reclaim sin \<noteq> 0 \<or> ref_count node \<noteq> 0 then Some (- E_BUSY, s)
     else do {
       (ret, s) \<leftarrow> (if di_nlinks (sin_din sin) = 0 then vop_truncate k 0 s else Some (0, s));
       if ret \<noteq> 0 then Some (ret, s)
       else do {
         (_, _, sin) \<leftarrow> vop_sfs k s;
         (ret, s) \<leftarrow> (if sin_dirty sin then vop_fsync k s else Some (0, s));
         if ret \<noteq> 0 then Some (ret, s)
         else do {
           (_, f, sin) \<leftarrow> vop_sfs k s;
           let f = sfs_remove_links k (sin_ino sin) f;
           f \<leftarrow> (if di_nlinks (sin_din sin) = 0 then do {
                  f \<leftarrow> sfs_block_free f (sin_ino sin);
                  if di_indirect (sin_din sin) \<noteq> 0 then sfs_block_free f (di_indirect (sin_din sin)) else Some f
                }
                else Some f);
           s \<leftarrow> inode_kill k (s\<lparr>fss := (fss s)(fs \<mapsto> f)\<rparr>);
           Some (0, s)
         }
       }
     }
   }"

text \<open>Devices have no \<open>vop_reclaim\<close>.\<close>

definition vop_reclaim :: "nat \<Rightarrow> 'a fsys_scheme \<Rightarrow> (int \<times> 'a fsys_scheme) option" where
  "vop_reclaim k s = do {
     node \<leftarrow> inode_check k s;
     case in_ops node of Dev_node_ops \<Rightarrow> panic | _ \<Rightarrow> sfs_reclaim k s
   }"

definition inode_ref_dec :: "nat \<Rightarrow> 'a fsys_scheme \<Rightarrow> (int \<times> 'a fsys_scheme) option" where
  "inode_ref_dec k s = do {
     node \<leftarrow> inodes s k;
     kassert (ref_count node > 0);
     let s = upd_inode k (\<lambda>n. n\<lparr>ref_count := ref_count n - 1\<rparr>) s;
     if ref_count node - 1 = 0 then do { (_, s) \<leftarrow> vop_reclaim k s; Some (0, s) }
     else Some (ref_count node - 1, s)
   }"

definition sfs_close :: "nat \<Rightarrow> 'a fsys_scheme \<Rightarrow> (int \<times> 'a fsys_scheme) option" where
  "sfs_close k s = vop_fsync k s"

definition dev_close :: "nat \<Rightarrow> 'a fsys_scheme \<Rightarrow> int option" where
  "dev_close k s = do { dev \<leftarrow> vop_device k s; Some (dop_close dev) }"

definition vop_close :: "nat \<Rightarrow> 'a fsys_scheme \<Rightarrow> (int \<times> 'a fsys_scheme) option" where
  "vop_close k s = do {
     node \<leftarrow> inode_check k s;
     case in_ops node of Dev_node_ops \<Rightarrow> do { ret \<leftarrow> dev_close k s; Some (ret, s) } | _ \<Rightarrow> sfs_close k s
   }"

definition inode_open_dec :: "nat \<Rightarrow> 'a fsys_scheme \<Rightarrow> (int \<times> 'a fsys_scheme) option" where
  "inode_open_dec k s = do {
     node \<leftarrow> inodes s k;
     kassert (open_count node > 0);
     let s = upd_inode k (\<lambda>n. n\<lparr>open_count := open_count n - 1\<rparr>) s;
     if open_count node - 1 = 0 then do { (_, s) \<leftarrow> vop_close k s; Some (0, s) }
     else Some (open_count node - 1, s)
   }"

section \<open>SFS operations that release inodes (sfs_inode.c)\<close>

definition sfs_lookup :: "nat \<Rightarrow> u8 list \<Rightarrow> 'a fsys_scheme \<Rightarrow> (int \<times> nat option \<times> 'a fsys_scheme) option" where
  "sfs_lookup k path s = do {
     kassert (path \<noteq> [] \<and> hd path \<noteq> 47);
     (_, s) \<leftarrow> inode_ref_inc k s;
     (_, _, sin) \<leftarrow> vop_sfs k s;
     if di_type (sin_din sin) \<noteq> SFS_TYPE_DIR then do { (_, s) \<leftarrow> inode_ref_dec k s; Some (- E_NOTDIR, None, s) }
     else do {
       (ret, sub, s) \<leftarrow> sfs_lookup_once k path s;
       (_, s) \<leftarrow> inode_ref_dec k s;
       if ret \<noteq> 0 then Some (ret, None, s) else Some (0, sub, s)
     }
   }"

text \<open>
  The loop of \<open>sfs_namefile\<close>: \<open>ptr\<close> is the position in the buffer where the path built so far starts. The
  result is the return value, the buffer, \<open>ptr\<close> and \<open>resid\<close>.
\<close>

partial_function (option) namefile_loop :: "nat \<Rightarrow> u8 list \<Rightarrow> nat \<Rightarrow> nat \<Rightarrow> 'a fsys_scheme \<Rightarrow> (int \<times> u8 list \<times> nat \<times> nat \<times> 'a fsys_scheme) option" where
  "namefile_loop k buf ptr resid s = do {
     (_, _, sin) \<leftarrow> vop_sfs k s;
     (ret, parent, s) \<leftarrow> sfs_lookup_once k [46, 46] s;
     if ret \<noteq> 0 then do { (_, s) \<leftarrow> inode_ref_dec k s; Some (ret, buf, ptr, resid, s) }
     else do {
       let ino = sin_ino sin;
       (_, s) \<leftarrow> inode_ref_dec k s;
       p \<leftarrow> parent;
       if k = p then do { (_, s) \<leftarrow> inode_ref_dec k s; Some (0, buf, ptr, resid, s) }
       else do {
         (fs, f, sin) \<leftarrow> vop_sfs p s;
         kassert (ino \<noteq> sin_ino sin \<and> di_type (sin_din sin) = SFS_TYPE_DIR);
         (ret, e, sin, f, s) \<leftarrow> sfs_dirent_findino_nolock f sin ino s;
         let s = put_sfs p fs f sin s;
         let name = cstr (de_name e);
         let alen = length name + 1;
         if ret \<noteq> 0 then do { (_, s) \<leftarrow> inode_ref_dec p s; Some (ret, buf, ptr, resid, s) }
         else if alen > resid then do { (_, s) \<leftarrow> inode_ref_dec p s; Some (- E_NO_MEM, buf, ptr, resid, s) }
         else namefile_loop p (overlay buf (ptr - alen) (name @ [47])) (ptr - alen) (resid - alen) s
       }
     }
   }"

definition sfs_namefile :: "nat \<Rightarrow> iobuf \<Rightarrow> 'a fsys_scheme \<Rightarrow> (int \<times> iobuf \<times> 'a fsys_scheme) option" where
  "sfs_namefile k iob s =
     (if io_resid iob \<le> 2 then Some (- E_NO_MEM, iob, s)
      else (case kmalloc_tmp s of
          (False, s) \<Rightarrow> Some (- E_NO_MEM, iob, s)
        | (True, s) \<Rightarrow> do {
            (_, s) \<leftarrow> inode_ref_inc k s;
            (ret, buf, ptr, resid, s) \<leftarrow> namefile_loop k (io_buf iob) (io_base iob + io_resid iob) (io_resid iob - 2) s;
            if ret \<noteq> 0 then Some (ret, iob\<lparr>io_buf := buf\<rparr>, s)
            else do {
              let alen = io_resid iob - resid - 2;
              let base = io_base iob;
              let buf = overlay (overlay (overlay buf (base + 1) (take alen (drop ptr buf))) base [47]) (base + 1 + alen) [0];
              iob \<leftarrow> iobuf_skip (iob\<lparr>io_buf := buf\<rparr>) alen;
              Some (0, iob, s)
            }
          }))"

definition sfs_tryseek :: "nat \<Rightarrow> int \<Rightarrow> 'a fsys_scheme \<Rightarrow> (int \<times> 'a fsys_scheme) option" where
  "sfs_tryseek k pos s =
     (if pos < 0 \<or> pos \<ge> int SFS_MAX_FILE_SIZE then Some (- E_INVAL, s)
      else do {
        (_, _, sin) \<leftarrow> vop_sfs k s;
        if pos > uint (di_size (sin_din sin)) then vop_truncate k pos s else Some (0, s)
      })"

section \<open>Device inodes (dev.c)\<close>

definition dev_open :: "nat \<Rightarrow> u32 \<Rightarrow> 'a fsys_scheme \<Rightarrow> int option" where
  "dev_open k open_flags s =
     (if open_flags AND (O_CREAT OR O_TRUNC OR O_EXCL OR O_APPEND) \<noteq> 0 then Some (- E_INVAL)
      else do { dev \<leftarrow> vop_device k s; Some (dop_open dev open_flags) })"

definition dev_read :: "nat \<Rightarrow> iobuf \<Rightarrow> 'a fsys_scheme \<Rightarrow> (int \<times> iobuf \<times> 'a fsys_scheme) option" where
  "dev_read k iob s = do { dev \<leftarrow> vop_device k s; dop_io dev iob False s }"

definition dev_write :: "nat \<Rightarrow> iobuf \<Rightarrow> 'a fsys_scheme \<Rightarrow> (int \<times> iobuf \<times> 'a fsys_scheme) option" where
  "dev_write k iob s = do { dev \<leftarrow> vop_device k s; dop_io dev iob True s }"

definition dev_ioctl :: "nat \<Rightarrow> 'a fsys_scheme \<Rightarrow> int option" where
  "dev_ioctl k s = do { dev \<leftarrow> vop_device k s; Some (dop_ioctl dev) }"

definition dev_gettype :: "nat \<Rightarrow> 'a fsys_scheme \<Rightarrow> u32 option" where
  "dev_gettype k s = do { dev \<leftarrow> vop_device k s; Some (if d_blocks dev > 0 then S_IFBLK else S_IFCHR) }"

definition dev_fstat :: "nat \<Rightarrow> 'a fsys_scheme \<Rightarrow> (int \<times> stat) option" where
  "dev_fstat k s = do {
     _ \<leftarrow> inode_check k s;
     mode \<leftarrow> dev_gettype k s;
     dev \<leftarrow> vop_device k s;
     Some (0, \<lparr>st_mode = mode, st_nlinks = 1, st_blocks = d_blocks dev, st_size = d_blocks dev * d_blocksize dev\<rparr>)
   }"

definition dev_tryseek :: "nat \<Rightarrow> int \<Rightarrow> 'a fsys_scheme \<Rightarrow> int option" where
  "dev_tryseek k pos s = do {
     dev \<leftarrow> vop_device k s;
     Some (if d_blocks dev > 0 \<and> (word_of_int pos :: u32) mod d_blocksize dev = 0 \<and> pos \<ge> 0 \<and> word_of_int pos < d_blocks dev * d_blocksize dev
           then 0 else - E_INVAL)
   }"

definition dev_lookup :: "nat \<Rightarrow> u8 list \<Rightarrow> 'a fsys_scheme \<Rightarrow> (int \<times> nat option \<times> 'a fsys_scheme) option" where
  "dev_lookup k path s =
     (if path \<noteq> [] then Some (- E_NOENT, None, s) else do { (_, s) \<leftarrow> inode_ref_inc k s; Some (0, Some k, s) })"

definition dev_create_inode :: "device \<Rightarrow> 'a fsys_scheme \<Rightarrow> (nat option \<times> 'a fsys_scheme) option" where
  "dev_create_inode dev s =
     (case alloc_inode (Device_info dev) s of
        None \<Rightarrow> Some (None, s)
      | Some (k, s) \<Rightarrow> do { s \<leftarrow> inode_init k Dev_node_ops None s; Some (Some k, s) })"

section \<open>The other inode operations\<close>

definition vop_open :: "nat \<Rightarrow> u32 \<Rightarrow> 'a fsys_scheme \<Rightarrow> int option" where
  "vop_open k open_flags s = do {
     node \<leftarrow> inode_check k s;
     case in_ops node of
       Dev_node_ops \<Rightarrow> dev_open k open_flags s
     | Sfs_node_dirops \<Rightarrow> Some (sfs_opendir open_flags)
     | Sfs_node_fileops \<Rightarrow> Some (sfs_openfile open_flags)
   }"

definition vop_read :: "nat \<Rightarrow> iobuf \<Rightarrow> 'a fsys_scheme \<Rightarrow> (int \<times> iobuf \<times> 'a fsys_scheme) option" where
  "vop_read k iob s = do {
     node \<leftarrow> inode_check k s;
     case in_ops node of Dev_node_ops \<Rightarrow> dev_read k iob s | Sfs_node_dirops \<Rightarrow> panic | Sfs_node_fileops \<Rightarrow> sfs_read k iob s
   }"

definition vop_write :: "nat \<Rightarrow> iobuf \<Rightarrow> 'a fsys_scheme \<Rightarrow> (int \<times> iobuf \<times> 'a fsys_scheme) option" where
  "vop_write k iob s = do {
     node \<leftarrow> inode_check k s;
     case in_ops node of Dev_node_ops \<Rightarrow> dev_write k iob s | Sfs_node_dirops \<Rightarrow> panic | Sfs_node_fileops \<Rightarrow> sfs_write k iob s
   }"

definition vop_fstat :: "nat \<Rightarrow> 'a fsys_scheme \<Rightarrow> (int \<times> stat) option" where
  "vop_fstat k s = do {
     node \<leftarrow> inode_check k s;
     case in_ops node of Dev_node_ops \<Rightarrow> dev_fstat k s | _ \<Rightarrow> sfs_fstat k s
   }"

definition vop_namefile :: "nat \<Rightarrow> iobuf \<Rightarrow> 'a fsys_scheme \<Rightarrow> (int \<times> iobuf \<times> 'a fsys_scheme) option" where
  "vop_namefile k iob s = do {
     node \<leftarrow> inode_check k s;
     case in_ops node of Sfs_node_dirops \<Rightarrow> sfs_namefile k iob s | _ \<Rightarrow> panic
   }"

definition vop_getdirentry :: "nat \<Rightarrow> iobuf \<Rightarrow> 'a fsys_scheme \<Rightarrow> (int \<times> iobuf \<times> 'a fsys_scheme) option" where
  "vop_getdirentry k iob s = do {
     node \<leftarrow> inode_check k s;
     case in_ops node of Sfs_node_dirops \<Rightarrow> sfs_getdirentry k iob s | _ \<Rightarrow> panic
   }"

definition vop_gettype :: "nat \<Rightarrow> 'a fsys_scheme \<Rightarrow> u32 option" where
  "vop_gettype k s = do {
     node \<leftarrow> inode_check k s;
     case in_ops node of Dev_node_ops \<Rightarrow> dev_gettype k s | _ \<Rightarrow> sfs_gettype k s
   }"

definition vop_tryseek :: "nat \<Rightarrow> int \<Rightarrow> 'a fsys_scheme \<Rightarrow> (int \<times> 'a fsys_scheme) option" where
  "vop_tryseek k pos s = do {
     node \<leftarrow> inode_check k s;
     case in_ops node of
       Dev_node_ops \<Rightarrow> do { ret \<leftarrow> dev_tryseek k pos s; Some (ret, s) }
     | Sfs_node_dirops \<Rightarrow> panic
     | Sfs_node_fileops \<Rightarrow> sfs_tryseek k pos s
   }"

definition vop_lookup :: "nat \<Rightarrow> u8 list \<Rightarrow> 'a fsys_scheme \<Rightarrow> (int \<times> nat option \<times> 'a fsys_scheme) option" where
  "vop_lookup k path s = do {
     node \<leftarrow> inode_check k s;
     case in_ops node of Dev_node_ops \<Rightarrow> dev_lookup k path s | Sfs_node_dirops \<Rightarrow> sfs_lookup k path s | Sfs_node_fileops \<Rightarrow> panic
   }"

text \<open>No table has an entry for \<open>vop_create\<close>.\<close>

definition vop_create :: "nat \<Rightarrow> u8 list \<Rightarrow> bool \<Rightarrow> 'a fsys_scheme \<Rightarrow> (int \<times> nat option \<times> 'a fsys_scheme) option" where
  "vop_create k name excl s = panic"

section \<open>Mounted file systems (sfs_fs.c)\<close>

fun sync_loop :: "nat list \<Rightarrow> 'a fsys_scheme \<Rightarrow> 'a fsys_scheme option" where
  "sync_loop [] s = Some s"
| "sync_loop (k # ks) s = do { (_, s) \<leftarrow> vop_fsync k s; sync_loop ks s }"

definition sfs_sync :: "nat \<Rightarrow> 'a fsys_scheme \<Rightarrow> (int \<times> 'a fsys_scheme) option" where
  "sfs_sync fs s = do {
     f \<leftarrow> fss s fs;
     s \<leftarrow> sync_loop (sfs_inodes f) s;
     f \<leftarrow> fss s fs;
     if sfs_super_dirty f then do {
       (ret, f, s) \<leftarrow> sfs_sync_super (f\<lparr>sfs_super_dirty := False\<rparr>) s;
       if ret \<noteq> 0 then Some (ret, s\<lparr>fss := (fss s)(fs \<mapsto> f\<lparr>sfs_super_dirty := True\<rparr>)\<rparr>)
       else do {
         (ret, s) \<leftarrow> sfs_sync_freemap f s;
         Some (ret, s\<lparr>fss := (fss s)(fs \<mapsto> f\<lparr>sfs_super_dirty := (ret \<noteq> 0)\<rparr>)\<rparr>)
       }
     }
     else Some (0, s)
   }"

definition sfs_get_root :: "nat \<Rightarrow> 'a fsys_scheme \<Rightarrow> (nat \<times> 'a fsys_scheme) option" where
  "sfs_get_root fs s = do {
     (ret, node, s) \<leftarrow> sfs_load_inode fs SFS_BLKN_ROOT s;
     kassert (ret = 0);
     k \<leftarrow> node;
     Some (k, s)
   }"

definition sfs_unmount :: "nat \<Rightarrow> 'a fsys_scheme \<Rightarrow> (int \<times> 'a fsys_scheme) option" where
  "sfs_unmount fs s = do {
     f \<leftarrow> fss s fs;
     if sfs_inodes f \<noteq> [] then Some (- E_BUSY, s)
     else do {
       kassert (\<not> sfs_super_dirty f);
       Some (0, s\<lparr>fss := (fss s)(fs := None)\<rparr>)
     }
   }"

fun cleanup_loop :: "nat \<Rightarrow> nat \<Rightarrow> 'a fsys_scheme \<Rightarrow> 'a fsys_scheme option" where
  "cleanup_loop 0 fs s = Some s"
| "cleanup_loop (Suc i) fs s = do {
     (ret, s) \<leftarrow> sfs_sync fs s;
     if ret = 0 then Some s else cleanup_loop i fs s
   }"

definition sfs_cleanup :: "nat \<Rightarrow> 'a fsys_scheme \<Rightarrow> 'a fsys_scheme option" where
  "sfs_cleanup fs s = cleanup_loop 32 fs s"

definition sfs_init_read :: "device \<Rightarrow> u32 \<Rightarrow> u8 list \<Rightarrow> 'a devs_scheme \<Rightarrow> (int \<times> u8 list \<times> 'a devs_scheme) option" where
  "sfs_init_read dev blkno buf s = do {
     let iob = iobuf_init buf 0 SFS_BLKSIZE (sint (blkno * word_of_nat SFS_BLKSIZE));
     (ret, iob, s) \<leftarrow> dop_io dev iob False s;
     Some (ret, io_buf iob, s)
   }"

text \<open>The loop of \<open>sfs_init_freemap\<close>, which reads the blocks one after the other into the array of the bitmap.\<close>

fun init_freemap_loop :: "device \<Rightarrow> u8 list \<Rightarrow> u8 list \<Rightarrow> u32 \<Rightarrow> nat \<Rightarrow> 'a devs_scheme \<Rightarrow> (int \<times> u8 list \<times> 'a devs_scheme) option" where
  "init_freemap_loop dev done_part data blkno 0 s = Some (0, done_part @ data, s)"
| "init_freemap_loop dev done_part data blkno (Suc nblks) s = do {
     (ret, data, s) \<leftarrow> sfs_init_read dev blkno data s;
     if ret \<noteq> 0 then Some (ret, done_part @ data, s)
     else init_freemap_loop dev (done_part @ take SFS_BLKSIZE data) (drop SFS_BLKSIZE data) (blkno + 1) nblks s
   }"

definition sfs_init_freemap :: "device \<Rightarrow> bitmap \<Rightarrow> u32 \<Rightarrow> u32 \<Rightarrow> 'a devs_scheme \<Rightarrow> (int \<times> bitmap \<times> 'a devs_scheme) option" where
  "sfs_init_freemap dev freemap blkno nblks s = do {
     let (data, len) = bitmap_getdata freemap;
     kassert (len = unat (nblks * word_of_nat SFS_BLKSIZE));
     (ret, bs, s) \<leftarrow> init_freemap_loop dev [] (concat (map le32 data)) blkno (unat nblks) s;
     Some (ret, freemap\<lparr>bm_map := map (words_of bs) [0..<nwords freemap]\<rparr>, s)
   }"

fun count_unused :: "bitmap \<Rightarrow> nat \<Rightarrow> nat option" where
  "count_unused bm 0 = Some 0"
| "count_unused bm (Suc n) = do { k \<leftarrow> count_unused bm n; t \<leftarrow> bitmap_test bm n; Some (if t then k + 1 else k) }"

text \<open>
  \<open>sfs_do_mount\<close>. The allocations are, in this order, the file system, the buffer, the hash table and the two
  of \<open>bitmap_create\<close>; a failure frees what was allocated before.
\<close>

definition sfs_do_mount :: "device \<Rightarrow> 'a fsys_scheme \<Rightarrow> (int \<times> nat option \<times> 'a fsys_scheme) option" where
  "sfs_do_mount dev s =
     (if d_blocksize dev \<noteq> word_of_nat SFS_BLKSIZE then Some (- E_NA_DEV, None, s)
      else (case falloc s (dom (fss s)) of
          None \<Rightarrow> Some (- E_NO_MEM, None, s)
        | Some fs \<Rightarrow> (case kmalloc_tmp s of
              (False, s) \<Rightarrow> Some (- E_NO_MEM, None, s)
            | (True, s) \<Rightarrow> do {
                (ret, buf, s) \<leftarrow> sfs_init_read dev SFS_BLKN_SUPER (replicate SFS_BLKSIZE 0) s;
                let sb = dec_super buf;
                if ret \<noteq> 0 then Some (ret, None, s)
                else if sb_magic sb \<noteq> SFS_MAGIC \<or> sb_blocks sb > d_blocks dev then Some (- E_INVAL, None, s)
                else do {
                  let sb = sb\<lparr>sb_info := (sb_info sb)[SFS_MAX_INFO_LEN := 0]\<rparr>;
                  case kmalloc_tmp s of
                    (False, s) \<Rightarrow> Some (- E_NO_MEM, None, s)
                  | (True, s) \<Rightarrow> do {
                      let (ok, s) = kmalloc_tmp s;
                      bm \<leftarrow> bitmap_create (\<lambda>_. ok) (sfs_freemap_bits sb);
                      case bm of
                        None \<Rightarrow> Some (- E_NO_MEM, None, s)
                      | Some bm \<Rightarrow> do {
                          (ret, bm, s) \<leftarrow> sfs_init_freemap dev bm SFS_BLKN_FREEMAP (sfs_freemap_blocks sb) s;
                          if ret \<noteq> 0 then Some (ret, None, s)
                          else do {
                            unused \<leftarrow> count_unused bm (unat (sfs_freemap_bits sb));
                            kassert (unused = unat (sb_unused sb));
                            Some (0, Some fs, s\<lparr>fss := (fss s)(fs \<mapsto> \<lparr>sfs_sb = sb, sfs_dev = dev, sfs_freemap = bm, sfs_super_dirty = False,
                              sfs_buffer = buf[12 + SFS_MAX_INFO_LEN := 0], sfs_inodes = [], sfs_hash = \<lambda>_. []\<rparr>)\<rparr>)
                          }
                        }
                    }
                }
              })))"

section \<open>The table of devices (vfsdev.c)\<close>

definition vfs_devlist_init :: "'a fsys_scheme \<Rightarrow> 'a fsys_scheme" where "vfs_devlist_init s = s\<lparr>vdev_list := []\<rparr>"

fun vfs_cleanup_loop :: "vfs_dev list \<Rightarrow> 'a fsys_scheme \<Rightarrow> 'a fsys_scheme option" where
  "vfs_cleanup_loop [] s = Some s"
| "vfs_cleanup_loop (v # vs) s = do {
     s \<leftarrow> (case vdev_fs v of None \<Rightarrow> Some s | Some fs \<Rightarrow> sfs_cleanup fs s);
     vfs_cleanup_loop vs s
   }"

definition vfs_cleanup :: "'a fsys_scheme \<Rightarrow> 'a fsys_scheme option" where
  "vfs_cleanup s = vfs_cleanup_loop (vdev_list s) s"

definition vfs_get_root :: "u8 list \<Rightarrow> 'a fsys_scheme \<Rightarrow> (int \<times> nat option \<times> 'a fsys_scheme) option" where
  "vfs_get_root name s =
     (case find (\<lambda>v. name = devname v) (vdev_list s) of
        None \<Rightarrow> Some (- E_NO_DEV, None, s)
      | Some v \<Rightarrow> (case vdev_fs v of
            Some fs \<Rightarrow> do { (k, s) \<leftarrow> sfs_get_root fs s; Some (0, Some k, s) }
          | None \<Rightarrow>
              if \<not> mountable v then do {
                k \<leftarrow> devnode v;
                (_, s) \<leftarrow> inode_ref_inc k s;
                Some (0, Some k, s)
              }
              else Some (- E_NA_DEV, None, s)))"

definition vfs_get_devname :: "nat option \<Rightarrow> 'a fsys_scheme \<Rightarrow> u8 list option option" where
  "vfs_get_devname fs s = do {
     kassert (fs \<noteq> None);
     Some (map_option devname (find (\<lambda>v. vdev_fs v = fs) (vdev_list s)))
   }"

definition check_devname_conflict :: "u8 list \<Rightarrow> 'a fsys_scheme \<Rightarrow> bool" where
  "check_devname_conflict name s \<longleftrightarrow> find (\<lambda>v. devname v = name) (vdev_list s) = None"

definition vfs_do_add :: "u8 list \<Rightarrow> nat option \<Rightarrow> nat option \<Rightarrow> bool \<Rightarrow> 'a fsys_scheme \<Rightarrow> (int \<times> 'a fsys_scheme) option" where
  "vfs_do_add name node fs mnt s = do {
     (case node of None \<Rightarrow> kassert (\<not> mnt) | Some k \<Rightarrow> kassert (vop_device k s \<noteq> None));
     if length name > FS_MAX_DNAME_LEN then Some (- E_TOO_BIG, s)
     else (case kmalloc_tmp s of
         (False, s) \<Rightarrow> Some (- E_NO_MEM, s)
       | (True, s) \<Rightarrow> (case kmalloc_tmp s of
             (False, s) \<Rightarrow> Some (- E_NO_MEM, s)
           | (True, s) \<Rightarrow>
               if \<not> check_devname_conflict name s then Some (- E_EXISTS, s)
               else Some (0, s\<lparr>vdev_list := \<lparr>devname = name, devnode = node, vdev_fs = fs, mountable = mnt\<rparr> # vdev_list s\<rparr>)))
   }"

definition vfs_add_fs :: "u8 list \<Rightarrow> nat option \<Rightarrow> 'a fsys_scheme \<Rightarrow> (int \<times> 'a fsys_scheme) option" where
  "vfs_add_fs name fs s = vfs_do_add name None fs False s"

definition vfs_add_dev :: "u8 list \<Rightarrow> nat option \<Rightarrow> bool \<Rightarrow> 'a fsys_scheme \<Rightarrow> (int \<times> 'a fsys_scheme) option" where
  "vfs_add_dev name node mnt s = vfs_do_add name node None mnt s"

text \<open>\<open>find_mount\<close> returns the position of the entry in the list.\<close>

fun find_mount :: "u8 list \<Rightarrow> vfs_dev list \<Rightarrow> nat option" where
  "find_mount name [] = None"
| "find_mount name (v # vs) = (if mountable v \<and> devname v = name then Some 0 else map_option Suc (find_mount name vs))"

abbreviation set_vdev_fs :: "nat \<Rightarrow> nat option \<Rightarrow> 'a fsys_scheme \<Rightarrow> 'a fsys_scheme" where
  "set_vdev_fs i fs s \<equiv> s\<lparr>vdev_list := (vdev_list s)[i := (vdev_list s ! i)\<lparr>vdev_fs := fs\<rparr>]\<rparr>"

definition vfs_mount :: "u8 list \<Rightarrow> (device \<Rightarrow> 'a fsys_scheme \<Rightarrow> (int \<times> nat option \<times> 'a fsys_scheme) option) \<Rightarrow> 'a fsys_scheme \<Rightarrow> (int \<times> 'a fsys_scheme) option" where
  "vfs_mount name mountfunc s =
     (case find_mount name (vdev_list s) of
        None \<Rightarrow> Some (- E_NO_DEV, s)
      | Some i \<Rightarrow>
          if vdev_fs (vdev_list s ! i) \<noteq> None then Some (- E_BUSY, s)
          else do {
            k \<leftarrow> devnode (vdev_list s ! i);
            dev \<leftarrow> vop_device k s;
            (ret, fs, s) \<leftarrow> mountfunc dev s;
            if ret = 0 then do { kassert (fs \<noteq> None); Some (0, set_vdev_fs i fs s) } else Some (ret, s)
          })"

definition vfs_unmount :: "u8 list \<Rightarrow> 'a fsys_scheme \<Rightarrow> (int \<times> 'a fsys_scheme) option" where
  "vfs_unmount name s =
     (case find_mount name (vdev_list s) of
        None \<Rightarrow> Some (- E_NO_DEV, s)
      | Some i \<Rightarrow> (case vdev_fs (vdev_list s ! i) of
            None \<Rightarrow> Some (- E_INVAL, s)
          | Some fs \<Rightarrow> do {
              (ret, s) \<leftarrow> sfs_sync fs s;
              if ret \<noteq> 0 then Some (ret, s)
              else do {
                (ret, s) \<leftarrow> sfs_unmount fs s;
                Some (ret, if ret = 0 then set_vdev_fs i None s else s)
              }
            }))"

fun unmount_loop :: "nat list \<Rightarrow> 'a fsys_scheme \<Rightarrow> 'a fsys_scheme option" where
  "unmount_loop [] s = Some s"
| "unmount_loop (i # ix) s = do {
     s \<leftarrow> (case (mountable (vdev_list s ! i), vdev_fs (vdev_list s ! i)) of
            (True, Some fs) \<Rightarrow> do {
              (ret, s) \<leftarrow> sfs_sync fs s;
              if ret \<noteq> 0 then Some s
              else do {
                (ret, s) \<leftarrow> sfs_unmount fs s;
                Some (if ret = 0 then set_vdev_fs i None s else s)
              }
            }
          | _ \<Rightarrow> Some s);
     unmount_loop ix s
   }"

definition vfs_unmount_all :: "'a fsys_scheme \<Rightarrow> (int \<times> 'a fsys_scheme) option" where
  "vfs_unmount_all s = do { s \<leftarrow> unmount_loop [0..<length (vdev_list s)] s; Some (0, s) }"

definition sfs_mount :: "u8 list \<Rightarrow> 'a fsys_scheme \<Rightarrow> (int \<times> 'a fsys_scheme) option" where
  "sfs_mount name s = vfs_mount name sfs_do_mount s"

definition sfs_init :: "'a fsys_scheme \<Rightarrow> 'a fsys_scheme option" where
  "sfs_init s = do { (ret, s) \<leftarrow> sfs_mount (kbytes ''disk0'') s; kassert (ret = 0); Some s }"

section \<open>The current directory and the boot file system (vfspath.c, vfs.c)\<close>

definition get_cwd_nolock :: "'a fsys_scheme \<Rightarrow> nat option option" where
  "get_cwd_nolock s = do { fp \<leftarrow> filesp s; fl \<leftarrow> ftab s fp; Some (fs_pwd fl) }"

definition set_cwd_nolock :: "nat option \<Rightarrow> 'a fsys_scheme \<Rightarrow> 'a fsys_scheme option" where
  "set_cwd_nolock pwd s = do { fp \<leftarrow> filesp s; fl \<leftarrow> ftab s fp; Some (s\<lparr>ftab := (ftab s)(fp \<mapsto> fl\<lparr>fs_pwd := pwd\<rparr>)\<rparr>) }"

definition vfs_get_curdir :: "'a fsys_scheme \<Rightarrow> (int \<times> nat option \<times> 'a fsys_scheme) option" where
  "vfs_get_curdir s = do {
     node \<leftarrow> get_cwd_nolock s;
     case node of
       None \<Rightarrow> Some (- E_NOENT, None, s)
     | Some k \<Rightarrow> do { (_, s) \<leftarrow> inode_ref_inc k s; Some (0, Some k, s) }
   }"

definition ref_dec_opt :: "nat option \<Rightarrow> 'a fsys_scheme \<Rightarrow> 'a fsys_scheme option" where
  "ref_dec_opt node s = (case node of None \<Rightarrow> Some s | Some k \<Rightarrow> do { (_, s) \<leftarrow> inode_ref_dec k s; Some s })"

definition vfs_set_curdir :: "nat option \<Rightarrow> 'a fsys_scheme \<Rightarrow> (int \<times> 'a fsys_scheme) option" where
  "vfs_set_curdir dir s = do {
     old \<leftarrow> get_cwd_nolock s;
     if old = dir then Some (0, s)
     else (case dir of
         None \<Rightarrow> do { s \<leftarrow> set_cwd_nolock None s; s \<leftarrow> ref_dec_opt old s; Some (0, s) }
       | Some k \<Rightarrow> do {
           type \<leftarrow> vop_gettype k s;
           if \<not> S_ISDIR type then Some (- E_NOTDIR, s)
           else do {
             (_, s) \<leftarrow> inode_ref_inc k s;
             s \<leftarrow> set_cwd_nolock dir s;
             s \<leftarrow> ref_dec_opt old s;
             Some (0, s)
           }
         })
   }"

definition vfs_init :: "'a fsys_scheme \<Rightarrow> 'a fsys_scheme" where "vfs_init s = vfs_devlist_init s"

definition change_bootfs :: "nat option \<Rightarrow> 'a fsys_scheme \<Rightarrow> 'a fsys_scheme option" where
  "change_bootfs node s = ref_dec_opt (bootfs_node s) (s\<lparr>bootfs_node := node\<rparr>)"

definition vfs_get_bootfs :: "'a fsys_scheme \<Rightarrow> (int \<times> nat option \<times> 'a fsys_scheme) option" where
  "vfs_get_bootfs s =
     (case bootfs_node s of
        None \<Rightarrow> Some (- E_NOENT, None, s)
      | Some k \<Rightarrow> do { (_, s) \<leftarrow> inode_ref_inc k s; Some (0, Some k, s) })"

section \<open>Paths (vfslookup.c)\<close>

text \<open>The scan for the first colon or slash; the result is \<open>slash\<close> and \<open>colon\<close>.\<close>

fun scan_path :: "int \<Rightarrow> u8 list \<Rightarrow> int \<times> int" where
  "scan_path i [] = (- 1, - 1)"
| "scan_path i (c # cs) = (if c = 58 then (- 1, i) else if c = 47 then (i, - 1) else scan_path (i + 1) cs)"

definition skip_slashes :: "u8 list \<Rightarrow> u8 list" where "skip_slashes path = dropWhile (\<lambda>c. c = 47) path"

text \<open>
  \<open>get_device\<close> cuts the path of the caller after the name of the device: the result is the return value, the
  path as it is left, \<open>*subpath\<close> and \<open>*node_store\<close>.
\<close>

definition get_device :: "u8 list \<Rightarrow> 'a fsys_scheme \<Rightarrow> (int \<times> u8 list \<times> u8 list \<times> nat option \<times> 'a fsys_scheme) option" where
  "get_device path s =
     (let (slash, colon) = scan_path 0 path in
      if colon < 0 \<and> slash \<noteq> 0 then do {
        (ret, node, s) \<leftarrow> vfs_get_curdir s;
        Some (ret, path, path, node, s)
      }
      else if colon > 0 then do {
        let name = take (nat colon) path;
        (ret, node, s) \<leftarrow> vfs_get_root name s;
        Some (ret, name, skip_slashes (drop (nat colon + 1) path), node, s)
      }
      else do {
        (ret, node, s) \<leftarrow>
          (if hd path = 47 then vfs_get_bootfs s
           else do {
             kassert (hd path = 58);
             (ret, node, s) \<leftarrow> vfs_get_curdir s;
             if ret \<noteq> 0 then Some (ret, None, s)
             else do {
               k \<leftarrow> node;
               n \<leftarrow> inodes s k;
               fs \<leftarrow> in_fs n;
               (root, s) \<leftarrow> sfs_get_root fs s;
               (_, s) \<leftarrow> inode_ref_dec k s;
               Some (0, Some root, s)
             }
           });
        if ret \<noteq> 0 then Some (ret, path, path, None, s) else Some (0, path, skip_slashes (tl path), node, s)
      })"

definition vfs_lookup :: "u8 list \<Rightarrow> 'a fsys_scheme \<Rightarrow> (int \<times> u8 list \<times> nat option \<times> 'a fsys_scheme) option" where
  "vfs_lookup path s = do {
     (ret, path, sub, node, s) \<leftarrow> get_device path s;
     if ret \<noteq> 0 then Some (ret, path, None, s)
     else if sub \<noteq> [] then do {
       k \<leftarrow> node;
       (ret, found, s) \<leftarrow> vop_lookup k sub s;
       (_, s) \<leftarrow> inode_ref_dec k s;
       Some (ret, path, found, s)
     }
     else Some (0, path, node, s)
   }"

definition vfs_lookup_parent :: "u8 list \<Rightarrow> 'a fsys_scheme \<Rightarrow> (int \<times> nat option \<times> u8 list \<times> 'a fsys_scheme) option" where
  "vfs_lookup_parent path s = do {
     (ret, _, sub, node, s) \<leftarrow> get_device path s;
     if ret \<noteq> 0 then Some (ret, None, [], s) else Some (0, node, sub, s)
   }"

definition vfs_chdir :: "u8 list \<Rightarrow> 'a fsys_scheme \<Rightarrow> (int \<times> 'a fsys_scheme) option" where
  "vfs_chdir path s = do {
     (ret, _, node, s) \<leftarrow> vfs_lookup path s;
     if ret = 0 then do {
       (ret, s) \<leftarrow> vfs_set_curdir node s;
       k \<leftarrow> node;
       (_, s) \<leftarrow> inode_ref_dec k s;
       Some (ret, s)
     }
     else Some (ret, s)
   }"

definition vfs_getcwd :: "iobuf \<Rightarrow> 'a fsys_scheme \<Rightarrow> (int \<times> iobuf \<times> 'a fsys_scheme) option" where
  "vfs_getcwd iob s = do {
     (ret, node, s) \<leftarrow> vfs_get_curdir s;
     if ret \<noteq> 0 then Some (ret, iob, s)
     else do {
       k \<leftarrow> node;
       n \<leftarrow> inodes s k;
       kassert (in_fs n \<noteq> None);
       found \<leftarrow> vfs_get_devname (in_fs n) s;
       name \<leftarrow> found;
       (ret, _, iob, _) \<leftarrow> iobuf_move iob name (length name) True;
       (ret, iob, s) \<leftarrow>
         (if ret \<noteq> 0 then Some (ret, iob, s)
          else do {
            (ret, _, iob, _) \<leftarrow> iobuf_move iob [58] 1 True;
            if ret \<noteq> 0 then Some (ret, iob, s) else vop_namefile k iob s
          });
       (_, s) \<leftarrow> inode_ref_dec k s;
       Some (ret, iob, s)
     }
   }"

definition vfs_set_bootfs :: "u8 list option \<Rightarrow> 'a fsys_scheme \<Rightarrow> (int \<times> 'a fsys_scheme) option" where
  "vfs_set_bootfs fsname s =
     (case fsname of
        None \<Rightarrow> do { s \<leftarrow> change_bootfs None s; Some (0, s) }
      | Some name \<Rightarrow>
          if dropWhile (\<lambda>c. c \<noteq> 58) name \<noteq> [58] then Some (- E_INVAL, s)
          else do {
            (ret, s) \<leftarrow> vfs_chdir name s;
            if ret \<noteq> 0 then Some (ret, s)
            else do {
              (ret, node, s) \<leftarrow> vfs_get_curdir s;
              if ret \<noteq> 0 then Some (ret, s)
              else do { s \<leftarrow> change_bootfs node s; Some (0, s) }
            }
          })"

section \<open>Opening and closing (vfsfile.c)\<close>

definition vfs_open :: "u8 list \<Rightarrow> u32 \<Rightarrow> 'a fsys_scheme \<Rightarrow> (int \<times> nat option \<times> 'a fsys_scheme) option" where
  "vfs_open path open_flags s =
     (let acc = open_flags AND O_ACCMODE;
          can_write = (acc = O_WRONLY \<or> acc = O_RDWR);
          excl = (open_flags AND O_EXCL \<noteq> 0);
          create = (open_flags AND O_CREAT \<noteq> 0) in
      if acc \<noteq> O_RDONLY \<and> \<not> can_write then Some (- E_INVAL, None, s)
      else if open_flags AND O_TRUNC \<noteq> 0 \<and> \<not> can_write then Some (- E_INVAL, None, s)
      else do {
        (ret, path, node, s) \<leftarrow> vfs_lookup path s;
        (stop, ret, node, s) \<leftarrow>
          (if ret \<noteq> 0 then
             if ret = - 16 \<and> create then do {
               (ret, dir, name, s) \<leftarrow> vfs_lookup_parent path s;
               if ret \<noteq> 0 then Some (True, ret, None, s)
               else do {
                 d \<leftarrow> dir;
                 (ret, node, s) \<leftarrow> vop_create d name excl s;
                 Some (False, ret, node, s)
               }
             }
             else Some (True, ret, None, s)
           else if excl \<and> create then Some (True, - E_EXISTS, None, s)
           else Some (False, 0, node, s));
        if stop then Some (ret, None, s)
        else do {
          k \<leftarrow> node;
          ret \<leftarrow> vop_open k open_flags s;
          if ret \<noteq> 0 then do { (_, s) \<leftarrow> inode_ref_dec k s; Some (ret, None, s) }
          else do {
            (_, s) \<leftarrow> inode_open_inc k s;
            if open_flags AND O_TRUNC \<noteq> 0 \<or> create then do {
              (ret, s) \<leftarrow> vop_truncate k 0 s;
              if ret \<noteq> 0 then do {
                (_, s) \<leftarrow> inode_open_dec k s;
                (_, s) \<leftarrow> inode_ref_dec k s;
                Some (ret, None, s)
              }
              else Some (0, Some k, s)
            }
            else Some (0, Some k, s)
          }
        }
      })"

definition vfs_close :: "nat \<Rightarrow> 'a fsys_scheme \<Rightarrow> (int \<times> 'a fsys_scheme) option" where
  "vfs_close k s = do {
     (_, s) \<leftarrow> inode_open_dec k s;
     (_, s) \<leftarrow> inode_ref_dec k s;
     Some (0, s)
   }"

definition vfs_unlink :: int where "vfs_unlink = - E_UNIMP"
definition vfs_rename :: int where "vfs_rename = - E_UNIMP"
definition vfs_link :: int where "vfs_link = - E_UNIMP"
definition vfs_symlink :: int where "vfs_symlink = - E_UNIMP"
definition vfs_readlink :: int where "vfs_readlink = - E_UNIMP"
definition vfs_mkdir :: int where "vfs_mkdir = - E_UNIMP"

end
