(* ===== verification/File.thy ===== *)
theory File
  imports Vfs
begin

text \<open>
  The open file table of a process: src/ucore_os/kern/fs/file.c, the files of processes in
  kern/fs/fs.c, and the registration of the devices in kern/fs/devs.

  A \<open>struct file\<close> is named by the files structure it is in and its index. \<open>FILES_STRUCT_NENTRY\<close> follows from
  the sizes of the structures: (4096 - 24) / 28.
\<close>

definition FILES_STRUCT_NENTRY :: nat where "FILES_STRUCT_NENTRY = 145"
definition NO_FD :: int where "NO_FD = - 0x9527"
definition LSEEK_SET :: int where "LSEEK_SET = 0"
definition LSEEK_CUR :: int where "LSEEK_CUR = 1"
definition LSEEK_END :: int where "LSEEK_END = 2"

definition testfd :: "int \<Rightarrow> bool" where "testfd fd \<longleftrightarrow> fd \<ge> 0 \<and> fd < int FILES_STRUCT_NENTRY"

type_synonym file_ref = "nat \<times> nat"

definition file_at :: "file_ref \<Rightarrow> 'a fsys_scheme \<Rightarrow> file_desc option" where
  "file_at r s = do { fl \<leftarrow> ftab s (fst r); if snd r < length (fd_array fl) then Some (fd_array fl ! snd r) else None }"

definition upd_file :: "file_ref \<Rightarrow> (file_desc \<Rightarrow> file_desc) \<Rightarrow> 'a fsys_scheme \<Rightarrow> 'a fsys_scheme" where
  "upd_file r g s = s\<lparr>ftab := (ftab s)(fst r := map_option (\<lambda>fl. fl\<lparr>fd_array := (fd_array fl)[snd r := g (fd_array fl ! snd r)]\<rparr>) (ftab s (fst r)))\<rparr>"

section \<open>The file table (file.c)\<close>

definition get_fd_array :: "'a fsys_scheme \<Rightarrow> (nat \<times> file_desc list) option" where
  "get_fd_array s = do {
     fp \<leftarrow> filesp s;
     fl \<leftarrow> ftab s fp;
     kassert (files_count fl > 0);
     Some (fp, fd_array fl)
   }"

definition fd_array_init :: "file_desc list \<Rightarrow> file_desc list" where
  "fd_array_init fds = map (\<lambda>i. (fds ! i)\<lparr>f_open := 0, f_status := FD_NONE, f_fd := int i\<rparr>) [0..<FILES_STRUCT_NENTRY]"

fun first_free :: "nat \<Rightarrow> file_desc list \<Rightarrow> nat option" where
  "first_free i [] = None"
| "first_free i (f # fs) = (if f_status f = FD_NONE then Some i else first_free (i + 1) fs)"

definition fd_array_alloc :: "int \<Rightarrow> 'a fsys_scheme \<Rightarrow> (int \<times> file_ref \<times> 'a fsys_scheme) option" where
  "fd_array_alloc fd s = do {
     (fp, fds) \<leftarrow> get_fd_array s;
     let (ret, i) =
       (if fd = NO_FD then (case first_free 0 fds of None \<Rightarrow> (- E_MAX_OPEN, 0) | Some i \<Rightarrow> (0, i))
        else if testfd fd then if f_status (fds ! nat fd) = FD_NONE then (0, nat fd) else (- E_BUSY, 0)
        else (- E_INVAL, 0));
     if ret \<noteq> 0 then Some (ret, (fp, 0), s)
     else do {
       f \<leftarrow> file_at (fp, i) s;
       kassert (f_open f = 0);
       Some (0, (fp, i), upd_file (fp, i) (\<lambda>f. f\<lparr>f_status := FD_INIT, f_node := None\<rparr>) s)
     }
   }"

definition fd_array_free :: "file_ref \<Rightarrow> 'a fsys_scheme \<Rightarrow> 'a fsys_scheme option" where
  "fd_array_free r s = do {
     f \<leftarrow> file_at r s;
     kassert (f_status f = FD_INIT \<or> f_status f = FD_CLOSED);
     kassert (f_open f = 0);
     s \<leftarrow> (if f_status f = FD_CLOSED then do { k \<leftarrow> f_node f; (_, s) \<leftarrow> vfs_close k s; Some s } else Some s);
     Some (upd_file r (\<lambda>f. f\<lparr>f_status := FD_NONE\<rparr>) s)
   }"

definition fd_array_acquire :: "file_ref \<Rightarrow> 'a fsys_scheme \<Rightarrow> 'a fsys_scheme option" where
  "fd_array_acquire r s = do {
     f \<leftarrow> file_at r s;
     kassert (f_status f = FD_OPENED);
     Some (upd_file r (\<lambda>f. f\<lparr>f_open := f_open f + 1\<rparr>) s)
   }"

definition fd_array_release :: "file_ref \<Rightarrow> 'a fsys_scheme \<Rightarrow> 'a fsys_scheme option" where
  "fd_array_release r s = do {
     f \<leftarrow> file_at r s;
     kassert (f_status f = FD_OPENED \<or> f_status f = FD_CLOSED);
     kassert (f_open f > 0);
     let s = upd_file r (\<lambda>f. f\<lparr>f_open := f_open f - 1\<rparr>) s;
     if f_open f - 1 = 0 then fd_array_free r s else Some s
   }"

definition fd_array_open :: "file_ref \<Rightarrow> 'a fsys_scheme \<Rightarrow> 'a fsys_scheme option" where
  "fd_array_open r s = do {
     f \<leftarrow> file_at r s;
     kassert (f_status f = FD_INIT \<and> f_node f \<noteq> None);
     Some (upd_file r (\<lambda>f. f\<lparr>f_status := FD_OPENED, f_open := f_open f + 1\<rparr>) s)
   }"

definition fd_array_close :: "file_ref \<Rightarrow> 'a fsys_scheme \<Rightarrow> 'a fsys_scheme option" where
  "fd_array_close r s = do {
     f \<leftarrow> file_at r s;
     kassert (f_status f = FD_OPENED);
     kassert (f_open f > 0);
     let s = upd_file r (\<lambda>f. f\<lparr>f_status := FD_CLOSED, f_open := f_open f - 1\<rparr>) s;
     if f_open f - 1 = 0 then fd_array_free r s else Some s
   }"

definition fd_array_dup :: "file_ref \<Rightarrow> file_ref \<Rightarrow> 'a fsys_scheme \<Rightarrow> 'a fsys_scheme option" where
  "fd_array_dup to from s = do {
     t \<leftarrow> file_at to s;
     f \<leftarrow> file_at from s;
     kassert (f_status t = FD_INIT \<and> f_status f = FD_OPENED);
     k \<leftarrow> f_node f;
     (_, s) \<leftarrow> inode_ref_inc k s;
     (_, s) \<leftarrow> inode_open_inc k s;
     fd_array_open to (upd_file to (\<lambda>t. t\<lparr>f_pos := f_pos f, f_readable := f_readable f, f_writable := f_writable f, f_node := Some k\<rparr>) s)
   }"

definition fd2file :: "int \<Rightarrow> 'a fsys_scheme \<Rightarrow> (int \<times> file_ref) option" where
  "fd2file fd s =
     (if testfd fd then do {
        (fp, fds) \<leftarrow> get_fd_array s;
        let f = fds ! nat fd;
        Some (if f_status f = FD_OPENED \<and> f_fd f = fd then (0, (fp, nat fd)) else (- E_INVAL, (fp, 0)))
      }
      else Some (- E_INVAL, (0, 0)))"

definition file_testfd :: "int \<Rightarrow> bool \<Rightarrow> bool \<Rightarrow> 'a fsys_scheme \<Rightarrow> bool option" where
  "file_testfd fd readable writable s = do {
     (ret, r) \<leftarrow> fd2file fd s;
     if ret \<noteq> 0 then Some False
     else do {
       f \<leftarrow> file_at r s;
       Some (\<not> (readable \<and> \<not> f_readable f) \<and> \<not> (writable \<and> \<not> f_writable f))
     }
   }"

definition file_open :: "u8 list \<Rightarrow> u32 \<Rightarrow> 'a fsys_scheme \<Rightarrow> (int \<times> 'a fsys_scheme) option" where
  "file_open path open_flags s =
     (let acc = open_flags AND O_ACCMODE;
          readable = (acc = O_RDONLY \<or> acc = O_RDWR);
          writable = (acc = O_WRONLY \<or> acc = O_RDWR) in
      if \<not> readable \<and> \<not> writable then Some (- E_INVAL, s)
      else do {
        (ret, r, s) \<leftarrow> fd_array_alloc NO_FD s;
        if ret \<noteq> 0 then Some (ret, s)
        else do {
          (ret, node, s) \<leftarrow> vfs_open path open_flags s;
          if ret \<noteq> 0 then do { s \<leftarrow> fd_array_free r s; Some (ret, s) }
          else do {
            k \<leftarrow> node;
            (ret, pos) \<leftarrow> (if open_flags AND O_APPEND \<noteq> 0 then do { (ret, st) \<leftarrow> vop_fstat k s; Some (ret, sint (st_size st)) } else Some (0, 0));
            if ret \<noteq> 0 then do {
              (_, s) \<leftarrow> vfs_close k s;
              s \<leftarrow> fd_array_free r s;
              Some (ret, s)
            }
            else do {
              s \<leftarrow> fd_array_open r (upd_file r (\<lambda>f. f\<lparr>f_pos := pos, f_node := Some k, f_readable := readable, f_writable := writable\<rparr>) s);
              f \<leftarrow> file_at r s;
              Some (f_fd f, s)
            }
          }
        }
      })"

definition file_close :: "int \<Rightarrow> 'a fsys_scheme \<Rightarrow> (int \<times> 'a fsys_scheme) option" where
  "file_close fd s = do {
     (ret, r) \<leftarrow> fd2file fd s;
     if ret \<noteq> 0 then Some (ret, s) else do { s \<leftarrow> fd_array_close r s; Some (0, s) }
   }"

text \<open>
  \<open>file_read\<close> and \<open>file_write\<close>: \<open>buf\<close> is the memory from \<open>base\<close> on. The result is the return value, the number of
  bytes copied and the memory.
\<close>

definition file_io :: "bool \<Rightarrow> int \<Rightarrow> u8 list \<Rightarrow> nat \<Rightarrow> 'a fsys_scheme \<Rightarrow> (int \<times> nat \<times> u8 list \<times> 'a fsys_scheme) option" where
  "file_io wr fd buf len s = do {
     (ret, r) \<leftarrow> fd2file fd s;
     if ret \<noteq> 0 then Some (ret, 0, buf, s)
     else do {
       f \<leftarrow> file_at r s;
       if \<not> (if wr then f_writable f else f_readable f) then Some (- E_INVAL, 0, buf, s)
       else do {
         s \<leftarrow> fd_array_acquire r s;
         k \<leftarrow> f_node f;
         let iob = iobuf_init buf 0 len (f_pos f);
         (ret, iob, s) \<leftarrow> (if wr then vop_write k iob s else vop_read k iob s);
         let copied = iobuf_used iob;
         f \<leftarrow> file_at r s;
         let s = (if f_status f = FD_OPENED then upd_file r (\<lambda>f. f\<lparr>f_pos := f_pos f + int copied\<rparr>) s else s);
         s \<leftarrow> fd_array_release r s;
         Some (ret, copied, io_buf iob, s)
       }
     }
   }"

definition file_read :: "int \<Rightarrow> u8 list \<Rightarrow> nat \<Rightarrow> 'a fsys_scheme \<Rightarrow> (int \<times> nat \<times> u8 list \<times> 'a fsys_scheme) option" where
  "file_read fd buf len s = file_io False fd buf len s"

definition file_write :: "int \<Rightarrow> u8 list \<Rightarrow> nat \<Rightarrow> 'a fsys_scheme \<Rightarrow> (int \<times> nat \<times> u8 list \<times> 'a fsys_scheme) option" where
  "file_write fd buf len s = file_io True fd buf len s"

definition file_seek :: "int \<Rightarrow> int \<Rightarrow> int \<Rightarrow> 'a fsys_scheme \<Rightarrow> (int \<times> 'a fsys_scheme) option" where
  "file_seek fd pos whence s = do {
     (ret, r) \<leftarrow> fd2file fd s;
     if ret \<noteq> 0 then Some (ret, s)
     else do {
       s \<leftarrow> fd_array_acquire r s;
       f \<leftarrow> file_at r s;
       k \<leftarrow> f_node f;
       (ret, pos) \<leftarrow>
         (if whence = LSEEK_SET then Some (0, pos)
          else if whence = LSEEK_CUR then Some (0, sint (word_of_int (pos + f_pos f) :: u32))
          else if whence = LSEEK_END then do { (ret, st) \<leftarrow> vop_fstat k s; Some (ret, if ret = 0 then sint (word_of_int pos + st_size st :: u32) else pos) }
          else Some (- E_INVAL, pos));
       (ret, s) \<leftarrow>
         (if ret = 0 then do {
            (ret, s) \<leftarrow> vop_tryseek k pos s;
            Some (ret, if ret = 0 then upd_file r (\<lambda>f. f\<lparr>f_pos := pos\<rparr>) s else s)
          }
          else Some (ret, s));
       s \<leftarrow> fd_array_release r s;
       Some (ret, s)
     }
   }"

definition file_fstat :: "int \<Rightarrow> 'a fsys_scheme \<Rightarrow> (int \<times> stat option \<times> 'a fsys_scheme) option" where
  "file_fstat fd s = do {
     (ret, r) \<leftarrow> fd2file fd s;
     if ret \<noteq> 0 then Some (ret, None, s)
     else do {
       s \<leftarrow> fd_array_acquire r s;
       f \<leftarrow> file_at r s;
       k \<leftarrow> f_node f;
       (ret, st) \<leftarrow> vop_fstat k s;
       s \<leftarrow> fd_array_release r s;
       Some (ret, Some st, s)
     }
   }"

definition file_fsync :: "int \<Rightarrow> 'a fsys_scheme \<Rightarrow> (int \<times> 'a fsys_scheme) option" where
  "file_fsync fd s = do {
     (ret, r) \<leftarrow> fd2file fd s;
     if ret \<noteq> 0 then Some (ret, s)
     else do {
       s \<leftarrow> fd_array_acquire r s;
       f \<leftarrow> file_at r s;
       k \<leftarrow> f_node f;
       (ret, s) \<leftarrow> vop_fsync k s;
       s \<leftarrow> fd_array_release r s;
       Some (ret, s)
     }
   }"

text \<open>\<open>file_getdirentry\<close>: the directory entry is its offset and the bytes of its name.\<close>

definition file_getdirentry :: "int \<Rightarrow> int \<Rightarrow> u8 list \<Rightarrow> 'a fsys_scheme \<Rightarrow> (int \<times> int \<times> u8 list \<times> 'a fsys_scheme) option" where
  "file_getdirentry fd offset name s = do {
     (ret, r) \<leftarrow> fd2file fd s;
     if ret \<noteq> 0 then Some (ret, offset, name, s)
     else do {
       s \<leftarrow> fd_array_acquire r s;
       f \<leftarrow> file_at r s;
       k \<leftarrow> f_node f;
       (ret, iob, s) \<leftarrow> vop_getdirentry k (iobuf_init name 0 256 offset) s;
       s \<leftarrow> fd_array_release r s;
       Some (ret, if ret = 0 then offset + int (iobuf_used iob) else offset, io_buf iob, s)
     }
   }"

definition file_dup :: "int \<Rightarrow> int \<Rightarrow> 'a fsys_scheme \<Rightarrow> (int \<times> 'a fsys_scheme) option" where
  "file_dup fd1 fd2 s = do {
     (ret, r1) \<leftarrow> fd2file fd1 s;
     if ret \<noteq> 0 then Some (ret, s)
     else do {
       (ret, r2, s) \<leftarrow> fd_array_alloc fd2 s;
       if ret \<noteq> 0 then Some (ret, s)
       else do {
         s \<leftarrow> fd_array_dup r2 r1 s;
         f \<leftarrow> file_at r2 s;
         Some (f_fd f, s)
       }
     }
   }"

section \<open>The files of a process (fs.c)\<close>

definition files_create :: "'a fsys_scheme \<Rightarrow> nat option \<times> 'a fsys_scheme" where
  "files_create s =
     (case falloc s (dom (ftab s)) of
        None \<Rightarrow> (None, s)
      | Some fp \<Rightarrow> (Some fp, s\<lparr>ftab := (ftab s)(fp \<mapsto> \<lparr>fs_pwd = None, fd_array = fd_array_init (replicate FILES_STRUCT_NENTRY
          \<lparr>f_status = FD_NONE, f_readable = False, f_writable = False, f_fd = 0, f_pos = 0, f_node = None, f_open = 0\<rparr>), files_count = 0\<rparr>)\<rparr>))"

text \<open>The loop over the entries from \<open>i\<close> on; \<open>check\<close> is whether each has to be unused afterwards.\<close>

fun close_loop :: "bool \<Rightarrow> nat \<Rightarrow> nat list \<Rightarrow> 'a fsys_scheme \<Rightarrow> 'a fsys_scheme option" where
  "close_loop check fp [] s = Some s"
| "close_loop check fp (i # ix) s = do {
     f \<leftarrow> file_at (fp, i) s;
     s \<leftarrow> (if f_status f = FD_OPENED then fd_array_close (fp, i) s else Some s);
     f \<leftarrow> file_at (fp, i) s;
     kassert (check \<longrightarrow> f_status f = FD_NONE);
     close_loop check fp ix s
   }"

definition files_destroy :: "nat \<Rightarrow> 'a fsys_scheme \<Rightarrow> 'a fsys_scheme option" where
  "files_destroy fp s = do {
     fl \<leftarrow> ftab s fp;
     kassert (files_count fl = 0);
     s \<leftarrow> ref_dec_opt (fs_pwd fl) s;
     s \<leftarrow> close_loop True fp [0..<FILES_STRUCT_NENTRY] s;
     Some (s\<lparr>ftab := (ftab s)(fp := None)\<rparr>)
   }"

definition files_closeall :: "nat \<Rightarrow> 'a fsys_scheme \<Rightarrow> 'a fsys_scheme option" where
  "files_closeall fp s = do {
     fl \<leftarrow> ftab s fp;
     kassert (files_count fl > 0);
     close_loop False fp [2..<FILES_STRUCT_NENTRY] s
   }"

fun dup_files_loop :: "nat \<Rightarrow> nat \<Rightarrow> nat list \<Rightarrow> 'a fsys_scheme \<Rightarrow> 'a fsys_scheme option" where
  "dup_files_loop to from [] s = Some s"
| "dup_files_loop to from (i # ix) s = do {
     f \<leftarrow> file_at (from, i) s;
     s \<leftarrow> (if f_status f = FD_OPENED then fd_array_dup (to, i) (from, i) (upd_file (to, i) (\<lambda>t. t\<lparr>f_status := FD_INIT\<rparr>) s) else Some s);
     dup_files_loop to from ix s
   }"

definition dup_files :: "nat \<Rightarrow> nat \<Rightarrow> 'a fsys_scheme \<Rightarrow> (int \<times> 'a fsys_scheme) option" where
  "dup_files to from s = do {
     t \<leftarrow> ftab s to;
     f \<leftarrow> ftab s from;
     kassert (files_count t = 0 \<and> files_count f > 0);
     let s = s\<lparr>ftab := (ftab s)(to \<mapsto> t\<lparr>fs_pwd := fs_pwd f\<rparr>)\<rparr>;
     s \<leftarrow> (case fs_pwd f of None \<Rightarrow> Some s | Some k \<Rightarrow> do { (_, s) \<leftarrow> inode_ref_inc k s; Some s });
     s \<leftarrow> dup_files_loop to from [0..<FILES_STRUCT_NENTRY] s;
     Some (0, s)
   }"

section \<open>Starting the file system (dev.c, fs.c)\<close>

definition dev_init_stdin :: "'a fsys_scheme \<Rightarrow> 'a fsys_scheme option" where
  "dev_init_stdin s = do {
     let (dev, s) = stdin_device_init s;
     (node, s) \<leftarrow> dev_create_inode dev s;
     kassert (node \<noteq> None);
     (ret, s) \<leftarrow> vfs_add_dev (kbytes ''stdin'') node False s;
     kassert (ret = 0);
     Some s
   }"

definition dev_init_stdout :: "'a fsys_scheme \<Rightarrow> 'a fsys_scheme option" where
  "dev_init_stdout s = do {
     (node, s) \<leftarrow> dev_create_inode stdout_device_init s;
     kassert (node \<noteq> None);
     (ret, s) \<leftarrow> vfs_add_dev (kbytes ''stdout'') node False s;
     kassert (ret = 0);
     Some s
   }"

text \<open>With the allocation of the buffer in \<open>disk0_device_init\<close>.\<close>

definition dev_init_disk0 :: "'a fsys_scheme \<Rightarrow> 'a fsys_scheme option" where
  "dev_init_disk0 s = do {
     dev \<leftarrow> disk0_device_init s;
     (node, s) \<leftarrow> dev_create_inode dev s;
     kassert (node \<noteq> None);
     let (ok, s) = kmalloc_tmp s;
     kassert ok;
     (ret, s) \<leftarrow> vfs_add_dev (kbytes ''disk0'') node True (s\<lparr>disk0_buffer := replicate DISK0_BUFSIZE 0\<rparr>);
     kassert (ret = 0);
     Some s
   }"

definition dev_init :: "'a fsys_scheme \<Rightarrow> 'a fsys_scheme option" where
  "dev_init s = do { s \<leftarrow> dev_init_stdin s; s \<leftarrow> dev_init_stdout s; dev_init_disk0 s }"

definition fs_init :: "'a fsys_scheme \<Rightarrow> 'a fsys_scheme option" where
  "fs_init s = do { s \<leftarrow> dev_init (vfs_init s); sfs_init s }"

definition fs_cleanup :: "'a fsys_scheme \<Rightarrow> 'a fsys_scheme option" where
  "fs_cleanup s = vfs_cleanup s"

end
