(* ===== verification/Segments.thy ===== *)
theory Segments
  imports Ucore_Prelude
begin

text \<open>
  The abstract free lists: a list of segments \<open>(start, length)\<close> in ascending order, none empty
  and no two adjacent. This is what a first-fit allocator with coalescing promises to keep.
  A set of pages has at most one such representation, so allocators that implement these
  operations are determined by the sets of pages they hold.
\<close>

fun segs :: "nat \<Rightarrow> (nat \<times> nat) list \<Rightarrow> bool" where
  "segs lo [] \<longleftrightarrow> True"
| "segs lo ((a, m) # bs) \<longleftrightarrow> lo \<le> a \<and> 0 < m \<and> segs (Suc (a + m)) bs"

definition seg_pages :: "(nat \<times> nat) list \<Rightarrow> nat set" where
  "seg_pages bs = (\<Union>(a, m) \<in> set bs. {a..<a + m})"

definition seg_sum :: "(nat \<times> nat) list \<Rightarrow> nat" where
  "seg_sum bs = sum_list (map snd bs)"

text \<open>First fit: the first segment with at least \<open>n\<close> pages gives its first \<open>n\<close>.\<close>

fun seg_alloc :: "nat \<Rightarrow> (nat \<times> nat) list \<Rightarrow> (nat \<times> (nat \<times> nat) list) option" where
  "seg_alloc n [] = None"
| "seg_alloc n ((a, m) # bs) =
     (if n \<le> m then Some (a, if n < m then (a + n, m - n) # bs else bs)
      else map_option (\<lambda>(p, bs'). (p, (a, m) # bs')) (seg_alloc n bs))"

text \<open>Giving \<open>n\<close> pages from \<open>b\<close> back, merging with both neighbours.\<close>

fun seg_free :: "nat \<Rightarrow> nat \<Rightarrow> (nat \<times> nat) list \<Rightarrow> (nat \<times> nat) list" where
  "seg_free b n [] = [(b, n)]"
| "seg_free b n ((a, m) # bs) =
     (if b + n < a then (b, n) # (a, m) # bs
      else if b + n = a then (b, n + m) # bs
      else if a + m = b then seg_free a (m + n) bs
      else (a, m) # seg_free b n bs)"

lemma seg_pages_simps [simp]:
  "seg_pages [] = {}"
  "seg_pages ((a, m) # bs) = {a..<a + m} \<union> seg_pages bs"
  "seg_pages (bs @ cs) = seg_pages bs \<union> seg_pages cs"
  by (auto simp: seg_pages_def)

lemma seg_sum_simps [simp]:
  "seg_sum [] = 0"
  "seg_sum ((a, m) # bs) = m + seg_sum bs"
  "seg_sum (bs @ cs) = seg_sum bs + seg_sum cs"
  by (auto simp: seg_sum_def)

lemma segs_mono: "segs lo bs \<Longrightarrow> lo' \<le> lo \<Longrightarrow> segs lo' bs"
  by (cases bs) auto

lemma segs_pages_ge: "segs lo bs \<Longrightarrow> x \<in> seg_pages bs \<Longrightarrow> lo \<le> x"
  by (induction lo bs rule: segs.induct) auto

lemma segs_disjoint_hd: "segs (Suc (a + m)) bs \<Longrightarrow> {a..<a + m} \<inter> seg_pages bs = {}"
  using segs_pages_ge by fastforce

lemma finite_seg_pages [simp]: "finite (seg_pages bs)"
  by (auto simp: seg_pages_def)

lemma segs_card: "segs lo bs \<Longrightarrow> card (seg_pages bs) = seg_sum bs"
  by (induction lo bs rule: segs.induct) (simp_all add: card_Un_disjoint segs_disjoint_hd)

lemma segs_append:
  "segs lo (bs @ cs) \<longleftrightarrow> segs lo bs \<and> segs (if bs = [] then lo else Suc (fst (last bs) + snd (last bs))) cs"
  by (induction lo bs rule: segs.induct) auto

lemma segs_start_in: "segs lo bs \<Longrightarrow> (a, m) \<in> set bs \<Longrightarrow> a \<in> seg_pages bs"
  by (induction lo bs rule: segs.induct) auto

text \<open>The representation is unique: the maximal runs of the set, in order.\<close>

lemma segs_first:
  assumes "segs lo ((a, m) # bs)"
  shows "Min (seg_pages ((a, m) # bs)) = a" and "a + m \<notin> seg_pages ((a, m) # bs)"
proof -
  have s: "segs (Suc (a + m)) bs" "0 < m" using assms by auto
  show "Min (seg_pages ((a, m) # bs)) = a"
    using s segs_pages_ge [OF s(1)] by (intro Min_eqI) fastforce+
  show "a + m \<notin> seg_pages ((a, m) # bs)"
    using segs_pages_ge [OF s(1), of "a + m"] by auto
qed

lemma segs_first_len:
  assumes "segs lo ((a, m) # bs)" and "segs lo ((a, k) # cs)"
    and eq: "seg_pages ((a, m) # bs) = seg_pages ((a, k) # cs)"
  shows "m \<le> k"
proof (rule ccontr)
  assume "\<not> m \<le> k"
  then have "a + k \<in> seg_pages ((a, m) # bs)" by simp
  then show False using segs_first(2) [OF assms(2)] eq by blast
qed

lemma segs_unique:
  "segs lo bs \<Longrightarrow> segs lo cs \<Longrightarrow> seg_pages bs = seg_pages cs \<Longrightarrow> bs = cs"
proof (induction lo bs arbitrary: cs rule: segs.induct)
  case (1 lo)
  then show ?case by (cases cs) auto
next
  case (2 lo a m bs)
  obtain a' m' cs' where cs: "cs = (a', m') # cs'"
    using 2(2,4) by (cases cs) auto
  have a: "a' = a"
    using segs_first(1) [OF 2(2)] segs_first(1) [of lo a' m' cs'] 2(3,4) by (simp add: cs)
  have m: "m' = m"
    using segs_first_len [of lo a m bs m' cs'] segs_first_len [of lo a m' cs' m bs] 2(2-4)
    by (simp only: cs a) simp
  have "seg_pages bs = seg_pages cs'"
    using 2(2-4) segs_disjoint_hd [of a m bs] segs_disjoint_hd [of a m cs'] by (simp add: cs a m) blast
  then show ?case using 2(1) [of cs'] 2(2,3) by (simp add: cs a m)
qed

text \<open>What the two operations do to the set of pages.\<close>

lemma seg_alloc_segs:
  "segs lo bs \<Longrightarrow> 0 < n \<Longrightarrow> seg_alloc n bs = Some (p, bs') \<Longrightarrow> segs lo bs' \<and> lo \<le> p"
proof (induction n bs arbitrary: lo p bs' rule: seg_alloc.induct)
  case (2 n a m bs)
  show ?case
  proof (cases "n \<le> m")
    case True
    then show ?thesis using 2 by (auto split: if_splits intro: segs_mono)
  next
    case False
    then show ?thesis using 2 by fastforce
  qed
qed simp

lemma seg_alloc_pages:
  "segs lo bs \<Longrightarrow> 0 < n \<Longrightarrow> seg_alloc n bs = Some (p, bs') \<Longrightarrow>
    {p..<p + n} \<subseteq> seg_pages bs \<and> seg_pages bs' = seg_pages bs - {p..<p + n}"
proof (induction n bs arbitrary: lo p bs' rule: seg_alloc.induct)
  case (2 n a m bs)
  have s: "segs (Suc (a + m)) bs" using 2(2) by simp
  show ?case
  proof (cases "n \<le> m")
    case True
    have "seg_pages bs \<inter> {a..<a + m} = {}" using segs_disjoint_hd [OF s] by blast
    moreover have "p = a" "seg_pages bs' = {a + n..<a + m} \<union> seg_pages bs"
      using 2(4) True by (auto split: if_splits)
    ultimately show ?thesis using True by auto
  next
    case False
    then obtain q where q: "seg_alloc n bs = Some (p, q)" "bs' = (a, m) # q" using 2(4) by auto
    have "{p..<p + n} \<inter> {a..<a + m} = {}" using seg_alloc_segs [OF s 2(3) q(1)] by auto
    then show ?thesis using 2(1) [OF False s 2(3) q(1)] unfolding q(2) seg_pages_simps by blast
  qed
qed simp

lemma seg_alloc_None: "seg_alloc n bs = None \<longleftrightarrow> (\<forall>(a, m) \<in> set bs. m < n)"
  by (induction n bs rule: seg_alloc.induct) auto

text \<open>A run of free pages lies in one segment, because segments are not adjacent.\<close>

lemma segs_run:
  "segs lo bs \<Longrightarrow> 0 < n \<Longrightarrow> {p..<p + n} \<subseteq> seg_pages bs \<Longrightarrow>
    \<exists>(a, m) \<in> set bs. a \<le> p \<and> p + n \<le> a + m"
proof (induction lo bs rule: segs.induct)
  case (2 lo a m bs)
  have s: "segs (Suc (a + m)) bs" using 2(2) by simp
  show ?case
  proof (cases "p < a + m")
    case True
    have "p \<in> seg_pages ((a, m) # bs)" using 2(3,4) by (auto simp del: seg_pages_simps)
    then have "a \<le> p" using True segs_pages_ge [OF s] by fastforce
    moreover have "a + m \<notin> {p..<p + n}" using segs_first(2) [OF 2(2)] 2(4) by blast
    ultimately show ?thesis using True by auto
  next
    case False
    then have "{p..<p + n} \<subseteq> seg_pages bs" using 2(4) by auto
    then show ?thesis using 2(1) [OF s 2(3)] by auto
  qed
qed auto

lemma seg_alloc_complete:
  "segs lo bs \<Longrightarrow> 0 < n \<Longrightarrow> seg_alloc n bs = None \<longleftrightarrow> (\<nexists>p. {p..<p + n} \<subseteq> seg_pages bs)"
proof
  assume s: "segs lo bs" "0 < n" and "seg_alloc n bs = None"
  then show "\<nexists>p. {p..<p + n} \<subseteq> seg_pages bs"
    using segs_run [OF s] by (fastforce simp: seg_alloc_None)
next
  assume s: "segs lo bs" "0 < n" and no: "\<nexists>p. {p..<p + n} \<subseteq> seg_pages bs"
  then show "seg_alloc n bs = None"
    using seg_alloc_pages [OF s] by (cases "seg_alloc n bs") force+
qed

lemma seg_alloc_lowest:
  "segs lo bs \<Longrightarrow> 0 < n \<Longrightarrow> seg_alloc n bs = Some (p, bs') \<Longrightarrow> q < p \<Longrightarrow> \<not> {q..<q + n} \<subseteq> seg_pages bs"
proof (induction n bs arbitrary: lo p bs' rule: seg_alloc.induct)
  case (2 n a m bs)
  have s: "segs (Suc (a + m)) bs" using 2(2) by simp
  have q: "q \<in> {q..<q + n}" using 2(3) by simp
  show ?case
  proof (cases "n \<le> m")
    case True
    then have "q \<notin> seg_pages ((a, m) # bs)"
      using 2(4,5) segs_pages_ge [OF s, of q] by (auto split: if_splits)
    then show ?thesis using q by blast
  next
    case False
    then obtain bs1 where r: "seg_alloc n bs = Some (p, bs1)" using 2(4) by auto
    show ?thesis
    proof
      assume run: "{q..<q + n} \<subseteq> seg_pages ((a, m) # bs)"
      from segs_run [OF 2(2,3) this] obtain b k where "(b, k) \<in> set ((a, m) # bs)" "b \<le> q" "q + n \<le> b + k" by blast
      then have "(b, k) \<in> set bs" using False by auto
      then have "{b..<b + k} \<subseteq> seg_pages bs" by (force simp: seg_pages_def)
      moreover have "{q..<q + n} \<subseteq> {b..<b + k}" using \<open>b \<le> q\<close> \<open>q + n \<le> b + k\<close> by auto
      ultimately show False using 2(1) [OF False s 2(3) r 2(5)] by blast
    qed
  qed
qed simp

lemma ivl_join: "{b..<b + (n + m)} = {b..<b + n} \<union> {b + n..<b + n + (m::nat)}"
  by auto

lemma seg_free_pages [simp]: "0 < n \<Longrightarrow> seg_pages (seg_free b n bs) = {b..<b + n} \<union> seg_pages bs"
proof (induction b n bs rule: seg_free.induct)
  case (2 b n a m bs)
  consider "b + n < a" | "b + n = a" | "a + m = b" "\<not> b + n \<le> a" | "a < b + n" "a + m \<noteq> b" by linarith
  then show ?case
  proof cases
    case 2
    then show ?thesis using ivl_join [of b n m] by (simp add: Un_assoc)
  next
    case 3
    then show ?thesis using 2(1) 2(3) ivl_join [of a m n] by (simp add: Un_commute Un_left_commute)
  next
    case 4
    then show ?thesis using 2(2) 2(3) by (simp add: Un_left_commute)
  qed simp
qed simp

lemma seg_free_segs:
  "segs lo bs \<Longrightarrow> lo \<le> b \<Longrightarrow> 0 < n \<Longrightarrow> {b..<b + n} \<inter> seg_pages bs = {} \<Longrightarrow> segs lo (seg_free b n bs)"
proof (induction b n bs arbitrary: lo rule: seg_free.induct)
  case (2 b n a m bs)
  have s: "segs (Suc (a + m)) bs" and m: "0 < m" "lo \<le> a" using 2(3) by auto
  have d: "{b..<b + n} \<inter> {a..<a + m} = {}" "{b..<b + n} \<inter> seg_pages bs = {}"
    using 2(6) unfolding seg_pages_simps by blast+
  consider "b + n < a" | "b + n = a" | "a + m = b" | "a < b + n" "a + m \<noteq> b" by linarith
  then show ?case
  proof cases
    case 3
    have "{a..<a + (m + n)} = {a..<a + m} \<union> {b..<b + n}" using 3 by auto
    then have "{a..<a + (m + n)} \<inter> seg_pages bs = {}"
      using d(2) segs_disjoint_hd [OF s] by blast
    then have "segs lo (seg_free a (m + n) bs)"
      using 2(1) [of lo] 3 segs_mono [OF s, of lo] m by simp
    then show ?thesis using 3 m by simp
  next
    case 4
    have "a + m < b" using d(1) 4 m 2(5) by simp
    then have "segs (Suc (a + m)) (seg_free b n bs)" using 2(2) 4 s d(2) 2(5) by simp
    then show ?thesis using 4 m by simp
  next
    case 1
    then show ?thesis using 2(3-5) by simp
  next
    case 2
    have "segs (Suc (b + (n + m))) bs" using s unfolding 2 [symmetric] by (simp add: add.assoc)
    then show ?thesis using 2 \<open>lo \<le> b\<close> \<open>0 < n\<close> by simp
  qed
qed simp

lemma seg_free_sum: "seg_sum (seg_free b n bs) = n + seg_sum bs"
  by (induction b n bs rule: seg_free.induct) auto

text \<open>Segments seen through the list of their starts, as a free list keeps them.\<close>

abbreviation seg_map :: "(nat \<Rightarrow> nat) \<Rightarrow> nat list \<Rightarrow> (nat \<times> nat) list" where
  "seg_map f \<equiv> map (\<lambda>p. (p, f p))"

lemma segs_apart:
  "segs lo bs \<Longrightarrow> (a, m) \<in> set bs \<Longrightarrow> (x, k) \<in> set bs \<Longrightarrow> a < x \<Longrightarrow> a + m < x"
proof (induction lo bs rule: segs.induct)
  case (2 lo b l bs)
  have "Suc (b + l) \<le> y" if "(y, j) \<in> set bs" for y j
    using segs_pages_ge segs_start_in 2(2) that by (metis segs.simps(2))
  then show ?case using 2 by fastforce
qed simp

lemma segs_split_order:
  assumes "segs lo (seg_map f (xs @ p # ys))"
  shows "x \<in> set xs \<Longrightarrow> x + f x < p" and "y \<in> set ys \<Longrightarrow> p + f p < y"
proof -
  have s: "segs (Suc (p + f p)) (seg_map f ys)" using assms by (simp add: segs_append)
  show "p + f p < y" if "y \<in> set ys"
    using segs_pages_ge [OF s segs_start_in [OF s]] that by fastforce
  show "x + f x < p" if x: "x \<in> set xs"
  proof -
    obtain us vs where xs: "xs = us @ x # vs" using split_list [OF x] by blast
    have s: "segs (Suc (x + f x)) (seg_map f (vs @ p # ys))"
      using assms by (simp add: xs segs_append)
    show ?thesis using segs_pages_ge [OF s segs_start_in [OF s, of p "f p"]] by simp
  qed
qed

lemma segs_pos: "segs lo (seg_map f xs) \<Longrightarrow> x \<in> set xs \<Longrightarrow> 0 < f x"
  by (induction xs arbitrary: lo) auto

lemma segs_distinct: "segs lo (seg_map f xs) \<Longrightarrow> distinct xs"
proof (induction xs arbitrary: lo)
  case (Cons p ys)
  have "p + f p < y" if "y \<in> set ys" for y
    using segs_split_order(2) [of lo f "[]" p ys] Cons.prems that by simp
  then have "p \<notin> set ys" by fastforce
  then show ?case using Cons.IH [of "Suc (p + f p)"] Cons.prems by simp
qed simp

text \<open>A run of pages outside all segments has the segments below it and the segments above it.\<close>

lemma segs_around:
  assumes sg: "segs 0 (seg_map f xs)" and n: "0 < n" and out: "{b..<b + n} \<inter> seg_pages (seg_map f xs) = {}"
  shows "\<exists>L R. xs = L @ R \<and> (\<forall>x\<in>set L. x + f x \<le> b) \<and> (\<forall>y\<in>set R. b + n \<le> y)"
proof (intro exI conjI ballI)
  let ?L = "takeWhile (\<lambda>p. p < b) xs" and ?R = "dropWhile (\<lambda>p. p < b) xs"
  have pos: "0 < f p" if "p \<in> set xs" for p using segs_pos [OF sg that] .
  have dis: "{b..<b + n} \<inter> {p..<p + f p} = {}" if "p \<in> set xs" for p
    using out that unfolding seg_pages_def by fastforce
  show "xs = ?L @ ?R" by simp
  show "p + f p \<le> b" if p: "p \<in> set ?L" for p
    using set_takeWhileD [OF p] dis [of p] pos [of p] n by auto
  show "b + n \<le> p" if p: "p \<in> set ?R" for p
  proof -
    obtain r R' where R: "?R = r # R'" using p by (cases ?R) auto
    have "b \<le> r" using hd_dropWhile [of "\<lambda>p. p < b" xs] R by simp
    moreover have "r \<le> p"
      using segs_split_order(2) [of 0 f ?L r R' p] sg p unfolding R [symmetric] takeWhile_dropWhile_id
      by (auto simp: R)
    moreover have "p \<in> set xs" using set_dropWhileD [OF p] .
    ultimately show ?thesis using dis [of p] pos [of p] n by auto
  qed
qed

end
