(* ===== verification/Pmm.thy ===== *)
theory Pmm
  imports Lib_List Segments
begin

text \<open>
  The first-fit physical memory manager of src/ucore_os/kern/mm/default_pmm.c, with the page
  descriptors and flag macros of kern/mm/memlayout.h and the function table of kern/mm/pmm.h.

  A page descriptor is named by its page frame number, so \<open>base + n\<close> on pointers is addition
  on \<open>nat\<close>. The \<open>page_link\<close> ring of the free list is the HOL list it represents (Lib_List).
  \<open>property\<close> and \<open>nr_free\<close> count pages of one machine, at most \<open>npage\<close>, and cannot wrap.
\<close>

section \<open>Page descriptors\<close>

record page =
  pg_ref :: int
  pg_flags :: u32
  pg_property :: nat
  pg_pra_vaddr :: u32

definition PG_reserved :: nat where "PG_reserved = 0"
definition PG_property :: nat where "PG_property = 1"

definition SetPageReserved :: "page \<Rightarrow> page" where
  "SetPageReserved pg = pg\<lparr>pg_flags := Bit_Operations.set_bit PG_reserved (pg_flags pg)\<rparr>"

definition ClearPageReserved :: "page \<Rightarrow> page" where
  "ClearPageReserved pg = pg\<lparr>pg_flags := unset_bit PG_reserved (pg_flags pg)\<rparr>"

definition PageReserved :: "page \<Rightarrow> bool" where
  "PageReserved pg \<longleftrightarrow> bit (pg_flags pg) PG_reserved"

definition SetPageProperty :: "page \<Rightarrow> page" where
  "SetPageProperty pg = pg\<lparr>pg_flags := Bit_Operations.set_bit PG_property (pg_flags pg)\<rparr>"

definition ClearPageProperty :: "page \<Rightarrow> page" where
  "ClearPageProperty pg = pg\<lparr>pg_flags := unset_bit PG_property (pg_flags pg)\<rparr>"

definition PageProperty :: "page \<Rightarrow> bool" where
  "PageProperty pg \<longleftrightarrow> bit (pg_flags pg) PG_property"

definition set_page_ref :: "int \<Rightarrow> page \<Rightarrow> page" where
  "set_page_ref val pg = pg\<lparr>pg_ref := val\<rparr>"

lemmas flag_defs =
  PG_reserved_def PG_property_def SetPageReserved_def ClearPageReserved_def PageReserved_def
  SetPageProperty_def ClearPageProperty_def PageProperty_def set_page_ref_def

lemma flag_simps [simp]:
  "PageReserved (SetPageReserved pg)" "\<not> PageReserved (ClearPageReserved pg)"
  "PageReserved (SetPageProperty pg) = PageReserved pg"
  "PageReserved (ClearPageProperty pg) = PageReserved pg"
  "PageProperty (SetPageProperty pg)" "\<not> PageProperty (ClearPageProperty pg)"
  "PageProperty (SetPageReserved pg) = PageProperty pg"
  "PageProperty (ClearPageReserved pg) = PageProperty pg"
  "PageProperty (set_page_ref v pg) = PageProperty pg"
  "PageReserved (set_page_ref v pg) = PageReserved pg"
  "PageProperty (pg\<lparr>pg_property := n\<rparr>) = PageProperty pg"
  "PageReserved (pg\<lparr>pg_property := n\<rparr>) = PageReserved pg"
  "PageProperty (pg\<lparr>pg_ref := v\<rparr>) = PageProperty pg"
  "PageReserved (pg\<lparr>pg_ref := v\<rparr>) = PageReserved pg"
  "PageProperty (pg\<lparr>pg_pra_vaddr := a\<rparr>) = PageProperty pg"
  "PageReserved (pg\<lparr>pg_pra_vaddr := a\<rparr>) = PageReserved pg"
  "\<not> PageProperty (pg\<lparr>pg_flags := 0\<rparr>)" "\<not> PageReserved (pg\<lparr>pg_flags := 0\<rparr>)"
  "pg_property (SetPageProperty pg) = pg_property pg"
  "pg_property (ClearPageProperty pg) = pg_property pg"
  "pg_property (set_page_ref v pg) = pg_property pg"
  "pg_ref (SetPageProperty pg) = pg_ref pg" "pg_ref (ClearPageProperty pg) = pg_ref pg"
  "pg_ref (set_page_ref v pg) = v"
  "pg_pra_vaddr (SetPageProperty pg) = pg_pra_vaddr pg"
  "pg_pra_vaddr (ClearPageProperty pg) = pg_pra_vaddr pg"
  "pg_pra_vaddr (set_page_ref v pg) = pg_pra_vaddr pg"
  by (simp_all add: flag_defs bit_simps)

section \<open>The allocator\<close>

record phys_mem =
  pages :: "nat \<Rightarrow> page"
  npage :: nat
  free_list :: "nat list"
  nr_free :: nat

abbreviation block_size :: "phys_mem \<Rightarrow> nat \<Rightarrow> nat" where
  "block_size s p \<equiv> pg_property (pages s p)"

abbreviation upd_page :: "nat \<Rightarrow> (page \<Rightarrow> page) \<Rightarrow> phys_mem \<Rightarrow> phys_mem" where
  "upd_page p f s \<equiv> s\<lparr>pages := (pages s)(p := f (pages s p))\<rparr>"

definition default_init :: "phys_mem \<Rightarrow> phys_mem" where
  "default_init s = s\<lparr>free_list := [], nr_free := 0\<rparr>"

text \<open>The loop over the pages of the new block.\<close>

fun init_pages :: "nat \<Rightarrow> nat \<Rightarrow> phys_mem \<Rightarrow> phys_mem option" where
  "init_pages p 0 s = Some s"
| "init_pages p (Suc k) s = do {
     kassert (PageReserved (pages s p));
     init_pages (Suc p) k
       (upd_page p (\<lambda>pg. set_page_ref 0 (pg\<lparr>pg_flags := 0, pg_property := 0\<rparr>)) s)
   }"

definition default_init_memmap :: "nat \<Rightarrow> nat \<Rightarrow> phys_mem \<Rightarrow> phys_mem option" where
  "default_init_memmap base n s = do {
     kassert (n > 0);
     s1 \<leftarrow> init_pages base n s;
     let s2 = upd_page base (\<lambda>pg. SetPageProperty (pg\<lparr>pg_property := n\<rparr>)) s1;
     Some (s2\<lparr>nr_free := nr_free s2 + n, free_list := free_list s2 @ [base]\<rparr>)
   }"

text \<open>The first-fit search: the first block of the free list with at least \<open>n\<close> pages.\<close>

fun first_fit :: "nat \<Rightarrow> nat list \<Rightarrow> phys_mem \<Rightarrow> nat option" where
  "first_fit n [] s = None"
| "first_fit n (p # le) s = (if pg_property (pages s p) \<ge> n then Some p else first_fit n le s)"

definition default_alloc_pages :: "nat \<Rightarrow> phys_mem \<Rightarrow> (nat option \<times> phys_mem) option" where
  "default_alloc_pages n s = do {
     kassert (n > 0);
     if n > nr_free s then Some (None, s)
     else case first_fit n (free_list s) s of
       None \<Rightarrow> Some (None, s)
     | Some page \<Rightarrow>
         let s1 = (if pg_property (pages s page) > n
                   then (let p = page + n;
                             s' = upd_page p (\<lambda>pg. SetPageProperty
                                    (pg\<lparr>pg_property := pg_property (pages s page) - n\<rparr>)) s
                         in s'\<lparr>free_list := ins_after page p (free_list s')\<rparr>)
                   else s);
             s2 = s1\<lparr>free_list := remove1 page (free_list s1), nr_free := nr_free s1 - n\<rparr>
         in Some (Some page, upd_page page ClearPageProperty s2)
   }"

text \<open>The three loops of \<open>default_free_pages\<close>: resetting the pages, merging, and the position.\<close>

fun reset_pages :: "nat \<Rightarrow> nat \<Rightarrow> phys_mem \<Rightarrow> phys_mem option" where
  "reset_pages p 0 s = Some s"
| "reset_pages p (Suc k) s = do {
     kassert (\<not> PageReserved (pages s p) \<and> \<not> PageProperty (pages s p));
     reset_pages (Suc p) k (upd_page p (\<lambda>pg. set_page_ref 0 (pg\<lparr>pg_flags := 0\<rparr>)) s)
   }"

text \<open>
  The merge loop reads the successor of an entry before it unlinks the entry, so it visits the
  entries the list had at the start.
\<close>

fun merge_blocks :: "nat list \<Rightarrow> nat \<Rightarrow> phys_mem \<Rightarrow> nat \<times> phys_mem" where
  "merge_blocks [] base s = (base, s)"
| "merge_blocks (p # le) base s =
     (let size_of = (\<lambda>q. pg_property (pages s q)) in
      if base + size_of base = p then
        (let s1 = upd_page base (\<lambda>pg. pg\<lparr>pg_property := pg_property pg + size_of p\<rparr>) s;
             s2 = upd_page p ClearPageProperty s1
         in merge_blocks le base (s2\<lparr>free_list := remove1 p (free_list s2)\<rparr>))
      else if p + size_of p = base then
        (let s1 = upd_page p (\<lambda>pg. pg\<lparr>pg_property := pg_property pg + size_of base\<rparr>) s;
             s2 = upd_page base ClearPageProperty s1
         in merge_blocks le p (s2\<lparr>free_list := remove1 p (free_list s2)\<rparr>))
      else merge_blocks le base s)"

text \<open>The entry to insert before: \<open>Some None\<close> is the list head, i.e. the end of the list.\<close>

fun free_position :: "nat \<Rightarrow> nat list \<Rightarrow> nat option option" where
  "free_position e [] = Some None"
| "free_position e (p # le) =
     (if e \<le> p then do { kassert (e \<noteq> p); Some (Some p) } else free_position e le)"

definition default_free_pages :: "nat \<Rightarrow> nat \<Rightarrow> phys_mem \<Rightarrow> phys_mem option" where
  "default_free_pages base n s = do {
     kassert (n > 0);
     s1 \<leftarrow> reset_pages base n s;
     let s2 = upd_page base (\<lambda>pg. SetPageProperty (pg\<lparr>pg_property := n\<rparr>)) s1;
     let (base', s3) = merge_blocks (free_list s2) base s2;
     let s4 = s3\<lparr>nr_free := nr_free s3 + n\<rparr>;
     le \<leftarrow> free_position (base' + pg_property (pages s4 base')) (free_list s4);
     Some (s4\<lparr>free_list := (case le of None \<Rightarrow> free_list s4 @ [base']
                            | Some p \<Rightarrow> ins_before p base' (free_list s4))\<rparr>)
   }"

definition default_nr_free_pages :: "phys_mem \<Rightarrow> nat" where
  "default_nr_free_pages s = nr_free s"

text \<open>The function table of a memory manager.\<close>

record pmm_manager =
  pmm_init_mgr :: "phys_mem \<Rightarrow> phys_mem"
  pmm_init_memmap :: "nat \<Rightarrow> nat \<Rightarrow> phys_mem \<Rightarrow> phys_mem option"
  pmm_alloc_pages :: "nat \<Rightarrow> phys_mem \<Rightarrow> (nat option \<times> phys_mem) option"
  pmm_free_pages :: "nat \<Rightarrow> nat \<Rightarrow> phys_mem \<Rightarrow> phys_mem option"
  pmm_nr_free_pages :: "phys_mem \<Rightarrow> nat"

definition default_pmm_manager :: pmm_manager where
  "default_pmm_manager = \<lparr>pmm_init_mgr = default_init, pmm_init_memmap = default_init_memmap,
     pmm_alloc_pages = default_alloc_pages, pmm_free_pages = default_free_pages,
     pmm_nr_free_pages = default_nr_free_pages\<rparr>"

section \<open>The invariant\<close>

definition blocks :: "phys_mem \<Rightarrow> (nat \<times> nat) list" where
  "blocks s = seg_map (block_size s) (free_list s)"

definition free_set :: "phys_mem \<Rightarrow> nat set" where
  "free_set s = seg_pages (blocks s)"

definition pmm_inv :: "phys_mem \<Rightarrow> bool" where
  "pmm_inv s \<longleftrightarrow> segs 0 (blocks s) \<and> free_set s \<subseteq> {..<npage s} \<and> nr_free s = seg_sum (blocks s) \<and>
     (\<forall>p<npage s. PageProperty (pages s p) \<longleftrightarrow> p \<in> set (free_list s)) \<and>
     (\<forall>p\<in>free_set s. \<not> PageReserved (pages s p) \<and> pg_ref (pages s p) = 0)"

text \<open>Pages a caller may give back: a non-empty run in memory, in use and not reserved.\<close>

definition in_use :: "phys_mem \<Rightarrow> nat \<Rightarrow> nat \<Rightarrow> bool" where
  "in_use s p n \<longleftrightarrow> 0 < n \<and> p + n \<le> npage s \<and> {p..<p + n} \<inter> free_set s = {} \<and>
     (\<forall>q\<in>{p..<p + n}. \<not> PageReserved (pages s q))"

lemmas pmm_defs = blocks_def free_set_def pmm_inv_def

section \<open>Allocation\<close>

lemma first_fit_None: "first_fit n le s = None \<Longrightarrow> seg_alloc n (seg_map (block_size s) le) = None"
  by (induction le) (auto split: if_splits)

lemma first_fit_Some:
  "first_fit n le s = Some p \<Longrightarrow>
    \<exists>xs ys. le = xs @ p # ys \<and> p \<notin> set xs \<and> n \<le> block_size s p \<and>
      seg_alloc n (seg_map (block_size s) le) =
        Some (p, seg_map (block_size s) xs @
          (if n < block_size s p then [(p + n, block_size s p - n)] else []) @ seg_map (block_size s) ys)"
proof (induction le)
  case (Cons q le)
  show ?case
  proof (cases "n \<le> block_size s q")
    case True
    then show ?thesis using Cons.prems by (intro exI [of _ "[]"] exI [of _ le]) auto
  next
    case False
    then have "first_fit n le s = Some p" using Cons.prems by simp
    with Cons.IH obtain xs ys where le: "le = xs @ p # ys" "p \<notin> set xs" "n \<le> block_size s p"
      "seg_alloc n (seg_map (block_size s) le) =
        Some (p, seg_map (block_size s) xs @
          (if n < block_size s p then [(p + n, block_size s p - n)] else []) @ seg_map (block_size s) ys)"
      by blast
    have "q \<noteq> p" using False le(3) by auto
    then show ?thesis using False le
      by (intro exI [of _ "q # xs"] exI [of _ ys]) (simp del: map_append)
  qed
qed simp

lemma blocks_upd_other:
  "p \<notin> set le \<Longrightarrow> seg_map (\<lambda>q. pg_property ((f(p := pg)) q)) le = seg_map (\<lambda>q. pg_property (f q)) le"
  by (induction le) auto

lemma seg_alloc_le_sum: "seg_alloc n bs = Some r \<Longrightarrow> n \<le> seg_sum bs"
  by (induction n bs arbitrary: r rule: seg_alloc.induct) (auto split: if_splits)

lemma seg_alloc_sum: "seg_alloc n bs = Some (p, bs') \<Longrightarrow> seg_sum bs' = seg_sum bs - n"
proof (induction n bs arbitrary: p bs' rule: seg_alloc.induct)
  case (2 n a m bs)
  then show ?case using seg_alloc_le_sum [of n bs] by (fastforce split: if_splits)
qed simp

lemma alloc_refines_None:
  assumes "pmm_inv s" and "0 < n" and "seg_alloc n (blocks s) = None"
  shows "default_alloc_pages n s = Some (None, s)"
proof (cases "first_fit n (free_list s) s")
  case (Some p)
  then show ?thesis using first_fit_Some [OF Some] assms(3) by (auto simp: blocks_def)
qed (simp add: default_alloc_pages_def assms(2))

text \<open>The changes an allocation of \<open>n\<close> pages at \<open>p\<close> makes, apart from those to the list of blocks.\<close>

definition alloc_effect :: "nat \<Rightarrow> nat \<Rightarrow> phys_mem \<Rightarrow> phys_mem \<Rightarrow> bool" where
  "alloc_effect p n s s' \<longleftrightarrow> nr_free s' = nr_free s - n \<and> npage s' = npage s \<and>
     (\<forall>q. PageReserved (pages s' q) = PageReserved (pages s q)) \<and>
     (\<forall>q. pg_ref (pages s' q) = pg_ref (pages s q)) \<and>
     (\<forall>q. pg_pra_vaddr (pages s' q) = pg_pra_vaddr (pages s q)) \<and>
     (\<forall>q. PageProperty (pages s' q) \<longleftrightarrow>
        q \<noteq> p \<and> (PageProperty (pages s q) \<or> q = p + n \<and> n < block_size s p))"

lemma alloc_refines_Some:
  assumes inv: "pmm_inv s" and n: "0 < n" and seg: "seg_alloc n (blocks s) = Some (p, bs)"
  shows "\<exists>s'. default_alloc_pages n s = Some (Some p, s') \<and> blocks s' = bs \<and> alloc_effect p n s s'"
proof -
  obtain q where "first_fit n (free_list s) s = Some q"
    using seg first_fit_None by (cases "first_fit n (free_list s) s") (auto simp: blocks_def)
  then obtain xs ys where q: "first_fit n (free_list s) s = Some q"
    and fl: "free_list s = xs @ q # ys" "q \<notin> set xs" "n \<le> block_size s q"
    and seg': "seg_alloc n (blocks s) = Some (q, seg_map (block_size s) xs @
      (if n < block_size s q then [(q + n, block_size s q - n)] else []) @ seg_map (block_size s) ys)"
    using first_fit_Some [of n "free_list s" s q] unfolding blocks_def by blast
  have qp: "q = p" using seg seg' by simp
  note ff = q [unfolded qp] and fl = fl [unfolded qp]
  have bs: "bs = seg_map (block_size s) xs @
      (if n < block_size s p then [(p + n, block_size s p - n)] else []) @ seg_map (block_size s) ys"
    using seg seg' unfolding qp by simp
  have segs: "segs 0 (seg_map (block_size s) (xs @ p # ys))" and "\<not> nr_free s < n"
    using inv seg_alloc_le_sum [OF seg] fl(1) by (simp_all add: pmm_defs)
  then have ord: "p \<notin> set ys" "n < block_size s p \<Longrightarrow> p + n \<notin> set (xs @ ys)" "p + n \<noteq> p"
    using segs_split_order [OF segs] n by (auto, force+)
  show ?thesis
    using ord fl ff n \<open>\<not> nr_free s < n\<close> bs
    by (cases "n < block_size s p")
      (auto simp: default_alloc_pages_def Let_def blocks_def alloc_effect_def ins_after_split
        remove1_append blocks_upd_other)
qed

text \<open>The heads of the blocks in terms of the block list.\<close>

lemma set_free_list: "set (free_list s) = fst ` set (blocks s)"
  by (force simp: blocks_def)

lemma seg_alloc_starts:
  "segs lo bs \<Longrightarrow> seg_alloc n bs = Some (p, bs') \<Longrightarrow> 0 < n \<Longrightarrow>
    \<exists>m. (p, m) \<in> set bs \<and> fst ` set bs' = (fst ` set bs - {p}) \<union> (if n < m then {p + n} else {})"
proof (induction n bs arbitrary: lo p bs' rule: seg_alloc.induct)
  case (2 n a m bs)
  have s: "segs (Suc (a + m)) bs" using 2(2) by simp
  have hd: "a \<notin> fst ` set bs" using segs_pages_ge [OF s] segs_start_in [OF s] by fastforce
  show ?case
  proof (cases "n \<le> m")
    case True
    then show ?thesis using 2(3) hd by (intro exI [of _ m]) (auto split: if_splits)
  next
    case False
    then obtain q where q: "seg_alloc n bs = Some (p, q)" "bs' = (a, m) # q" using 2(3) by auto
    with 2(1) [OF False s q(1) 2(4)] obtain k
      where k: "(p, k) \<in> set bs" "fst ` set q = (fst ` set bs - {p}) \<union> (if n < k then {p + n} else {})"
      by blast
    moreover have "p \<noteq> a" using hd k(1) by force
    ultimately show ?thesis using q(2) by (intro exI [of _ k]) auto
  qed
qed simp

lemma alloc_inv:
  assumes inv: "pmm_inv s" and n: "0 < n" and seg: "seg_alloc n (blocks s) = Some (p, bs)"
    and s': "blocks s' = bs" "alloc_effect p n s s'"
  shows "pmm_inv s'"
proof -
  have segs: "segs 0 (blocks s)" using inv by (simp add: pmm_inv_def)
  have fs: "{p..<p + n} \<subseteq> free_set s" "free_set s' = free_set s - {p..<p + n}"
    using seg_alloc_pages [OF segs n seg] s'(1) by (simp_all add: free_set_def)
  obtain m where m: "(p, m) \<in> set (blocks s)"
    "set (free_list s') = (set (free_list s) - {p}) \<union> (if n < m then {p + n} else {})"
    using seg_alloc_starts [OF segs seg n] s'(1) by (auto simp: set_free_list)
  have "m = block_size s p" using m(1) by (auto simp: blocks_def)
  then show ?thesis
    using inv fs m(2) s' n seg_alloc_segs [OF segs n seg] seg_alloc_sum [OF seg]
    by (auto simp: pmm_inv_def alloc_effect_def)
qed

lemma alloc_total:
  assumes "pmm_inv s" and "0 < n"
  shows "default_alloc_pages n s \<noteq> None"
  using alloc_refines_None [OF assms] alloc_refines_Some [OF assms]
  by (cases "seg_alloc n (blocks s)") auto

lemma alloc_SomeD:
  assumes inv: "pmm_inv s" and n: "0 < n" and al: "default_alloc_pages n s = Some (Some p, s')"
  shows "pmm_inv s' \<and> {p..<p + n} \<subseteq> free_set s \<and> free_set s' = free_set s - {p..<p + n} \<and>
    alloc_effect p n s s' \<and> seg_alloc n (blocks s) = Some (p, blocks s')"
proof -
  obtain bs where seg: "seg_alloc n (blocks s) = Some (p, bs)" and bs: "blocks s' = bs"
    and eff: "alloc_effect p n s s'"
  proof (cases "seg_alloc n (blocks s)")
    case None
    then show ?thesis using alloc_refines_None [OF inv n] al by simp
  next
    case (Some r)
    obtain p' bs' where "r = (p', bs')" by (cases r)
    then show ?thesis using alloc_refines_Some [OF inv n, of p' bs'] Some al that by auto
  qed
  have "segs 0 (blocks s)" using inv by (simp add: pmm_inv_def)
  from seg_alloc_pages [OF this n seg] alloc_inv [OF inv n seg bs eff] eff seg
  show ?thesis by (simp add: free_set_def bs)
qed

lemma alloc_NoneD:
  assumes inv: "pmm_inv s" and n: "0 < n" and al: "default_alloc_pages n s = Some (None, s')"
  shows "s' = s \<and> (\<nexists>p. {p..<p + n} \<subseteq> free_set s)"
proof -
  have seg: "seg_alloc n (blocks s) = None"
    using alloc_refines_Some [OF inv n] al by (cases "seg_alloc n (blocks s)") auto
  moreover have "segs 0 (blocks s)" using inv by (simp add: pmm_inv_def)
  ultimately show ?thesis
    using seg_alloc_complete [of 0 "blocks s" n] alloc_refines_None [OF inv n seg] al n
    by (simp add: free_set_def)
qed

section \<open>Freeing\<close>

text \<open>
  The free list while a block at \<open>b\<close> is being given back: the blocks \<open>L\<close> below it and \<open>R\<close> above it.
\<close>

definition between :: "nat list \<Rightarrow> nat list \<Rightarrow> nat \<Rightarrow> phys_mem \<Rightarrow> bool" where
  "between L R b s \<longleftrightarrow> free_list s = L @ R \<and> 0 < block_size s b \<and>
     segs 0 (seg_map (block_size s) L) \<and> segs 0 (seg_map (block_size s) R) \<and>
     (\<forall>x\<in>set L. x + block_size s x \<le> b) \<and> (\<forall>y\<in>set R. b + block_size s b \<le> y) \<and>
     (\<forall>q<npage s. PageProperty (pages s q) \<longleftrightarrow> q \<in> set (L @ b # R))"

definition merge_keeps :: "phys_mem \<Rightarrow> phys_mem \<Rightarrow> bool" where
  "merge_keeps s s' \<longleftrightarrow> nr_free s' = nr_free s \<and> npage s' = npage s \<and>
     (\<forall>q. PageReserved (pages s' q) = PageReserved (pages s q)) \<and>
     (\<forall>q. pg_ref (pages s' q) = pg_ref (pages s q)) \<and>
     (\<forall>q. pg_pra_vaddr (pages s' q) = pg_pra_vaddr (pages s q))"

lemma merge_keeps_refl [simp]: "merge_keeps s s"
  by (simp add: merge_keeps_def)

lemma merge_keeps_trans: "merge_keeps s s' \<Longrightarrow> merge_keeps s' s'' \<Longrightarrow> merge_keeps s s''"
  by (simp add: merge_keeps_def)

lemma merge_skip:
  "\<forall>p\<in>set xs. b + block_size s b \<noteq> p \<and> p + block_size s p \<noteq> b \<Longrightarrow>
    merge_blocks (xs @ ys) b s = merge_blocks ys b s"
  by (induction xs) simp_all

lemma seg_free_skip:
  "\<forall>(a, m)\<in>set bs. a + m < b \<Longrightarrow> seg_free b n (bs @ cs) = bs @ seg_free b n cs"
  by (induction bs) auto

lemma seg_free_above: "\<forall>(a, m)\<in>set cs. b + n < a \<Longrightarrow> seg_free b n cs = (b, n) # cs"
  by (cases cs) auto

lemma between_above:
  assumes "between L R b s" and "y \<in> set R" and "r \<in> set R" and "r < y"
  shows "r + block_size s r < y"
  using assms segs_apart [of 0 "seg_map (block_size s) R" r "block_size s r" y "block_size s y"]
  by (auto simp: between_def)

lemma merge_right_none:
  assumes b: "between L R b s" and ne: "\<forall>y\<in>set R. b + block_size s b \<noteq> y"
  shows "merge_blocks R b s = (b, s)"
    and "seg_free b (block_size s b) (seg_map (block_size s) R) = seg_map (block_size s) (b # R)"
proof -
  have lt: "\<forall>y\<in>set R. b + block_size s b < y" using b ne by (force simp: between_def)
  then have "\<forall>p\<in>set R. b + block_size s b \<noteq> p \<and> p + block_size s p \<noteq> b" by fastforce
  from merge_skip [OF this, of "[]"] show "merge_blocks R b s = (b, s)" by simp
  show "seg_free b (block_size s b) (seg_map (block_size s) R) = seg_map (block_size s) (b # R)"
    using lt by (subst seg_free_above) auto
qed

lemma merge_right:
  assumes b: "between L R b s"
  shows "\<exists>R' s'. merge_blocks R b s = (b, s') \<and> between L R' b s' \<and> merge_keeps s s' \<and>
    (\<forall>y\<in>set R'. b + block_size s' b < y) \<and> (\<forall>x\<in>set L. block_size s' x = block_size s x) \<and>
    seg_free b (block_size s b) (seg_map (block_size s) R) = seg_map (block_size s') (b # R')"
proof (cases "R \<noteq> [] \<and> hd R = b + block_size s b")
  case False
  have "\<forall>y\<in>set R. b + block_size s b \<noteq> y"
  proof
    fix y assume y: "y \<in> set R"
    then obtain r R' where R: "R = r # R'" by (cases R) auto
    have "b + block_size s b < r" using False b by (auto simp: R between_def)
    moreover have "r \<le> y" using segs_split_order(2) [of 0 "block_size s" "[]" r R' y] b y
      by (auto simp: R between_def)
    ultimately show "b + block_size s b \<noteq> y" by simp
  qed
  from merge_right_none [OF b this] b this show ?thesis
    by (intro exI [of _ R] exI [of _ s]) (fastforce simp: between_def)
next
  case True
  then obtain R' where R: "R = (b + block_size s b) # R'" by (cases R) auto
  let ?r = "b + block_size s b"
  let ?s1 = "upd_page b (\<lambda>pg. pg\<lparr>pg_property := pg_property pg + block_size s ?r\<rparr>) s"
  let ?s2 = "upd_page ?r ClearPageProperty ?s1"
  let ?s' = "?s2\<lparr>free_list := remove1 ?r (free_list ?s2)\<rparr>"
  have pos: "0 < block_size s b" using b by (simp add: between_def)
  have above: "?r + block_size s ?r < y" if "y \<in> set R'" for y
    using segs_split_order(2) [of 0 "block_size s" "[]" ?r R' y] b that by (simp add: R between_def)
  have L: "x < b" if "x \<in> set L" for x
    using b that segs_pos [of 0 "block_size s" L x] by (fastforce simp: between_def)
  have notin: "?r \<notin> set L" "?r \<notin> set R'" "b \<notin> set R'" "b \<notin> set L"
    using L above pos by fastforce+
  have sz: "seg_map (block_size ?s') L = seg_map (block_size s) L"
    "seg_map (block_size ?s') R' = seg_map (block_size s) R'"
    "block_size ?s' b = block_size s b + block_size s ?r"
    using notin pos by (auto intro!: map_cong)
  have "merge_blocks R b s = merge_blocks R' b ?s'" by (simp add: R Let_def)
  moreover have bt: "between L R' b ?s'"
    unfolding between_def
  proof (intro conjI)
    show "segs 0 (seg_map (block_size ?s') L)" "segs 0 (seg_map (block_size ?s') R')"
      using b segs_mono by (simp_all only: sz) (auto simp: between_def R)
    show "\<forall>x\<in>set L. x + block_size ?s' x \<le> b" "\<forall>y\<in>set R'. b + block_size ?s' b \<le> y"
      using b notin above pos by (auto simp: between_def R) fastforce
  qed (use b notin pos in \<open>auto simp: between_def R remove1_append\<close>)
  moreover have ne: "\<forall>y\<in>set R'. b + block_size ?s' b < y" using above by (simp only: sz) (simp add: add.assoc)
  moreover note merge_right_none [OF bt]
  moreover have "seg_free b (block_size s b) (seg_map (block_size s) R) = seg_map (block_size ?s') (b # R')"
    by (simp only: list.map sz R) (simp del: fun_upd_apply)
  ultimately show ?thesis
    by (intro exI [of _ R'] exI [of _ ?s']) (use notin pos in \<open>auto simp: merge_keeps_def\<close>)
qed

text \<open>Below \<open>b\<close> only the last block can be adjacent; if it is, it swallows the block at \<open>b\<close>.\<close>

lemma merge_left_none:
  assumes b: "between L R b s" and lt: "\<forall>x\<in>set L. x + block_size s x < b"
  shows "merge_blocks (L @ R) b s = merge_blocks R b s"
    and "seg_free b (block_size s b) (seg_map (block_size s) (L @ R)) =
      seg_map (block_size s) L @ seg_free b (block_size s b) (seg_map (block_size s) R)"
proof -
  have "\<forall>p\<in>set L. b + block_size s b \<noteq> p \<and> p + block_size s p \<noteq> b" using lt by fastforce
  from merge_skip [OF this] show "merge_blocks (L @ R) b s = merge_blocks R b s" .
  show "seg_free b (block_size s b) (seg_map (block_size s) (L @ R)) =
      seg_map (block_size s) L @ seg_free b (block_size s b) (seg_map (block_size s) R)"
    using seg_free_skip [of "seg_map (block_size s) L" b] lt by auto
qed

lemma merge_left_join:
  assumes b: "between (L @ [l]) R b s" and l: "l + block_size s l = b"
  shows "\<exists>s'. merge_blocks ((L @ [l]) @ R) b s = merge_blocks R l s' \<and> between L R l s' \<and>
    merge_keeps s s' \<and> (\<forall>x\<in>set L. x + block_size s' x < l) \<and>
    seg_free b (block_size s b) (seg_map (block_size s) ((L @ [l]) @ R)) =
      seg_map (block_size s') L @ seg_free l (block_size s' l) (seg_map (block_size s') R)"
proof -
  let ?s1 = "upd_page l (\<lambda>pg. pg\<lparr>pg_property := pg_property pg + block_size s b\<rparr>) s"
  let ?s2 = "upd_page b ClearPageProperty ?s1"
  let ?s' = "?s2\<lparr>free_list := remove1 l (free_list ?s2)\<rparr>"
  have segL: "segs 0 (seg_map (block_size s) (L @ [l]))" using b by (simp add: between_def)
  have pos: "0 < block_size s b" "0 < block_size s l"
    using b segs_pos [OF segL, of l] by (simp_all add: between_def)
  have below: "x + block_size s x < l" if "x \<in> set L" for x
    using segs_split_order(1) [of 0 "block_size s" L l "[]" x] segL that by simp
  have R: "b + block_size s b \<le> y" if "y \<in> set R" for y using b that by (simp add: between_def)
  have notin: "l \<notin> set L" "b \<notin> set L" "l \<notin> set R" "b \<notin> set R" "l \<noteq> b"
    using below R pos l by fastforce+
  have sz: "seg_map (block_size ?s') L = seg_map (block_size s) L"
    "seg_map (block_size ?s') R = seg_map (block_size s) R"
    "block_size ?s' l = block_size s l + block_size s b"
    using notin by (auto intro!: map_cong)
  have "\<forall>p\<in>set L. b + block_size s b \<noteq> p \<and> p + block_size s p \<noteq> b" using below l pos by fastforce
  from merge_skip [OF this, of "l # R"]
  have "merge_blocks ((L @ [l]) @ R) b s = merge_blocks R l ?s'" using l pos by (auto simp: Let_def)
  moreover have "between L R l ?s'"
    unfolding between_def
  proof (intro conjI)
    show "segs 0 (seg_map (block_size ?s') L)" "segs 0 (seg_map (block_size ?s') R)"
      using b segL unfolding sz by (auto simp: between_def segs_append)
    show "\<forall>x\<in>set L. x + block_size ?s' x \<le> l" "\<forall>y\<in>set R. l + block_size ?s' l \<le> y"
      using below notin R l by auto (fastforce simp: add.assoc [symmetric])+
  qed (use b notin pos in \<open>auto simp: between_def remove1_append\<close>)
  moreover have "\<forall>x\<in>set L. x + block_size ?s' x < l" using below notin by auto
  moreover have "seg_free b (block_size s b) (seg_map (block_size s) ((L @ [l]) @ R)) =
      seg_map (block_size s) L @ seg_free b (block_size s b) (seg_map (block_size s) (l # R))"
    using below l seg_free_skip [of "seg_map (block_size s) L" b] by fastforce
  moreover have "\<dots> = seg_map (block_size ?s') L @ seg_free l (block_size ?s' l) (seg_map (block_size ?s') R)"
    unfolding sz using l pos by simp
  ultimately show ?thesis
    by (intro exI [of _ ?s']) (use notin in \<open>auto simp: merge_keeps_def\<close>)
qed

lemma merge_left:
  assumes b: "between L R b s"
  shows "\<exists>L' b' s'. merge_blocks (L @ R) b s = merge_blocks R b' s' \<and> between L' R b' s' \<and>
    merge_keeps s s' \<and> (\<forall>x\<in>set L'. x + block_size s' x < b') \<and>
    seg_free b (block_size s b) (seg_map (block_size s) (L @ R)) =
      seg_map (block_size s') L' @ seg_free b' (block_size s' b') (seg_map (block_size s') R)"
proof (cases "L \<noteq> [] \<and> last L + block_size s (last L) = b")
  case True
  then obtain L' l where L: "L = L' @ [l]" by (cases L rule: rev_cases) auto
  then have "l + block_size s l = b" using True by simp
  from merge_left_join [OF b [unfolded L] this] show ?thesis unfolding L by blast
next
  case False
  have "\<forall>x\<in>set L. x + block_size s x < b"
  proof
    fix x assume x: "x \<in> set L"
    then obtain L' l where L: "L = L' @ [l]" by (cases L rule: rev_cases) auto
    have "l + block_size s l < b" using False b by (auto simp: L between_def)
    moreover have "x = l \<or> x + block_size s x < l"
      using segs_split_order(1) [of 0 "block_size s" L' l "[]" x] b x by (auto simp: L between_def)
    ultimately show "x + block_size s x < b" by auto
  qed
  with merge_left_none [OF b this] b show ?thesis by (intro exI [of _ L] exI [of _ b] exI [of _ s]) simp
qed

lemma free_position_ge: "free_position e le = Some (Some x) \<Longrightarrow> e \<le> x"
  by (induction e le rule: free_position.induct) (auto split: if_splits)

lemma free_position_at:
  assumes "\<forall>x\<in>set L. x < e" and "\<forall>y\<in>set R. e < y"
  shows "\<exists>le. free_position e (L @ R) = Some le \<and>
    (case le of None \<Rightarrow> (L @ R) @ [b] | Some p \<Rightarrow> ins_before p b (L @ R)) = L @ b # R"
  using assms(1)
proof (induction L)
  case Nil
  then show ?case using assms(2) by (cases R) auto
next
  case (Cons x L)
  then obtain le where le: "free_position e (L @ R) = Some le"
    "(case le of None \<Rightarrow> (L @ R) @ [b] | Some p \<Rightarrow> ins_before p b (L @ R)) = L @ b # R" by auto
  have "le \<noteq> Some x"
    using le(1) free_position_ge [of e "L @ R" x] Cons.prems by auto
  then show ?case using le Cons.prems by (intro exI [of _ le]) (auto split: option.splits)
qed

lemma reset_pages_eq:
  "\<forall>q\<in>{p..<p + k}. \<not> PageReserved (pages s q) \<and> \<not> PageProperty (pages s q) \<Longrightarrow>
    reset_pages p k s = Some (s\<lparr>pages := \<lambda>q. if p \<le> q \<and> q < p + k
      then set_page_ref 0 ((pages s q)\<lparr>pg_flags := 0\<rparr>) else pages s q\<rparr>)"
proof (induction k arbitrary: p s)
  case (Suc k)
  let ?s = "upd_page p (\<lambda>pg. set_page_ref 0 (pg\<lparr>pg_flags := 0\<rparr>)) s"
  have "\<forall>q\<in>{Suc p..<Suc p + k}. \<not> PageReserved (pages ?s q) \<and> \<not> PageProperty (pages ?s q)"
    using Suc.prems by simp
  from Suc.IH [OF this] show ?case
    using Suc.prems by (auto intro!: phys_mem.equality ext)
qed (auto intro!: phys_mem.equality ext)

definition free_effect :: "nat \<Rightarrow> nat \<Rightarrow> phys_mem \<Rightarrow> phys_mem \<Rightarrow> bool" where
  "free_effect b n s s' \<longleftrightarrow> nr_free s' = nr_free s + n \<and> npage s' = npage s \<and>
     (\<forall>q. PageReserved (pages s' q) = PageReserved (pages s q)) \<and>
     (\<forall>q. pg_ref (pages s' q) = (if b \<le> q \<and> q < b + n then 0 else pg_ref (pages s q))) \<and>
     (\<forall>q. pg_pra_vaddr (pages s' q) = pg_pra_vaddr (pages s q))"

text \<open>The state once the pages are reset and the new block has its head.\<close>

abbreviation with_head :: "nat \<Rightarrow> nat \<Rightarrow> phys_mem \<Rightarrow> phys_mem" where
  "with_head b n s \<equiv> upd_page b (\<lambda>pg. SetPageProperty (pg\<lparr>pg_property := n\<rparr>)) s"

lemma free_reset:
  assumes inv: "pmm_inv s" and use: "in_use s b n"
  shows "\<exists>s1 L R. reset_pages b n s = Some s1 \<and> free_list s = L @ R \<and>
    between L R b (with_head b n s1) \<and>
    seg_map (block_size (with_head b n s1)) (L @ R) = blocks s \<and>
    free_effect b n s (s1\<lparr>nr_free := nr_free s1 + n\<rparr>)"
proof -
  have segs: "segs 0 (blocks s)" using inv by (simp add: pmm_inv_def)
  have heads: "p \<in> free_set s" if "p \<in> set (free_list s)" for p
    using segs_start_in [OF segs] that by (auto simp: free_set_def set_free_list)
  have use': "\<forall>q\<in>{b..<b + n}. \<not> PageReserved (pages s q) \<and> \<not> PageProperty (pages s q)"
    using use inv heads unfolding in_use_def pmm_inv_def by fastforce
  define s1 where "s1 = s\<lparr>pages := \<lambda>q. if b \<le> q \<and> q < b + n
      then set_page_ref 0 ((pages s q)\<lparr>pg_flags := 0\<rparr>) else pages s q\<rparr>"
  let ?s2 = "with_head b n s1"
  have n: "0 < n" "b + n \<le> npage s" using use by (simp_all add: in_use_def)
  have "{b..<b + n} \<inter> seg_pages (seg_map (block_size s) (free_list s)) = {}"
    using use by (simp add: in_use_def free_set_def blocks_def)
  from segs_around [OF segs [unfolded blocks_def] n(1) this]
  obtain L R where LR: "free_list s = L @ R" and bL: "\<And>x. x \<in> set L \<Longrightarrow> x + block_size s x \<le> b"
    and bR: "\<And>y. y \<in> set R \<Longrightarrow> b + n \<le> y" by blast
  have sg: "segs 0 (seg_map (block_size s) (L @ R))" using segs by (simp add: blocks_def LR)
  have b: "b \<notin> set (L @ R)" using bL bR segs_pos [OF sg] n by fastforce
  then have sz: "seg_map (block_size ?s2) xs = seg_map (block_size s) xs" if "set xs \<subseteq> set (L @ R)" for xs
    using that by (auto simp: s1_def intro!: map_cong)
  have "between L R b ?s2"
    unfolding between_def
  proof (intro conjI)
    show "segs 0 (seg_map (block_size ?s2) L)" "segs 0 (seg_map (block_size ?s2) R)"
      using sg segs_mono by (simp_all only: sz set_append Un_upper1 Un_upper2) (auto simp: segs_append)
    show "\<forall>x\<in>set L. x + block_size ?s2 x \<le> b" "\<forall>y\<in>set R. b + block_size ?s2 b \<le> y"
      using bL bR b by (auto simp: s1_def)
    show "\<forall>q<npage ?s2. PageProperty (pages ?s2 q) \<longleftrightarrow> q \<in> set (L @ b # R)"
      using inv use' by (auto simp: s1_def pmm_inv_def LR)
  qed (use n in \<open>auto simp: s1_def LR\<close>)
  moreover have "free_effect b n s (s1\<lparr>nr_free := nr_free s1 + n\<rparr>)"
    using use' by (auto simp: free_effect_def s1_def)
  ultimately show ?thesis
    using reset_pages_eq [OF use'] sz [of "L @ R"] LR
    by (intro exI [of _ s1] exI [of _ L] exI [of _ R]) (simp add: s1_def [symmetric] blocks_def)
qed

lemma free_merged:
  assumes m: "merge_blocks (L @ R) b s2 = (b', s3)" and bt: "between L R b s2"
  shows "\<exists>L' R'. free_list s3 = L' @ R' \<and> between L' R' b' s3 \<and> merge_keeps s2 s3 \<and>
    (\<forall>x\<in>set L'. x < b' + block_size s3 b') \<and> (\<forall>y\<in>set R'. b' + block_size s3 b' < y) \<and>
    seg_map (block_size s3) (L' @ b' # R') = seg_free b (block_size s2 b) (seg_map (block_size s2) (L @ R))"
proof -
  from merge_left [OF bt] obtain L' b1 s1 where left: "merge_blocks (L @ R) b s2 = merge_blocks R b1 s1"
    "between L' R b1 s1" "merge_keeps s2 s1" "\<forall>x\<in>set L'. x + block_size s1 x < b1"
    "seg_free b (block_size s2 b) (seg_map (block_size s2) (L @ R)) =
      seg_map (block_size s1) L' @ seg_free b1 (block_size s1 b1) (seg_map (block_size s1) R)" by blast
  from merge_right [OF left(2)] obtain R' s' where right: "merge_blocks R b1 s1 = (b1, s')"
    "between L' R' b1 s'" "merge_keeps s1 s'" "\<forall>y\<in>set R'. b1 + block_size s' b1 < y"
    "\<forall>x\<in>set L'. block_size s' x = block_size s1 x"
    "seg_free b1 (block_size s1 b1) (seg_map (block_size s1) R) = seg_map (block_size s') (b1 # R')" by blast
  have e: "b' = b1" "s3 = s'" using m left(1) right(1) by auto
  have "seg_map (block_size s') L' = seg_map (block_size s1) L'" using right(5) by simp
  moreover have "\<forall>x\<in>set L'. x < b1 + block_size s' b1" using left(4) by fastforce
  moreover have "free_list s' = L' @ R'" using right(2) by (simp add: between_def)
  ultimately show ?thesis
    using right(2,4,6) left(5) merge_keeps_trans [OF left(3) right(3)] unfolding e
    by (intro exI [of _ L'] exI [of _ R']) simp
qed

lemma free_refines:
  assumes inv: "pmm_inv s" and use: "in_use s b n"
  shows "\<exists>s'. default_free_pages b n s = Some s' \<and> blocks s' = seg_free b n (blocks s) \<and>
    free_effect b n s s' \<and> (\<forall>q<npage s'. PageProperty (pages s' q) \<longleftrightarrow> q \<in> set (free_list s'))"
proof -
  from free_reset [OF inv use] obtain s1 L R where r: "reset_pages b n s = Some s1" "free_list s = L @ R"
    and bt: "between L R b (with_head b n s1)"
    and bs: "seg_map (block_size (with_head b n s1)) (L @ R) = blocks s"
    and eff: "free_effect b n s (s1\<lparr>nr_free := nr_free s1 + n\<rparr>)" by blast
  let ?s2 = "with_head b n s1"
  obtain b' s3 where m: "merge_blocks (L @ R) b ?s2 = (b', s3)" by fastforce
  from free_merged [OF m bt] obtain L' R' where fl: "free_list s3 = L' @ R'" and bt': "between L' R' b' s3"
    and k: "merge_keeps ?s2 s3"
    and pos: "\<forall>x\<in>set L'. x < b' + block_size s3 b'" "\<forall>y\<in>set R'. b' + block_size s3 b' < y"
    and sf: "seg_map (block_size s3) (L' @ b' # R') = seg_free b (block_size ?s2 b) (seg_map (block_size ?s2) (L @ R))"
    by blast
  from free_position_at [OF pos, of b'] obtain le where
    le: "free_position (b' + block_size s3 b') (L' @ R') = Some le"
      "(case le of None \<Rightarrow> (L' @ R') @ [b'] | Some p \<Rightarrow> ins_before p b' (L' @ R')) = L' @ b' # R'"
    by blast
  let ?s' = "s3\<lparr>nr_free := nr_free s3 + n, free_list := L' @ b' # R'\<rparr>"
  have fl2: "free_list ?s2 = L @ R" using bt by (simp add: between_def)
  have "0 < n" using use by (simp add: in_use_def)
  then have "default_free_pages b n s = Some ?s'"
    unfolding default_free_pages_def using r(1) m fl fl2 le by (cases le) (simp_all add: Let_def)
  moreover have "blocks ?s' = seg_free b n (blocks s)"
    using sf unfolding bs by (simp add: blocks_def)
  moreover have "free_effect b n s ?s'"
    using eff k by (auto simp: free_effect_def merge_keeps_def fun_upd_apply split: if_splits)
  moreover have "\<forall>q<npage ?s'. PageProperty (pages ?s' q) \<longleftrightarrow> q \<in> set (free_list ?s')"
    using bt' by (simp add: between_def)
  ultimately show ?thesis by blast
qed

lemma free_ok:
  assumes inv: "pmm_inv s" and use: "in_use s b n"
  shows "\<exists>s'. default_free_pages b n s = Some s' \<and> pmm_inv s' \<and> free_set s' = free_set s \<union> {b..<b + n} \<and>
    free_effect b n s s' \<and> blocks s' = seg_free b n (blocks s)"
proof -
  from free_refines [OF inv use] obtain s' where s': "default_free_pages b n s = Some s'"
    "blocks s' = seg_free b n (blocks s)" "free_effect b n s s'"
    "\<forall>q<npage s'. PageProperty (pages s' q) \<longleftrightarrow> q \<in> set (free_list s')" by blast
  have n: "0 < n" "{b..<b + n} \<inter> seg_pages (blocks s) = {}" and bound: "b + n \<le> npage s"
    and res: "\<forall>q\<in>{b..<b + n}. \<not> PageReserved (pages s q)"
    using use by (simp_all add: in_use_def free_set_def)
  have segs: "segs 0 (blocks s)" and cnt: "nr_free s = seg_sum (blocks s)"
    using inv by (simp_all add: pmm_inv_def)
  have fs: "free_set s' = free_set s \<union> {b..<b + n}"
    using n(1) by (simp add: free_set_def s'(2) Un_commute)
  have "segs 0 (blocks s')" using seg_free_segs [OF segs _ n] by (simp add: s'(2))
  moreover have "nr_free s' = seg_sum (blocks s')"
    using s'(3) by (simp add: s'(2) seg_free_sum free_effect_def cnt)
  moreover have "free_set s' \<subseteq> {..<npage s'}"
    using inv bound s'(3) unfolding fs pmm_inv_def free_effect_def by fastforce
  moreover have "\<forall>p\<in>free_set s'. \<not> PageReserved (pages s' p) \<and> pg_ref (pages s' p) = 0"
    using inv res s'(3) unfolding fs pmm_inv_def free_effect_def by auto
  ultimately have "pmm_inv s'" using s'(4) by (simp add: pmm_inv_def)
  then show ?thesis using s' fs by blast
qed

section \<open>The contract of a memory manager\<close>

text \<open>What an operation leaves alone in the page descriptors outside \<open>S\<close>.\<close>

definition pages_kept :: "nat set \<Rightarrow> phys_mem \<Rightarrow> phys_mem \<Rightarrow> bool" where
  "pages_kept S s s' \<longleftrightarrow> npage s' = npage s \<and>
     (\<forall>q. PageReserved (pages s' q) = PageReserved (pages s q) \<and>
          pg_pra_vaddr (pages s' q) = pg_pra_vaddr (pages s q) \<and>
          (q \<notin> S \<longrightarrow> pg_ref (pages s' q) = pg_ref (pages s q)))"

definition releasable :: "(phys_mem \<Rightarrow> nat set) \<Rightarrow> phys_mem \<Rightarrow> nat \<Rightarrow> nat \<Rightarrow> bool" where
  "releasable fset s p n \<longleftrightarrow> 0 < n \<and> p + n \<le> npage s \<and> {p..<p + n} \<inter> fset s = {} \<and>
     (\<forall>q\<in>{p..<p + n}. \<not> PageReserved (pages s q))"

text \<open>Calls of a manager, with the runs of pages that are handed out.\<close>

inductive pmm_step :: "pmm_manager \<Rightarrow> phys_mem \<times> (nat \<times> nat) list \<Rightarrow> phys_mem \<times> (nat \<times> nat) list \<Rightarrow> bool"
  for mgr where
  step_alloc: "0 < n \<Longrightarrow> pmm_alloc_pages mgr n s = Some (Some p, s') \<Longrightarrow> pmm_step mgr (s, live) (s', (p, n) # live)"
| step_alloc_fail: "0 < n \<Longrightarrow> pmm_alloc_pages mgr n s = Some (None, s') \<Longrightarrow> pmm_step mgr (s, live) (s', live)"
| step_free: "(p, n) \<in> set live \<Longrightarrow> pmm_free_pages mgr p n s = Some s' \<Longrightarrow>
    pmm_step mgr (s, live) (s', remove1 (p, n) live)"

inductive_cases pmm_stepE [consumes 1, case_names alloc alloc_fail free]:
  "pmm_step mgr (s, live) (s', live')"

fun apart :: "(nat \<times> nat) list \<Rightarrow> bool" where
  "apart [] \<longleftrightarrow> True"
| "apart ((p, n) # rs) \<longleftrightarrow> {p..<p + n} \<inter> seg_pages rs = {} \<and> apart rs"

lemma seg_pages_mem: "(p, n) \<in> set rs \<Longrightarrow> {p..<p + n} \<subseteq> seg_pages rs"
  by (force simp: seg_pages_def)

lemma apart_remove:
  "apart rs \<Longrightarrow> (p, n) \<in> set rs \<Longrightarrow>
    seg_pages (remove1 (p, n) rs) = seg_pages rs - {p..<p + n} \<and> apart (remove1 (p, n) rs)"
proof (induction rs rule: apart.induct)
  case (2 q k rs)
  show ?case
  proof (cases "(q, k) = (p, n)")
    case True
    then show ?thesis using 2(2) unfolding apart.simps by (simp add: Un_Diff) blast
  next
    case False
    then have m: "(p, n) \<in> set rs" using 2(3) by auto
    have IH: "seg_pages (remove1 (p, n) rs) = seg_pages rs - {p..<p + n}" "apart (remove1 (p, n) rs)"
      using 2(1) 2(2) m by auto
    have "{q..<q + k} \<inter> {p..<p + n} = {}" using 2(2) seg_pages_mem [OF m] 
      unfolding apart.simps by blast
    then show ?thesis using 2(2) False IH by auto
  qed
qed simp

text \<open>The state of the clients: live runs are pages of memory, unreserved, apart, and not free.\<close>

definition live_ok :: "(phys_mem \<Rightarrow> bool) \<Rightarrow> (phys_mem \<Rightarrow> nat set) \<Rightarrow> phys_mem \<Rightarrow> (nat \<times> nat) list \<Rightarrow> bool" where
  "live_ok mok fset s live \<longleftrightarrow> mok s \<and> apart live \<and> seg_pages live \<inter> fset s = {} \<and>
     (\<forall>(p, n)\<in>set live. releasable fset s p n)"

locale pmm_contract =
  fixes mgr :: pmm_manager and mok :: "phys_mem \<Rightarrow> bool" and fset :: "phys_mem \<Rightarrow> nat set"
  assumes alloc_returns: "mok s \<Longrightarrow> 0 < n \<Longrightarrow> pmm_alloc_pages mgr n s \<noteq> None"
    and alloc_some: "mok s \<Longrightarrow> 0 < n \<Longrightarrow> pmm_alloc_pages mgr n s = Some (Some p, s') \<Longrightarrow>
      mok s' \<and> {p..<p + n} \<subseteq> fset s \<and> fset s' = fset s - {p..<p + n} \<and> pages_kept {} s s'"
    and alloc_none: "mok s \<Longrightarrow> 0 < n \<Longrightarrow> pmm_alloc_pages mgr n s = Some (None, s') \<Longrightarrow>
      s' = s \<and> (\<nexists>p. {p..<p + n} \<subseteq> fset s)"
    and free_some: "mok s \<Longrightarrow> releasable fset s p n \<Longrightarrow>
      \<exists>s'. pmm_free_pages mgr p n s = Some s' \<and> mok s' \<and> fset s' = fset s \<union> {p..<p + n} \<and>
        pages_kept {p..<p + n} s s'"
    and count: "mok s \<Longrightarrow> pmm_nr_free_pages mgr s = card (fset s)"
    and free_page: "mok s \<Longrightarrow> p \<in> fset s \<Longrightarrow>
      p < npage s \<and> \<not> PageReserved (pages s p) \<and> pg_ref (pages s p) = 0"
    and frame: "mok s \<Longrightarrow> p \<notin> fset s \<Longrightarrow>
      mok (upd_page p (\<lambda>pg. pg\<lparr>pg_ref := v, pg_pra_vaddr := a\<rparr>) s) \<and>
      fset (upd_page p (\<lambda>pg. pg\<lparr>pg_ref := v, pg_pra_vaddr := a\<rparr>) s) = fset s"
begin

lemma alloc_one_iff:
  assumes "mok s"
  shows "(\<exists>s'. pmm_alloc_pages mgr 1 s = Some (None, s')) \<longleftrightarrow> fset s = {}"
proof
  assume "\<exists>s'. pmm_alloc_pages mgr 1 s = Some (None, s')"
  then have no: "\<nexists>p. {p..<p + 1} \<subseteq> fset s" using alloc_none [OF assms, of 1] by auto
  show "fset s = {}" using no by (fastforce simp: atLeastLessThanSuc)
next
  assume e: "fset s = {}"
  obtain r s' where r: "pmm_alloc_pages mgr 1 s = Some (r, s')"
    using alloc_returns [OF assms, of 1] by auto
  then show "\<exists>s'. pmm_alloc_pages mgr 1 s = Some (None, s')"
    using alloc_some [OF assms, of 1] e by (cases r) fastforce+
qed

lemma releasable_cong:
  "releasable fset s p n \<Longrightarrow> pages_kept S s s' \<Longrightarrow> {p..<p + n} \<inter> fset s' = {} \<Longrightarrow> releasable fset s' p n"
  by (auto simp: releasable_def pages_kept_def)

lemma step_live:
  assumes lv: "live_ok mok fset s live" and st: "pmm_step mgr (s, live) (s', live')"
  shows "live_ok mok fset s' live' \<and> seg_pages live' \<union> fset s' = seg_pages live \<union> fset s"
  using st
proof (cases rule: pmm_stepE)
  case (alloc n p)
  note a = alloc_some [OF _ alloc(2,3)]
  have i: "mok s" "apart live" "seg_pages live \<inter> fset s = {}"
    and rel: "\<forall>(p, n)\<in>set live. releasable fset s p n" using lv by (auto simp: live_ok_def)
  have a: "mok s'" "{p..<p + n} \<subseteq> fset s" "fset s' = fset s - {p..<p + n}" "pages_kept {} s s'"
    using a [OF i(1)] by auto
  have old: "releasable fset s' q k" if "(q, k) \<in> set live" for q k
    using releasable_cong [of s q k "{}" s'] rel that a(3,4) seg_pages_mem [OF that] i(3) by blast
  have last: "p + n - 1 \<in> {p..<p + n}" using alloc(2) by simp
  have "p + n \<le> npage s" using free_page [OF i(1) subsetD [OF a(2) last]] by linarith
  then have "releasable fset s' p n"
    using alloc(2) a(3,4) free_page [OF i(1) subsetD [OF a(2)]]
    by (auto simp: releasable_def pages_kept_def)
  moreover note old
  moreover have "apart live'" using a(2) i(2,3) unfolding alloc(1) apart.simps by blast
  moreover have "seg_pages live' \<inter> fset s' = {}" "seg_pages live' \<union> fset s' = seg_pages live \<union> fset s"
    using a(2,3) i(3) unfolding alloc(1) seg_pages_simps by blast+
  ultimately show ?thesis using a(1) unfolding live_ok_def alloc(1) by auto
next
  case (alloc_fail n)
  then show ?thesis using lv alloc_none [OF _ alloc_fail(2,3)] by (auto simp: live_ok_def)
next
  case (free p n)
  have i: "mok s" "apart live" "seg_pages live \<inter> fset s = {}"
    and rel: "\<forall>(p, n)\<in>set live. releasable fset s p n" using lv by (auto simp: live_ok_def)
  have "releasable fset s p n" using rel free(2) by auto
  from free_some [OF i(1) this] have f: "mok s'" "fset s' = fset s \<union> {p..<p + n}" "pages_kept {p..<p + n} s s'"
    using free(3) by auto
  note ap = apart_remove [OF i(2) free(2)]
  have "releasable fset s' q k" if "(q, k) \<in> set (remove1 (p, n) live)" for q k
    using releasable_cong [OF _ f(3), of q k] rel that seg_pages_mem [OF that] ap i(3) f(2)
      set_remove1_subset [of "(p, n)" live] by blast
  moreover have "seg_pages live' \<inter> fset s' = {}" "seg_pages live' \<union> fset s' = seg_pages live \<union> fset s"
    using f(2) ap i(3) seg_pages_mem [OF free(2)] unfolding free(1) by blast+
  ultimately show ?thesis using f(1) ap unfolding live_ok_def free(1) by blast
qed

lemma steps_live:
  assumes "(pmm_step mgr)\<^sup>*\<^sup>* (s, live) (s', live')" and "live_ok mok fset s live"
  shows "live_ok mok fset s' live' \<and> seg_pages live' \<union> fset s' = seg_pages live \<union> fset s"
  using assms by (induction rule: rtranclp_induct2) (use step_live in blast)+

end

section \<open>The default manager satisfies the contract\<close>

lemma in_use_releasable: "in_use s p n = releasable free_set s p n"
  by (simp add: in_use_def releasable_def)

lemma blocks_frame:
  "pg_property pg = pg_property (pages s p) \<Longrightarrow> blocks (s\<lparr>pages := (pages s)(p := pg)\<rparr>) = blocks s"
  by (auto simp: blocks_def)

interpretation default_pmm: pmm_contract default_pmm_manager pmm_inv free_set
proof
  fix s n p s' v a
  assume s: "pmm_inv s"
  show "pmm_nr_free_pages default_pmm_manager s = card (free_set s)"
    using s segs_card [of 0 "blocks s"]
    by (simp add: default_pmm_manager_def default_nr_free_pages_def pmm_inv_def free_set_def)
  show "p \<in> free_set s \<Longrightarrow> p < npage s \<and> \<not> PageReserved (pages s p) \<and> pg_ref (pages s p) = 0"
    using s by (auto simp: pmm_inv_def)
  show "p \<notin> free_set s \<Longrightarrow> pmm_inv (upd_page p (\<lambda>pg. pg\<lparr>pg_ref := v, pg_pra_vaddr := a\<rparr>) s) \<and>
      free_set (upd_page p (\<lambda>pg. pg\<lparr>pg_ref := v, pg_pra_vaddr := a\<rparr>) s) = free_set s"
    using s by (simp add: pmm_inv_def free_set_def blocks_frame)
  show "releasable free_set s p n \<Longrightarrow> \<exists>s'. pmm_free_pages default_pmm_manager p n s = Some s' \<and> pmm_inv s' \<and>
      free_set s' = free_set s \<union> {p..<p + n} \<and> pages_kept {p..<p + n} s s'"
    using free_ok [OF s, of p n]
    by (auto simp: in_use_releasable default_pmm_manager_def free_effect_def pages_kept_def)
  assume n: "0 < n"
  show "pmm_alloc_pages default_pmm_manager n s \<noteq> None"
    using alloc_total [OF s n] by (simp add: default_pmm_manager_def)
  show "pmm_alloc_pages default_pmm_manager n s = Some (Some p, s') \<Longrightarrow>
      pmm_inv s' \<and> {p..<p + n} \<subseteq> free_set s \<and> free_set s' = free_set s - {p..<p + n} \<and> pages_kept {} s s'"
    using alloc_SomeD [OF s n] by (simp add: default_pmm_manager_def alloc_effect_def pages_kept_def)
  show "pmm_alloc_pages default_pmm_manager n s = Some (None, s') \<Longrightarrow>
      s' = s \<and> (\<nexists>p. {p..<p + n} \<subseteq> free_set s)"
    using alloc_NoneD [OF s n] by (simp add: default_pmm_manager_def)
qed

text \<open>Setting up a block: the pages of the block are reserved before, free after.\<close>

lemma init_pages_eq:
  "\<forall>q\<in>{p..<p + k}. PageReserved (pages s q) \<Longrightarrow>
    init_pages p k s = Some (s\<lparr>pages := \<lambda>q. if p \<le> q \<and> q < p + k
      then set_page_ref 0 ((pages s q)\<lparr>pg_flags := 0, pg_property := 0\<rparr>) else pages s q\<rparr>)"
proof (induction k arbitrary: p s)
  case (Suc k)
  let ?s = "upd_page p (\<lambda>pg. set_page_ref 0 (pg\<lparr>pg_flags := 0, pg_property := 0\<rparr>)) s"
  have "\<forall>q\<in>{Suc p..<Suc p + k}. PageReserved (pages ?s q)" using Suc.prems by simp
  from Suc.IH [OF this] show ?case using Suc.prems by (auto intro!: phys_mem.equality ext)
qed (auto intro!: phys_mem.equality ext)

lemma segs_snoc:
  "segs lo bs \<Longrightarrow> \<forall>(a, m)\<in>set bs. a + m < b \<Longrightarrow> 0 < n \<Longrightarrow> lo \<le> b \<Longrightarrow> segs lo (bs @ [(b, n)])"
  by (induction lo bs rule: segs.induct) auto

lemma init_memmap_ok:
  assumes inv: "pmm_inv s" and n: "0 < n" "b + n \<le> npage s" and below: "\<forall>q\<in>free_set s. Suc q < b"
    and res: "\<forall>q\<in>{b..<b + n}. PageReserved (pages s q)"
  shows "\<exists>s'. default_init_memmap b n s = Some s' \<and> pmm_inv s' \<and> free_set s' = free_set s \<union> {b..<b + n}"
proof -
  define s1 where "s1 = s\<lparr>pages := \<lambda>q. if b \<le> q \<and> q < b + n
      then set_page_ref 0 ((pages s q)\<lparr>pg_flags := 0, pg_property := 0\<rparr>) else pages s q\<rparr>"
  let ?s' = "(with_head b n s1)\<lparr>nr_free := nr_free s1 + n, free_list := free_list s1 @ [b]\<rparr>"
  have segs: "segs 0 (blocks s)" using inv by (simp add: pmm_inv_def)
  have lt: "p < b" "p + block_size s p < b" if "p \<in> set (free_list s)" for p
  proof -
    have m: "(p, block_size s p) \<in> set (blocks s)" using that by (auto simp: blocks_def)
    then have pos: "0 < block_size s p"
      using segs_pos [of 0 "block_size s" "free_list s" p] segs that by (simp add: blocks_def)
    then have "p + block_size s p - 1 \<in> {p..<p + block_size s p}" by auto
    then have "p + block_size s p - 1 \<in> free_set s" using seg_pages_mem [OF m] unfolding free_set_def by blast
    then show "p < b" "p + block_size s p < b" using below pos by fastforce+
  qed
  have "seg_map (block_size ?s') (free_list s) = seg_map (block_size s) (free_list s)"
    using lt(1) by (intro map_cong refl) (fastforce simp: s1_def)
  then have bl: "blocks ?s' = blocks s @ [(b, n)]" by (simp add: blocks_def s1_def)
  then have fs: "free_set ?s' = free_set s \<union> {b..<b + n}" by (simp add: free_set_def)
  have "segs 0 (blocks ?s')"
    unfolding bl using segs n lt by (intro segs_snoc) (auto simp: blocks_def)
  moreover have "\<forall>p<npage ?s'. PageProperty (pages ?s' p) \<longleftrightarrow> p \<in> set (free_list ?s')"
    using inv by (auto simp: s1_def pmm_inv_def dest: lt(1))
  moreover have "\<forall>p\<in>free_set ?s'. \<not> PageReserved (pages ?s' p) \<and> pg_ref (pages ?s' p) = 0"
    unfolding fs using inv by (auto simp: s1_def pmm_inv_def)
  moreover have "nr_free ?s' = seg_sum (blocks ?s')" using inv unfolding bl by (simp add: s1_def pmm_inv_def)
  moreover have "free_set ?s' \<subseteq> {..<npage ?s'}" unfolding fs using inv n by (auto simp: s1_def pmm_inv_def)
  ultimately have "pmm_inv ?s'" unfolding pmm_inv_def by blast
  then show ?thesis
    using fs init_pages_eq [OF res] n(1) by (intro exI [of _ ?s']) (simp add: default_init_memmap_def s1_def [symmetric] Let_def)
qed

lemma default_init_inv:
  "\<forall>p<npage s. \<not> PageProperty (pages s p) \<Longrightarrow> pmm_inv (default_init s) \<and> free_set (default_init s) = {}"
  by (simp add: default_init_def pmm_defs)

text \<open>A small machine: eight page frames, of which 2 to 6 are given to the manager.\<close>

definition pm_boot :: phys_mem where
  "pm_boot = \<lparr>pages = (\<lambda>_. SetPageReserved \<lparr>pg_ref = 0, pg_flags = 0, pg_property = 0, pg_pra_vaddr = 0\<rparr>),
     npage = 8, free_list = [], nr_free = 0\<rparr>"

definition pm_small :: phys_mem where
  "pm_small = the (default_init_memmap 2 5 (default_init pm_boot))"

lemma pm_small:
  "default_init_memmap 2 5 (default_init pm_boot) = Some pm_small"
  "pmm_inv pm_small" "free_set pm_small = {2..<7}" "npage pm_small = 8"
proof -
  have boot: "\<forall>p<npage pm_boot. \<not> PageProperty (pages pm_boot p)"
    by (simp add: pm_boot_def flag_defs bit_simps)
  note i = default_init_inv [OF boot]
  have "\<forall>q\<in>{2..<2 + 5}. PageReserved (pages (default_init pm_boot) q)" "2 + 5 \<le> npage (default_init pm_boot)"
    by (simp_all add: pm_boot_def default_init_def)
  from init_memmap_ok [of "default_init pm_boot" 5 2, OF _ _ this(2) _ this(1)] i
  obtain s' where s': "default_init_memmap 2 5 (default_init pm_boot) = Some s'" "pmm_inv s'" "free_set s' = {2..<7}"
    by auto
  then show "default_init_memmap 2 5 (default_init pm_boot) = Some pm_small"
    "pmm_inv pm_small" "free_set pm_small = {2..<7}" by (simp_all add: pm_small_def)
  show "npage pm_small = 8"
    by (simp add: pm_small_def default_init_memmap_def default_init_def pm_boot_def eval_nat_numeral Let_def)
qed

text \<open>
  C1: whatever sequence of allocations and frees of handed-out runs is performed on a well-formed
  memory, the manager stays well-formed, the runs handed out never overlap one another or the
  free pages, no page is lost or invented, and giving any of the runs back does not panic.
\<close>

theorem pmm_no_overlap_no_leak:
  assumes "pmm_inv s" and "(pmm_step default_pmm_manager)\<^sup>*\<^sup>* (s, []) (s', live)"
  shows "pmm_inv s' \<and> apart live \<and> seg_pages live \<inter> free_set s' = {} \<and>
    seg_pages live \<union> free_set s' = free_set s \<and>
    (\<forall>(p, n)\<in>set live. default_free_pages p n s' \<noteq> None)"
proof -
  have "live_ok pmm_inv free_set s []" using assms(1) by (simp add: live_ok_def)
  from default_pmm.steps_live [OF assms(2) this] free_ok [of s'] show ?thesis
    by (fastforce simp: live_ok_def in_use_releasable)
qed

theorem pmm_no_overlap_no_leak_witness:
  "\<exists>s1 s2 s3. (pmm_step default_pmm_manager)\<^sup>*\<^sup>* (pm_small, []) (s3, [(4, 1)]) \<and> free_set s3 = {2..<4} \<union> {5..<7} \<and>
     default_alloc_pages 2 pm_small = Some (Some 2, s1) \<and> default_alloc_pages 1 s1 = Some (Some 4, s2)"
proof -
  have r: "\<exists>s1 s2 s3. default_alloc_pages 2 pm_small = Some (Some 2, s1) \<and> default_alloc_pages 1 s1 = Some (Some 4, s2) \<and>
    default_free_pages 2 2 s2 = Some s3"
    by (simp add: pm_small_def default_init_memmap_def default_init_def pm_boot_def default_alloc_pages_def
      default_free_pages_def eval_nat_numeral Let_def)
  then obtain s1 s2 s3 where s: "default_alloc_pages 2 pm_small = Some (Some 2, s1)"
    "default_alloc_pages 1 s1 = Some (Some 4, s2)" "default_free_pages 2 2 s2 = Some s3" by blast
  have "pmm_step default_pmm_manager (pm_small, []) (s1, [(2, 2)])"
    "pmm_step default_pmm_manager (s1, [(2, 2)]) (s2, [(4, 1), (2, 2)])"
    using s by (auto intro!: step_alloc simp: default_pmm_manager_def)
  moreover have "pmm_step default_pmm_manager (s2, [(4, 1), (2, 2)]) (s3, [(4, 1)])"
    using step_free [of 2 2 "[(4, 1), (2, 2)]" default_pmm_manager s2 s3] s(3) by (simp add: default_pmm_manager_def)
  ultimately have t: "(pmm_step default_pmm_manager)\<^sup>*\<^sup>* (pm_small, []) (s3, [(4, 1)])"
    by (meson converse_rtranclp_into_rtranclp rtranclp.rtrancl_refl)
  from pmm_no_overlap_no_leak [OF pm_small(2) t] pm_small(3)
  have "{4..<5} \<inter> free_set s3 = {}" "{4..<5} \<union> free_set s3 = {2..<7}" by simp_all
  moreover have "{2..<7} - {4..<5} = {2..<4} \<union> {5..<7::nat}" by auto
  ultimately have "free_set s3 = {2..<4} \<union> {5..<7}" by blast
  then show ?thesis using t s by blast
qed

text \<open>
  C2: on a well-formed memory \<open>default_alloc_pages(n)\<close> always returns. It returns NULL, changing
  nothing, exactly when there are no \<open>n\<close> consecutive free pages; otherwise it returns the first
  page of the lowest block that is large enough, and the \<open>n\<close> pages from it stop being free.
\<close>

theorem alloc_first_fit:
  assumes "pmm_inv s" and "0 < n"
  shows "\<exists>r s'. default_alloc_pages n s = Some (r, s') \<and> pmm_inv s' \<and>
    (case r of
       None \<Rightarrow> s' = s \<and> (\<nexists>p. {p..<p + n} \<subseteq> free_set s)
     | Some p \<Rightarrow> {p..<p + n} \<subseteq> free_set s \<and> free_set s' = free_set s - {p..<p + n} \<and>
         nr_free s' = nr_free s - n \<and> (\<forall>q<p. \<not> {q..<q + n} \<subseteq> free_set s))"
proof -
  obtain r s' where r: "default_alloc_pages n s = Some (r, s')" using alloc_total [OF assms] by auto
  show ?thesis
  proof (cases r)
    case None
    then show ?thesis using r alloc_NoneD [OF assms, of s'] assms(1) by simp
  next
    case (Some p)
    note a = alloc_SomeD [OF assms, of p s']
    have "\<not> {q..<q + n} \<subseteq> free_set s" if "q < p" for q
      using seg_alloc_lowest [of 0 "blocks s" n p "blocks s'" q] a r Some that assms
      by (simp add: pmm_inv_def free_set_def)
    then show ?thesis using a r Some by (auto simp: alloc_effect_def)
  qed
qed

theorem alloc_first_fit_witness:
  "\<exists>r s'. default_alloc_pages 3 pm_small = Some (r, s') \<and> pmm_inv s' \<and>
    (case r of
       None \<Rightarrow> s' = pm_small \<and> (\<nexists>p. {p..<p + 3} \<subseteq> free_set pm_small)
     | Some p \<Rightarrow> {p..<p + 3} \<subseteq> free_set pm_small \<and> free_set s' = free_set pm_small - {p..<p + 3} \<and>
         nr_free s' = nr_free pm_small - 3 \<and> (\<forall>q<p. \<not> {q..<q + 3} \<subseteq> free_set pm_small))"
  using alloc_first_fit [OF pm_small(2), of 3] by simp

text \<open>
  C3: giving back a run of pages in use never panics, makes exactly those pages free with
  reference count 0, and coalesces: the block list is the merge of the run with its neighbours.
\<close>

theorem free_coalesces:
  assumes "pmm_inv s" and "in_use s b n"
  shows "\<exists>s'. default_free_pages b n s = Some s' \<and> pmm_inv s' \<and> free_set s' = free_set s \<union> {b..<b + n} \<and>
    nr_free s' = nr_free s + n \<and> blocks s' = seg_free b n (blocks s)"
  using free_ok [OF assms] by (auto simp: free_effect_def)

theorem free_coalesces_witness:
  "\<exists>s s'. default_alloc_pages 5 pm_small = Some (Some 2, s) \<and> default_free_pages 3 2 s = Some s' \<and>
     blocks s' = [(3, 2)] \<and> nr_free s' = 2"
proof -
  have "\<exists>s. default_alloc_pages 5 pm_small = Some (Some 2, s)"
    by (simp add: pm_small_def default_init_memmap_def default_init_def pm_boot_def default_alloc_pages_def
      eval_nat_numeral Let_def)
  then obtain s where s: "default_alloc_pages 5 pm_small = Some (Some 2, s)" by blast
  have a: "pmm_inv s" "free_set s = {}" "npage s = 8"
    using alloc_SomeD [OF pm_small(2) _ s] pm_small(3,4) by (simp_all add: alloc_effect_def)
  then have b: "blocks s = []" "nr_free s = 0"
    using segs_unique [of 0 "blocks s" "[]"] by (auto simp: pmm_inv_def free_set_def)
  have "\<forall>q\<in>{2..<7}. \<not> PageReserved (pages s q)"
    using alloc_SomeD [OF pm_small(2) _ s] pm_small(2,3) by (simp add: alloc_effect_def pmm_inv_def)
  then have "in_use s 3 2" using a by (simp add: in_use_def)
  from free_coalesces [OF a(1) this] show ?thesis using s b by auto
qed

text \<open>
  C4: a run that is allocated and given back leaves the very same list of free blocks, whatever
  splitting and merging took place in between.
\<close>

theorem alloc_free_roundtrip:
  assumes "pmm_inv s" and "0 < n" and "default_alloc_pages n s = Some (Some p, s')"
  shows "\<exists>s''. default_free_pages p n s' = Some s'' \<and> blocks s'' = blocks s \<and> nr_free s'' = nr_free s"
proof -
  have a: "pmm_inv s'" "{p..<p + n} \<subseteq> free_set s" "free_set s' = free_set s - {p..<p + n}" "alloc_effect p n s s'"
    using alloc_SomeD [OF assms] by auto
  have last: "p + n - 1 \<in> {p..<p + n}" using assms(2) by simp
  have "p + n \<le> npage s" using subsetD [OF a(2) last] assms(1) by (fastforce simp: pmm_inv_def)
  then have "in_use s' p n"
    using a assms(1,2) by (auto simp: in_use_def alloc_effect_def pmm_inv_def)
  from free_ok [OF a(1) this] obtain s'' where s'': "default_free_pages p n s' = Some s''" "pmm_inv s''"
    "free_set s'' = free_set s' \<union> {p..<p + n}" by blast
  have "free_set s'' = free_set s" using s''(3) a(2,3) by blast
  then have "blocks s'' = blocks s"
    using segs_unique [of 0 "blocks s''" "blocks s"] s''(2) assms(1) by (simp add: pmm_inv_def free_set_def)
  then show ?thesis using s''(1,2) assms(1) by (auto simp: pmm_inv_def)
qed

theorem alloc_free_roundtrip_witness:
  "\<exists>s' s''. default_alloc_pages 2 pm_small = Some (Some 2, s') \<and> default_free_pages 2 2 s' = Some s'' \<and>
     blocks s'' = blocks pm_small"
proof -
  have "\<exists>s'. default_alloc_pages 2 pm_small = Some (Some 2, s')"
    by (simp add: pm_small_def default_init_memmap_def default_init_def pm_boot_def default_alloc_pages_def
      eval_nat_numeral Let_def)
  then obtain s' where s': "default_alloc_pages 2 pm_small = Some (Some 2, s')" by blast
  from alloc_free_roundtrip [OF pm_small(2) _ s'] s' show ?thesis by auto
qed

end
