(* ===== verification/PageTable.thy ===== *)
theory PageTable
  imports Pmm Ide
begin

text \<open>
  Page tables and swapping: src/ucore_os/kern/mm/pmm.c on top of a memory manager, with the address
  macros of kern/mm/mmu.h, the page conversions of kern/mm/pmm.h, kern/mm/swap.c,
  kern/mm/swap_fifo.c and kern/fs/swap/swapfs.c.

  A page frame holds 1024 words. A page directory is named by its frame, a \<open>pte_t*\<close> is a frame with
  an index into it. The state has the frames, the TLB of the processor with the directory in
  \<open>cr3\<close>, and the global variables \<open>pmm_manager\<close>, \<open>swap_init_ok\<close>, \<open>check_mm_struct\<close> and
  \<open>pra_list_head\<close>. Interrupt masking is not modelled: the operations are atomic.
\<close>

section \<open>Addresses\<close>

definition PGSIZE :: u32 where "PGSIZE = 4096"
definition PTSIZE :: u32 where "PTSIZE = 0x400000"
definition PTXSHIFT :: nat where "PTXSHIFT = 12"
definition PDXSHIFT :: nat where "PDXSHIFT = 22"
definition PTE_P :: u32 where "PTE_P = 1"
definition PTE_W :: u32 where "PTE_W = 2"
definition PTE_U :: u32 where "PTE_U = 4"
definition PTE_USER :: u32 where "PTE_USER = PTE_U OR PTE_W OR PTE_P"
definition KERNBASE :: u32 where "KERNBASE = 0xC0000000"
definition USERTOP :: u32 where "USERTOP = 0xB0000000"
definition USERBASE :: u32 where "USERBASE = 0x00200000"

definition PDX :: "u32 \<Rightarrow> nat" where
  "PDX la = unat (drop_bit PDXSHIFT la AND 0x3FF)"

definition PTX :: "u32 \<Rightarrow> nat" where
  "PTX la = unat (drop_bit PTXSHIFT la AND 0x3FF)"

definition PPN :: "u32 \<Rightarrow> nat" where
  "PPN la = unat (drop_bit PTXSHIFT la)"

definition PTE_ADDR :: "u32 \<Rightarrow> u32" where
  "PTE_ADDR pte = pte AND NOT 0xFFF"

definition USER_ACCESS :: "u32 \<Rightarrow> u32 \<Rightarrow> bool" where
  "USER_ACCESS start stop \<longleftrightarrow> USERBASE \<le> start \<and> start < stop \<and> stop \<le> USERTOP"

section \<open>State\<close>

record mm_swap =
  mms_pgdir :: nat
  mms_sm_priv :: bool

record kmem =
  km_mgr :: pmm_manager
  km_phys :: phys_mem
  km_frames :: "nat \<Rightarrow> nat \<Rightarrow> u32"
  km_cr3 :: nat
  km_tlb :: "nat \<Rightarrow> u32 option"
  km_swap_init_ok :: bool
  km_check_mm :: "mm_swap option"
  km_pra_list :: "nat list"
  km_ide :: ide_drives
  km_max_swap_offset :: nat

definition page2pa :: "nat \<Rightarrow> u32" where
  "page2pa page = push_bit PTXSHIFT (of_nat page)"

definition pa2page :: "u32 \<Rightarrow> kmem \<Rightarrow> nat option" where
  "pa2page pa s = do { kassert (PPN pa < npage (km_phys s)); Some (PPN pa) }"

text \<open>\<open>KADDR\<close> of the address of a frame: the frame itself, with the check of the macro.\<close>

definition KADDR :: "u32 \<Rightarrow> kmem \<Rightarrow> nat option" where
  "KADDR pa s = do { kassert (PPN pa < npage (km_phys s)); Some (PPN pa) }"

definition page2kva :: "nat \<Rightarrow> kmem \<Rightarrow> nat option" where
  "page2kva page s = KADDR (page2pa page) s"

definition pte2page :: "u32 \<Rightarrow> kmem \<Rightarrow> nat option" where
  "pte2page pte s = do { kassert (pte AND PTE_P \<noteq> 0); pa2page (PTE_ADDR pte) s }"

definition pde2page :: "u32 \<Rightarrow> kmem \<Rightarrow> nat option" where
  "pde2page pde s = pa2page (PTE_ADDR pde) s"

definition page_ref :: "nat \<Rightarrow> kmem \<Rightarrow> int" where
  "page_ref page s = pg_ref (pages (km_phys s) page)"

abbreviation upd_kpage :: "nat \<Rightarrow> (page \<Rightarrow> page) \<Rightarrow> kmem \<Rightarrow> kmem" where
  "upd_kpage p f s \<equiv> s\<lparr>km_phys := upd_page p f (km_phys s)\<rparr>"

definition page_ref_inc :: "nat \<Rightarrow> kmem \<Rightarrow> int \<times> kmem" where
  "page_ref_inc page s = (page_ref page s + 1, upd_kpage page (\<lambda>pg. pg\<lparr>pg_ref := pg_ref pg + 1\<rparr>) s)"

definition page_ref_dec :: "nat \<Rightarrow> kmem \<Rightarrow> int \<times> kmem" where
  "page_ref_dec page s = (page_ref page s - 1, upd_kpage page (\<lambda>pg. pg\<lparr>pg_ref := pg_ref pg - 1\<rparr>) s)"

text \<open>A word of a frame through a pointer.\<close>

definition load :: "nat \<times> nat \<Rightarrow> kmem \<Rightarrow> u32" where
  "load p s = km_frames s (fst p) (snd p)"

definition store :: "nat \<times> nat \<Rightarrow> u32 \<Rightarrow> kmem \<Rightarrow> kmem" where
  "store p v s = s\<lparr>km_frames := (km_frames s)(fst p := (km_frames s (fst p))(snd p := v))\<rparr>"

definition free_pages :: "nat \<Rightarrow> nat \<Rightarrow> kmem \<Rightarrow> kmem option" where
  "free_pages base n s = do {
     ph \<leftarrow> pmm_free_pages (km_mgr s) base n (km_phys s);
     Some (s\<lparr>km_phys := ph\<rparr>)
   }"

definition nr_free_pages :: "kmem \<Rightarrow> nat" where
  "nr_free_pages s = pmm_nr_free_pages (km_mgr s) (km_phys s)"

text \<open>\<open>invlpg\<close> drops the entry of the page of \<open>la\<close>.\<close>

definition tlb_invalidate :: "nat \<Rightarrow> u32 \<Rightarrow> kmem \<Rightarrow> kmem" where
  "tlb_invalidate pgdir la s =
     (if km_cr3 s = pgdir then s\<lparr>km_tlb := (km_tlb s)(PPN la := None)\<rparr> else s)"

section \<open>Page table entries\<close>

text \<open>
  \<open>get_pte\<close> takes the page allocator as an argument: \<open>alloc_pages\<close> may swap pages out, and
  \<open>swap_out\<close> itself looks entries up with \<open>create = 0\<close>, which never allocates.
\<close>

definition get_pte_with ::
  "(kmem \<Rightarrow> (nat option \<times> kmem) option) \<Rightarrow> nat \<Rightarrow> u32 \<Rightarrow> bool \<Rightarrow> kmem \<Rightarrow> ((nat \<times> nat) option \<times> kmem) option" where
  "get_pte_with alloc pgdir la create s =
     (if load (pgdir, PDX la) s AND PTE_P = 0 then
        if \<not> create then Some (None, s)
        else do {
          (pg, s1) \<leftarrow> alloc s;
          case pg of
            None \<Rightarrow> Some (None, s1)
          | Some page \<Rightarrow> do {
              let s2 = upd_kpage page (set_page_ref 1) s1;
              let pa = page2pa page;
              kva \<leftarrow> KADDR pa s2;
              let s3 = s2\<lparr>km_frames := (km_frames s2)(kva := (\<lambda>_. 0))\<rparr>;
              let s4 = store (pgdir, PDX la) (pa OR PTE_USER) s3;
              pt \<leftarrow> KADDR (PTE_ADDR (load (pgdir, PDX la) s4)) s4;
              Some (Some (pt, PTX la), s4)
            }
        }
      else do {
        pt \<leftarrow> KADDR (PTE_ADDR (load (pgdir, PDX la) s)) s;
        Some (Some (pt, PTX la), s)
      })"

definition lookup_pte :: "nat \<Rightarrow> u32 \<Rightarrow> kmem \<Rightarrow> ((nat \<times> nat) option \<times> kmem) option" where
  "lookup_pte pgdir la s = get_pte_with (\<lambda>_. None) pgdir la False s"

section \<open>Swapping\<close>

text \<open>The FIFO list: \<open>list_add\<close> puts a page in front, the victim is the one before the head.\<close>

definition fifo_init_mm :: "mm_swap \<Rightarrow> kmem \<Rightarrow> mm_swap \<times> kmem" where
  "fifo_init_mm mm s = (mm\<lparr>mms_sm_priv := True\<rparr>, s\<lparr>km_pra_list := []\<rparr>)"

definition fifo_map_swappable :: "mm_swap \<Rightarrow> nat \<Rightarrow> kmem \<Rightarrow> kmem option" where
  "fifo_map_swappable mm page s = do {
     kassert (mms_sm_priv mm);
     Some (s\<lparr>km_pra_list := page # km_pra_list s\<rparr>)
   }"

definition fifo_swap_out_victim :: "mm_swap \<Rightarrow> bool \<Rightarrow> kmem \<Rightarrow> (nat \<times> kmem) option" where
  "fifo_swap_out_victim mm in_tick s = do {
     kassert (mms_sm_priv mm);
     kassert (\<not> in_tick);
     kassert (km_pra_list s \<noteq> []);
     Some (last (km_pra_list s), s\<lparr>km_pra_list := butlast (km_pra_list s)\<rparr>)
   }"

definition SWAP_DEV_NO :: nat where "SWAP_DEV_NO = 1"
definition PAGE_NSECT :: nat where "PAGE_NSECT = 8"

definition swapfs_init :: "kmem \<Rightarrow> kmem option" where
  "swapfs_init s = do {
     kassert (VALID_IDE SWAP_DEV_NO (km_ide s));
     Some (s\<lparr>km_max_swap_offset := ide_device_size SWAP_DEV_NO (km_ide s) div PAGE_NSECT\<rparr>)
   }"

definition MAX_SWAP_OFFSET_LIMIT :: nat where "MAX_SWAP_OFFSET_LIMIT = 0x1000000"

text \<open>\<open>swap_init\<close> up to its self test.\<close>

definition swap_init :: "kmem \<Rightarrow> (int \<times> kmem) option" where
  "swap_init s = do {
     s1 \<leftarrow> swapfs_init s;
     kassert (1024 \<le> km_max_swap_offset s1 \<and> km_max_swap_offset s1 < MAX_SWAP_OFFSET_LIMIT);
     Some (0, s1\<lparr>km_swap_init_ok := True\<rparr>)
   }"

definition swap_offset :: "u32 \<Rightarrow> kmem \<Rightarrow> nat option" where
  "swap_offset entry s = do {
     let off = unat (drop_bit 8 entry);
     kassert (0 < off \<and> off < km_max_swap_offset s);
     Some off
   }"

definition swapfs_read :: "u32 \<Rightarrow> nat \<Rightarrow> kmem \<Rightarrow> (int \<times> kmem) option" where
  "swapfs_read entry page s = do {
     off \<leftarrow> swap_offset entry s;
     kva \<leftarrow> page2kva page s;
     (r, buf) \<leftarrow> ide_read_secs SWAP_DEV_NO (off * PAGE_NSECT) (km_frames s kva) PAGE_NSECT (km_ide s);
     Some (r, s\<lparr>km_frames := (km_frames s)(kva := buf)\<rparr>)
   }"

definition swapfs_write :: "u32 \<Rightarrow> nat \<Rightarrow> kmem \<Rightarrow> (int \<times> kmem) option" where
  "swapfs_write entry page s = do {
     off \<leftarrow> swap_offset entry s;
     kva \<leftarrow> page2kva page s;
     (r, d) \<leftarrow> ide_write_secs SWAP_DEV_NO (off * PAGE_NSECT) (km_frames s kva) PAGE_NSECT (km_ide s);
     Some (r, s\<lparr>km_ide := d\<rparr>)
   }"

text \<open>
  The loop of \<open>swap_out\<close> from iteration \<open>i\<close> on. The C code reads \<open>mm->sm_priv\<close> of a null
  \<open>mm\<close> as a crash; a missing page table is a null dereference of \<open>ptep\<close>. Both are panics here.
\<close>

definition swap_entry_of :: "u32 \<Rightarrow> u32" where
  "swap_entry_of v = push_bit 8 (v div PGSIZE + 1)"

fun swap_out_loop :: "mm_swap \<Rightarrow> nat \<Rightarrow> nat \<Rightarrow> bool \<Rightarrow> kmem \<Rightarrow> (nat \<times> kmem) option" where
  "swap_out_loop mm i 0 in_tick s = Some (i, s)"
| "swap_out_loop mm i (Suc k) in_tick s = do {
     (page, s1) \<leftarrow> fifo_swap_out_victim mm in_tick s;
     let v = pg_pra_vaddr (pages (km_phys s1) page);
     (ptep, s1) \<leftarrow> lookup_pte (mms_pgdir mm) v s1;
     ptep \<leftarrow> ptep;
     kassert (load ptep s1 AND PTE_P \<noteq> 0);
     (r, s2) \<leftarrow> swapfs_write (swap_entry_of v) page s1;
     if r \<noteq> 0 then do {
       s3 \<leftarrow> fifo_map_swappable mm page s2;
       swap_out_loop mm (Suc i) k in_tick s3
     }
     else do {
       let s3 = store ptep (swap_entry_of v) s2;
       s4 \<leftarrow> free_pages page 1 s3;
       swap_out_loop mm (Suc i) k in_tick (tlb_invalidate (mms_pgdir mm) v s4)
     }
   }"

definition swap_out :: "mm_swap option \<Rightarrow> nat \<Rightarrow> bool \<Rightarrow> kmem \<Rightarrow> (nat \<times> kmem) option" where
  "swap_out mm n in_tick s = do { m \<leftarrow> mm; swap_out_loop m 0 n in_tick s }"

text \<open>\<open>None\<close> is a panic or a loop that does not end.\<close>

partial_function (option) alloc_pages :: "nat \<Rightarrow> kmem \<Rightarrow> (nat option \<times> kmem) option" where
  "alloc_pages n s = do {
     (page, ph) \<leftarrow> pmm_alloc_pages (km_mgr s) n (km_phys s);
     let s1 = s\<lparr>km_phys := ph\<rparr>;
     if page \<noteq> None \<or> n > 1 \<or> \<not> km_swap_init_ok s1 then Some (page, s1)
     else do {
       (i, s2) \<leftarrow> swap_out (km_check_mm s1) n False s1;
       alloc_pages n s2
     }
   }"

definition get_pte :: "nat \<Rightarrow> u32 \<Rightarrow> bool \<Rightarrow> kmem \<Rightarrow> ((nat \<times> nat) option \<times> kmem) option" where
  "get_pte pgdir la create s = get_pte_with (alloc_pages 1) pgdir la create s"

definition swap_in :: "mm_swap \<Rightarrow> u32 \<Rightarrow> kmem \<Rightarrow> (int \<times> nat \<times> kmem) option" where
  "swap_in mm addr s = do {
     (result, s1) \<leftarrow> alloc_pages 1 s;
     result \<leftarrow> result;
     (ptep, s2) \<leftarrow> get_pte (mms_pgdir mm) addr False s1;
     ptep \<leftarrow> ptep;
     (r, s3) \<leftarrow> swapfs_read (load ptep s2) result s2;
     Some (0, result, s3)
   }"

section \<open>Mapping\<close>

definition get_page :: "nat \<Rightarrow> u32 \<Rightarrow> kmem \<Rightarrow> (nat option \<times> (nat \<times> nat) option \<times> kmem) option" where
  "get_page pgdir la s = do {
     (ptep, s1) \<leftarrow> get_pte pgdir la False s;
     case ptep of
       Some p \<Rightarrow> if load p s1 AND PTE_P \<noteq> 0 then do { pg \<leftarrow> pte2page (load p s1) s1; Some (Some pg, ptep, s1) }
                else Some (None, ptep, s1)
     | None \<Rightarrow> Some (None, ptep, s1)
   }"

definition page_remove_pte :: "nat \<Rightarrow> u32 \<Rightarrow> nat \<times> nat \<Rightarrow> kmem \<Rightarrow> kmem option" where
  "page_remove_pte pgdir la ptep s =
     (if load ptep s AND PTE_P \<noteq> 0 then do {
        page \<leftarrow> pte2page (load ptep s) s;
        let (r, s1) = page_ref_dec page s;
        s2 \<leftarrow> (if r = 0 then free_pages page 1 s1 else Some s1);
        Some (tlb_invalidate pgdir la (store ptep 0 s2))
      }
      else Some s)"

definition page_remove :: "nat \<Rightarrow> u32 \<Rightarrow> kmem \<Rightarrow> kmem option" where
  "page_remove pgdir la s = do {
     (ptep, s1) \<leftarrow> get_pte pgdir la False s;
     case ptep of None \<Rightarrow> Some s1 | Some p \<Rightarrow> page_remove_pte pgdir la p s1
   }"

definition page_insert :: "nat \<Rightarrow> nat \<Rightarrow> u32 \<Rightarrow> u32 \<Rightarrow> kmem \<Rightarrow> (int \<times> kmem) option" where
  "page_insert pgdir page la perm s = do {
     (ptep, s1) \<leftarrow> get_pte pgdir la True s;
     case ptep of
       None \<Rightarrow> Some (- E_NO_MEM, s1)
     | Some p \<Rightarrow> do {
         let (_, s2) = page_ref_inc page s1;
         s3 \<leftarrow> (if load p s2 AND PTE_P \<noteq> 0 then do {
                  q \<leftarrow> pte2page (load p s2) s2;
                  if q = page then Some (snd (page_ref_dec page s2))
                  else page_remove_pte pgdir la p s2
                }
                else Some s2);
         Some (0, tlb_invalidate pgdir la (store p (page2pa page OR PTE_P OR perm) s3))
       }
   }"

text \<open>One pass of the loop of \<open>unmap_range\<close>, with the address it goes on with.\<close>

definition unmap_step :: "nat \<Rightarrow> u32 \<Rightarrow> kmem \<Rightarrow> (u32 \<times> kmem) option" where
  "unmap_step pgdir start s = do {
     (ptep, s1) \<leftarrow> get_pte pgdir start False s;
     case ptep of
       None \<Rightarrow> Some (ROUNDDOWN (start + PTSIZE) PTSIZE, s1)
     | Some p \<Rightarrow> do {
         s2 \<leftarrow> (if load p s1 \<noteq> 0 then page_remove_pte pgdir start p s1 else Some s1);
         Some (start + PGSIZE, s2)
       }
   }"

partial_function (option) unmap_loop :: "nat \<Rightarrow> u32 \<Rightarrow> u32 \<Rightarrow> kmem \<Rightarrow> kmem option" where
  "unmap_loop pgdir start stop s = do {
     (start', s2) \<leftarrow> unmap_step pgdir start s;
     if start' \<noteq> 0 \<and> start' < stop then unmap_loop pgdir start' stop s2 else Some s2
   }"

definition unmap_range :: "nat \<Rightarrow> u32 \<Rightarrow> u32 \<Rightarrow> kmem \<Rightarrow> kmem option" where
  "unmap_range pgdir start stop s = do {
     kassert (start mod PGSIZE = 0 \<and> stop mod PGSIZE = 0);
     kassert (USER_ACCESS start stop);
     unmap_loop pgdir start stop s
   }"

partial_function (option) exit_loop :: "nat \<Rightarrow> u32 \<Rightarrow> u32 \<Rightarrow> kmem \<Rightarrow> kmem option" where
  "exit_loop pgdir start stop s = do {
     let pdep = (pgdir, PDX start);
     s1 \<leftarrow> (if load pdep s AND PTE_P \<noteq> 0 then do {
              pg \<leftarrow> pde2page (load pdep s) s;
              s' \<leftarrow> free_pages pg 1 s;
              Some (store pdep 0 s')
            }
            else Some s);
     let start' = start + PTSIZE;
     if start' \<noteq> 0 \<and> start' < stop then exit_loop pgdir start' stop s1 else Some s1
   }"

definition exit_range :: "nat \<Rightarrow> u32 \<Rightarrow> u32 \<Rightarrow> kmem \<Rightarrow> kmem option" where
  "exit_range pgdir start stop s = do {
     kassert (start mod PGSIZE = 0 \<and> stop mod PGSIZE = 0);
     kassert (USER_ACCESS start stop);
     exit_loop pgdir (ROUNDDOWN start PTSIZE) stop s
   }"

definition copy_page :: "nat \<Rightarrow> nat \<Rightarrow> kmem \<Rightarrow> kmem option" where
  "copy_page page npg s = do {
     src \<leftarrow> page2kva page s;
     dst \<leftarrow> page2kva npg s;
     Some (s\<lparr>km_frames := (km_frames s)(dst := km_frames s src)\<rparr>)
   }"

partial_function (option) copy_loop :: "nat \<Rightarrow> nat \<Rightarrow> u32 \<Rightarrow> u32 \<Rightarrow> kmem \<Rightarrow> (int \<times> kmem) option" where
  "copy_loop to from start stop s = do {
     (ptep, s1) \<leftarrow> get_pte from start False s;
     case ptep of
       None \<Rightarrow> (let start' = ROUNDDOWN (start + PTSIZE) PTSIZE in
                if start' \<noteq> 0 \<and> start' < stop then copy_loop to from start' stop s1 else Some (0, s1))
     | Some p \<Rightarrow>
         if load p s1 AND PTE_P \<noteq> 0 then do {
           (nptep, s2) \<leftarrow> get_pte to start True s1;
           if nptep = None then Some (- E_NO_MEM, s2)
           else do {
             let perm = load p s2 AND PTE_USER;
             page \<leftarrow> pte2page (load p s2) s2;
             (npg, s3) \<leftarrow> alloc_pages 1 s2;
             npg \<leftarrow> npg;
             s4 \<leftarrow> copy_page page npg s3;
             (ret, s5) \<leftarrow> page_insert to npg start perm s4;
             kassert (ret = 0);
             let start' = start + PGSIZE;
             if start' \<noteq> 0 \<and> start' < stop then copy_loop to from start' stop s5 else Some (0, s5)
           }
         }
         else (let start' = start + PGSIZE in
               if start' \<noteq> 0 \<and> start' < stop then copy_loop to from start' stop s1 else Some (0, s1))
   }"

definition copy_range :: "nat \<Rightarrow> nat \<Rightarrow> u32 \<Rightarrow> u32 \<Rightarrow> bool \<Rightarrow> kmem \<Rightarrow> (int \<times> kmem) option" where
  "copy_range to from start stop share s = do {
     kassert (start mod PGSIZE = 0 \<and> stop mod PGSIZE = 0);
     kassert (USER_ACCESS start stop);
     copy_loop to from start stop s
   }"

definition pgdir_alloc_page :: "nat \<Rightarrow> u32 \<Rightarrow> u32 \<Rightarrow> kmem \<Rightarrow> (nat option \<times> kmem) option" where
  "pgdir_alloc_page pgdir la perm s = do {
     (page, s1) \<leftarrow> alloc_pages 1 s;
     case page of
       None \<Rightarrow> Some (None, s1)
     | Some pg \<Rightarrow> do {
         (r, s2) \<leftarrow> page_insert pgdir pg la perm s1;
         if r \<noteq> 0 then do { s3 \<leftarrow> free_pages pg 1 s2; Some (None, s3) }
         else if km_swap_init_ok s2 then
           case km_check_mm s2 of
             None \<Rightarrow> Some (Some pg, s2)
           | Some mm \<Rightarrow> do {
               s3 \<leftarrow> fifo_map_swappable mm pg s2;
               let s4 = upd_kpage pg (\<lambda>p. p\<lparr>pg_pra_vaddr := la\<rparr>) s3;
               kassert (page_ref pg s4 = 1);
               Some (Some pg, s4)
             }
         else Some (Some pg, s2)
       }
   }"

section \<open>Address arithmetic\<close>

lemma PPN_div: "PPN la = unat la div 4096"
  by (simp add: PPN_def PTXSHIFT_def drop_bit_eq_div unat_div)

lemma PDX_PPN: "PDX la = PPN la div 1024"
proof -
  have "drop_bit 22 la AND mask 10 = drop_bit 22 la"
    by (auto simp: bit_eq_iff bit_simps dest: bit_imp_le_length)
  then show ?thesis
    by (simp add: PDX_def PPN_div PDXSHIFT_def mask_eq_exp_minus_1 drop_bit_eq_div unat_div div_mult2_eq [symmetric])
qed

lemma PTX_PPN: "PTX la = PPN la mod 1024"
proof -
  have "unat (drop_bit 12 la AND mask 10) = unat (drop_bit 12 la) mod 2 ^ 10"
    by (simp add: take_bit_eq_mask [symmetric] take_bit_eq_mod unat_mod)
  then show ?thesis by (simp add: PTX_def PPN_def PTXSHIFT_def mask_eq_exp_minus_1)
qed

lemma PPN_lt: "PPN la < 2 ^ 20"
  using unsigned_less [of la, where ?'a = nat] by (simp add: PPN_div less_mult_imp_div_less)

lemma PPN_PTE_ADDR [simp]: "PPN (PTE_ADDR x) = PPN x"
proof -
  have "drop_bit 12 (x AND NOT (mask 12)) = drop_bit 12 x"
    by (auto simp: bit_eq_iff bit_simps dest: bit_imp_le_length)
  then show ?thesis by (simp add: PPN_def PTE_ADDR_def PTXSHIFT_def mask_eq_exp_minus_1)
qed

text \<open>An entry made from a frame and flag bits: it is present and names the frame.\<close>

definition flags_only :: "u32 \<Rightarrow> bool" where
  "flags_only perm \<longleftrightarrow> drop_bit 12 perm = 0"

lemma PPN_entry [simp]:
  assumes "f < 2 ^ 20" and "flags_only perm"
  shows "PPN (page2pa f OR perm) = f"
proof -
  have "unat (push_bit 12 (of_nat f :: u32)) = f * 4096"
    using assms(1) unat_of_nat [of "f * 4096", where ?'a = 32] by (simp add: push_bit_eq_mult)
  moreover have "drop_bit 12 (push_bit 12 (of_nat f :: u32) OR perm) = drop_bit 12 (push_bit 12 (of_nat f))"
    using assms(2) by (simp add: flags_only_def drop_bit_or)
  ultimately show ?thesis
    by (simp only: PPN_def page2pa_def PTXSHIFT_def) (simp add: drop_bit_eq_div unat_div)
qed

lemma PPN_page2pa [simp]: "f < 2 ^ 20 \<Longrightarrow> PPN (page2pa f) = f"
  using PPN_entry [of f 0] by (simp add: flags_only_def)

abbreviation present :: "u32 \<Rightarrow> bool" where
  "present e \<equiv> e AND PTE_P \<noteq> 0"

lemma present_bit: "present e \<longleftrightarrow> bit e 0"
  by (simp add: PTE_P_def and_one_eq mod_2_eq_odd bit_0)

lemma present_or [simp]: "present (x OR PTE_P)" "present (x OR (PTE_P OR y))" "present (x OR PTE_USER)"
  unfolding present_bit by (simp_all add: PTE_P_def PTE_USER_def bit_or_iff bit_1_iff)

lemma not_present_0 [simp]: "\<not> present 0"
  by simp

lemma flags_only_PTE [simp]: "flags_only PTE_USER" "flags_only PTE_P"
  by (simp_all add: flags_only_def PTE_USER_def PTE_U_def PTE_W_def PTE_P_def)

lemma flags_only_or: "flags_only (x OR y) \<longleftrightarrow> flags_only x \<and> flags_only y"
  by (auto simp: flags_only_def drop_bit_or or_eq_0_iff)

lemma next_page:
  assumes "start < USERTOP" and "start mod PGSIZE = 0"
  shows "PPN (start + PGSIZE) = Suc (PPN start)" "start + PGSIZE \<noteq> 0" "(start + PGSIZE) mod PGSIZE = 0"
proof -
  have lt: "unat start < 0xB0000000" using assms(1) by (simp add: USERTOP_def word_less_nat_alt)
  have al: "unat start mod 4096 = 0" using assms(2) by (simp add: PGSIZE_def word_eq_iff_unsigned unat_mod flip: unat_eq_zero)
  have u: "unat (start + PGSIZE) = unat start + 4096" using lt by (simp add: PGSIZE_def unat_word_ariths)
  show "PPN (start + PGSIZE) = Suc (PPN start)" by (simp add: PPN_div u)
  show "start + PGSIZE \<noteq> 0" using u by (metis add_is_0 unat_0 zero_neq_numeral)
  show "(start + PGSIZE) mod PGSIZE = 0"
    using al u by (simp add: PGSIZE_def unat_mod flip: unat_eq_zero)
qed

lemma next_table:
  assumes "start < USERTOP"
  shows "PPN (ROUNDDOWN (start + PTSIZE) PTSIZE) = Suc (PDX start) * 1024"
    "ROUNDDOWN (start + PTSIZE) PTSIZE \<noteq> 0" "ROUNDDOWN (start + PTSIZE) PTSIZE mod PGSIZE = 0"
proof -
  let ?a = "ROUNDDOWN (start + PTSIZE) PTSIZE"
  have lt: "unat start < 0xB0000000" using assms(1) by (simp add: USERTOP_def word_less_nat_alt)
  have u: "unat (start + PTSIZE) = unat start + 4194304" using lt by (simp add: PTSIZE_def unat_word_ariths)
  have "unat ?a = unat (start + PTSIZE) div 4194304 * 4194304"
    by (simp add: unat_ROUNDDOWN minus_mod_eq_div_mult) (simp add: PTSIZE_def)
  moreover have "(unat start + 4194304) div 4194304 = Suc (unat start div 4194304)" by simp
  ultimately have r: "unat ?a = Suc (PDX start) * 1024 * 4096"
    by (simp add: u PDX_PPN PPN_div div_mult2_eq [symmetric] del: div_add_self2)
  show "PPN ?a = Suc (PDX start) * 1024" by (simp only: PPN_div r div_mult_self_is_m zero_less_numeral)
  show "?a \<noteq> 0" using r by (metis mult_is_0 unat_0 nat.simps(3) zero_neq_numeral)
  show "?a mod PGSIZE = 0" using r by (simp add: PGSIZE_def unat_mod flip: unat_eq_zero)
qed

lemma aligned_PPN_less:
  assumes "a mod PGSIZE = 0" and "b mod PGSIZE = 0" and "a < b"
  shows "PPN a < PPN b"
proof -
  have "unat a mod 4096 = 0" "unat b mod 4096 = 0"
    using assms(1,2) by (simp_all add: PGSIZE_def unat_mod flip: unat_eq_zero)
  moreover have "unat a < unat b" using assms(3) by (simp add: word_less_nat_alt)
  moreover have "unat x = 4096 * (unat x div 4096) + unat x mod 4096" for x :: u32 by simp
  ultimately show ?thesis unfolding PPN_div by (metis add.right_neutral nat_mult_less_cancel1 zero_less_numeral)
qed

section \<open>What a page directory maps\<close>

text \<open>The entry the hardware finds for a virtual page, 0 when there is no page table.\<close>

definition walk :: "nat \<Rightarrow> nat \<Rightarrow> kmem \<Rightarrow> u32" where
  "walk pd vpn s =
     (if present (km_frames s pd (vpn div 1024))
      then km_frames s (PPN (km_frames s pd (vpn div 1024))) (vpn mod 1024) else 0)"

text \<open>User space is below \<open>KERNBASE\<close>: directory entries 0 to 767.\<close>

definition UPDE :: nat where "UPDE = 768"
definition UVPN :: nat where "UVPN = UPDE * 1024"

definition tables :: "nat \<Rightarrow> kmem \<Rightarrow> nat set" where
  "tables pd s = {PPN (km_frames s pd i) | i. i < UPDE \<and> present (km_frames s pd i)}"

definition mapped_at :: "nat \<Rightarrow> nat \<Rightarrow> kmem \<Rightarrow> nat set" where
  "mapped_at pd f s = {vpn. vpn < UVPN \<and> present (walk pd vpn s) \<and> PPN (walk pd vpn s) = f}"

text \<open>
  A well-formed directory: it and its page tables are distinct frames in use, a mapped frame is in
  use, is neither the directory nor a page table, and is counted at least as often as it is mapped.
\<close>

definition frame_ok :: "nat set \<Rightarrow> nat \<Rightarrow> kmem \<Rightarrow> bool" where
  "frame_ok fs f s \<longleftrightarrow> f < npage (km_phys s) \<and> f \<notin> fs \<and> \<not> PageReserved (pages (km_phys s) f)"

definition pgdir_ok :: "nat set \<Rightarrow> nat \<Rightarrow> kmem \<Rightarrow> bool" where
  "pgdir_ok fs pd s \<longleftrightarrow> npage (km_phys s) \<le> 2 ^ 20 \<and> pd < npage (km_phys s) \<and> pd \<notin> fs \<and>
     (\<forall>i<UPDE. present (km_frames s pd i) \<longrightarrow>
        frame_ok fs (PPN (km_frames s pd i)) s \<and> PPN (km_frames s pd i) \<noteq> pd) \<and>
     (\<forall>i<UPDE. \<forall>j<UPDE. present (km_frames s pd i) \<longrightarrow> present (km_frames s pd j) \<longrightarrow>
        PPN (km_frames s pd i) = PPN (km_frames s pd j) \<longrightarrow> i = j) \<and>
     (\<forall>vpn<UVPN. present (walk pd vpn s) \<longrightarrow>
        frame_ok fs (PPN (walk pd vpn s)) s \<and> PPN (walk pd vpn s) \<noteq> pd \<and>
        PPN (walk pd vpn s) \<notin> tables pd s) \<and>
     (\<forall>f. int (card (mapped_at pd f s)) \<le> page_ref f s \<or> mapped_at pd f s = {})"

lemma finite_mapped_at [simp]: "finite (mapped_at pd f s)"
  by (simp add: mapped_at_def)

text \<open>Addresses of user space.\<close>

lemma user_la: "la < KERNBASE \<Longrightarrow> PPN la < UVPN \<and> PDX la < UPDE"
  by (simp add: PDX_PPN PPN_div UVPN_def UPDE_def KERNBASE_def word_less_nat_alt less_mult_imp_div_less)

lemma walk_la: "walk pd (PPN la) s =
    (if present (km_frames s pd (PDX la)) then km_frames s (PPN (km_frames s pd (PDX la))) (PTX la) else 0)"
  by (simp add: walk_def PDX_PPN PTX_PPN)

lemma vpn_eq_iff: "vpn = PPN la \<longleftrightarrow> vpn div 1024 = PDX la \<and> vpn mod 1024 = PTX la"
  by (metis PDX_PPN PTX_PPN div_mult_mod_eq)

lemma pgdir_okD:
  assumes "pgdir_ok fs pd s"
  shows "npage (km_phys s) \<le> 2 ^ 20" and "pd < npage (km_phys s)" and "pd \<notin> fs"
    and "i < UPDE \<Longrightarrow> present (km_frames s pd i) \<Longrightarrow> frame_ok fs (PPN (km_frames s pd i)) s"
    and "i < UPDE \<Longrightarrow> present (km_frames s pd i) \<Longrightarrow> PPN (km_frames s pd i) \<noteq> pd"
    and "i < UPDE \<Longrightarrow> j < UPDE \<Longrightarrow> present (km_frames s pd i) \<Longrightarrow> present (km_frames s pd j) \<Longrightarrow>
      PPN (km_frames s pd i) = PPN (km_frames s pd j) \<Longrightarrow> i = j"
    and "vpn < UVPN \<Longrightarrow> present (walk pd vpn s) \<Longrightarrow> frame_ok fs (PPN (walk pd vpn s)) s"
    and "vpn < UVPN \<Longrightarrow> present (walk pd vpn s) \<Longrightarrow> PPN (walk pd vpn s) \<noteq> pd"
    and "vpn < UVPN \<Longrightarrow> present (walk pd vpn s) \<Longrightarrow> PPN (walk pd vpn s) \<notin> tables pd s"
    and "mapped_at pd f s \<noteq> {} \<Longrightarrow> int (card (mapped_at pd f s)) \<le> page_ref f s"
  using assms unfolding pgdir_ok_def by simp_all blast+

text \<open>A store into a page table of \<open>pd\<close> changes one entry.\<close>

lemma walk_store:
  assumes ok: "pgdir_ok fs pd s" and vpn: "vpn < UVPN" and la: "la < KERNBASE"
    and pde: "present (km_frames s pd (PDX la))"
  shows "walk pd vpn (store (PPN (km_frames s pd (PDX la)), PTX la) v s) =
    (if vpn = PPN la then v else walk pd vpn s)"
proof -
  let ?pt = "PPN (km_frames s pd (PDX la))"
  have i: "vpn div 1024 < UPDE" using vpn by (simp add: UVPN_def less_mult_imp_div_less)
  have j: "PDX la < UPDE" using user_la [OF la] by simp
  have pt: "?pt \<noteq> pd" by (rule pgdir_okD(5) [OF ok j pde])
  have inj: "vpn div 1024 = PDX la" if "present (km_frames s pd (vpn div 1024))" "PPN (km_frames s pd (vpn div 1024)) = ?pt"
    using pgdir_okD(6) [OF ok i j that(1) pde that(2)] .
  show ?thesis
  proof (cases "vpn = PPN la")
    case True
    then show ?thesis using pt pde unfolding True walk_la by (simp add: store_def)
  next
    case False
    then have "vpn div 1024 \<noteq> PDX la \<or> vpn mod 1024 \<noteq> PTX la" using vpn_eq_iff by blast
    then show ?thesis using pt inj False by (auto simp: walk_def store_def Let_def)
  qed
qed

text \<open>What none of the mapping operations touches when no swapping takes place.\<close>

definition globals_kept :: "kmem \<Rightarrow> kmem \<Rightarrow> bool" where
  "globals_kept s s' \<longleftrightarrow> km_mgr s' = km_mgr s \<and> km_cr3 s' = km_cr3 s \<and>
     km_swap_init_ok s' = km_swap_init_ok s \<and> km_check_mm s' = km_check_mm s \<and>
     km_pra_list s' = km_pra_list s \<and> km_ide s' = km_ide s \<and> km_max_swap_offset s' = km_max_swap_offset s \<and>
     npage (km_phys s') = npage (km_phys s) \<and>
     (\<forall>q. PageReserved (pages (km_phys s') q) = PageReserved (pages (km_phys s) q))"

lemma globals_kept_refl [simp]: "globals_kept s s"
  by (simp add: globals_kept_def)

lemma globals_kept_trans: "globals_kept s s' \<Longrightarrow> globals_kept s' s'' \<Longrightarrow> globals_kept s s''"
  by (simp add: globals_kept_def)

text \<open>
  Well-formedness of a directory whose page tables stay in place: what the entries map, the free
  pages and the reference counts may change.
\<close>

lemma pgdir_ok_entries:
  assumes ok: "pgdir_ok fs pd s" and pd: "\<And>i. i < UPDE \<Longrightarrow> km_frames s' pd i = km_frames s pd i"
    and g: "globals_kept s s'"
    and used: "\<And>f. f \<in> fs' \<Longrightarrow> f \<in> fs \<or> f \<notin> insert pd (tables pd s)"
    and leaf: "\<And>vpn. vpn < UVPN \<Longrightarrow> present (walk pd vpn s') \<Longrightarrow>
      frame_ok fs' (PPN (walk pd vpn s')) s \<and> PPN (walk pd vpn s') \<notin> insert pd (tables pd s)"
    and cnt: "\<And>f. mapped_at pd f s' \<noteq> {} \<Longrightarrow> int (card (mapped_at pd f s')) \<le> page_ref f s'"
  shows "pgdir_ok fs' pd s'"
proof -
  have fo: "frame_ok fs' f s' = frame_ok fs' f s" for f
    using g by (simp add: frame_ok_def globals_kept_def)
  have np: "npage (km_phys s') = npage (km_phys s)" using g by (simp add: globals_kept_def)
  have tb: "tables pd s' = tables pd s" unfolding tables_def using pd by (intro Collect_cong) metis
  have mem: "PPN (km_frames s pd i) \<in> tables pd s" if "i < UPDE" "present (km_frames s pd i)" for i
    using that by (auto simp: tables_def)
  have pde: "frame_ok fs' (PPN (km_frames s pd i)) s" if "i < UPDE" "present (km_frames s pd i)" for i
    using pgdir_okD(4) [OF ok that] used mem [OF that] by (auto simp: frame_ok_def)
  have "\<forall>f. int (card (mapped_at pd f s')) \<le> page_ref f s' \<or> mapped_at pd f s' = {}" using cnt by blast
  then show ?thesis
    unfolding pgdir_ok_def np fo tb
    using pgdir_okD(1,2) [OF ok] pgdir_okD(3) [OF ok] used [of pd] pde pgdir_okD(5,6) [OF ok] leaf pd
    by auto
qed

lemma walk_frames_cong: "km_frames s' = km_frames s \<Longrightarrow> walk pd vpn s' = walk pd vpn s"
  by (simp add: walk_def)

lemma walk_store_tlb [simp]:
  "walk pd vpn (tlb_invalidate pd' la s) = walk pd vpn s"
  "km_frames (tlb_invalidate pd' la s) = km_frames s" "km_phys (tlb_invalidate pd' la s) = km_phys s"
  "km_mgr (tlb_invalidate pd' la s) = km_mgr s" "globals_kept s0 (tlb_invalidate pd' la s) = globals_kept s0 s"
  "page_ref f (tlb_invalidate pd' la s) = page_ref f s"
  by (auto simp: tlb_invalidate_def walk_def globals_kept_def page_ref_def)

lemma store_simps [simp]:
  "km_phys (store p v s) = km_phys s" "km_mgr (store p v s) = km_mgr s"
  "globals_kept s0 (store p v s) = globals_kept s0 s" "page_ref f (store p v s) = page_ref f s"
  by (auto simp: store_def globals_kept_def page_ref_def)

lemma get_pte_find:
  assumes "pgdir_ok fs pd s" and "la < KERNBASE"
  shows "get_pte_with al pd la False s =
    Some (if present (km_frames s pd (PDX la)) then Some (PPN (km_frames s pd (PDX la)), PTX la) else None, s)"
  using pgdir_okD(4) [OF assms(1), of "PDX la"] user_la [OF assms(2)]
  by (auto simp: get_pte_with_def load_def KADDR_def frame_ok_def)

lemma pgdir_ok_refs:
  assumes ok: "pgdir_ok fs pd s" and fr: "km_frames s' = km_frames s" and g: "globals_kept s s'"
    and ref: "\<And>f. page_ref f s \<le> page_ref f s'"
  shows "pgdir_ok fs pd s'"
proof (rule pgdir_ok_entries [OF ok _ g])
  have w: "walk pd v s' = walk pd v s" for v by (rule walk_frames_cong [OF fr])
  show "frame_ok fs (PPN (walk pd v s')) s \<and> PPN (walk pd v s') \<notin> insert pd (tables pd s)"
    if "v < UVPN" "present (walk pd v s')" for v
    using pgdir_okD(7-9) [OF ok] that unfolding w by blast
  show "int (card (mapped_at pd f s')) \<le> page_ref f s'" if "mapped_at pd f s' \<noteq> {}" for f
    using pgdir_okD(10) [OF ok, of f] ref [of f] that by (simp add: mapped_at_def w)
qed (simp_all add: fr)

lemma set_entry_ok:
  assumes ok: "pgdir_ok fs pd s" and la: "la < KERNBASE" and pde: "present (km_frames s pd (PDX la))"
    and page: "frame_ok fs page s" "page \<notin> insert pd (tables pd s)" and perm: "flags_only perm"
    and cnt: "int (card (insert (PPN la) (mapped_at pd page s))) \<le> page_ref page s"
  defines "e \<equiv> page2pa page OR (PTE_P OR perm)"
  shows "pgdir_ok fs pd (store (PPN (km_frames s pd (PDX la)), PTX la) e s)"
proof -
  let ?s' = "store (PPN (km_frames s pd (PDX la)), PTX la) e s"
  have vpn: "PPN la < UVPN" and i: "PDX la < UPDE" using user_la [OF la] by auto
  have p20: "page < 2 ^ 20" using page(1) pgdir_okD(1) [OF ok] by (simp add: frame_ok_def)
  have e: "PPN e = page" "present e" using p20 perm by (simp_all add: e_def flags_only_or)
  have w: "walk pd v ?s' = (if v = PPN la then e else walk pd v s)" if "v < UVPN" for v
    by (rule walk_store [OF ok that la pde])
  have sub: "mapped_at pd f ?s' \<subseteq> mapped_at pd f s" if "f \<noteq> page" for f
    using that e(1) w by (auto simp: mapped_at_def split: if_splits)
  have own: "mapped_at pd page ?s' = insert (PPN la) (mapped_at pd page s)"
    using e w vpn by (auto simp: mapped_at_def split: if_splits)
  show ?thesis
  proof (rule pgdir_ok_entries [OF ok])
    show "km_frames ?s' pd j = km_frames s pd j" for j
      using pgdir_okD(5) [OF ok i pde] by (simp add: store_def)
    show "frame_ok fs (PPN (walk pd v ?s')) s \<and> PPN (walk pd v ?s') \<notin> insert pd (tables pd s)"
      if "v < UVPN" "present (walk pd v ?s')" for v
      using pgdir_okD(7-9) [OF ok that(1)] that e page w [OF that(1)] by (auto split: if_splits)
    show "int (card (mapped_at pd f ?s')) \<le> page_ref f ?s'" if ne: "mapped_at pd f ?s' \<noteq> {}" for f
    proof (cases "f = page")
      case True
      then show ?thesis using cnt own by simp
    next
      case False
      have "card (mapped_at pd f ?s') \<le> card (mapped_at pd f s)" by (rule card_mono [OF finite_mapped_at sub [OF False]])
      moreover have "mapped_at pd f s \<noteq> {}" using sub [OF False] ne by blast
      ultimately show ?thesis using pgdir_okD(10) [OF ok, of f] by simp
    qed
  qed simp_all
qed

lemma pgdir_ok_tlb [simp]: "pgdir_ok fs pd (tlb_invalidate pd' la s) = pgdir_ok fs pd s"
  by (simp add: pgdir_ok_def frame_ok_def tables_def mapped_at_def)

text \<open>The part of \<open>page_insert\<close> between the look-up and the store of the new entry.\<close>

definition insert_prepare :: "nat \<Rightarrow> nat \<Rightarrow> u32 \<Rightarrow> nat \<times> nat \<Rightarrow> kmem \<Rightarrow> kmem option" where
  "insert_prepare pgdir page la p s2 =
     (if load p s2 AND PTE_P \<noteq> 0 then do {
        q \<leftarrow> pte2page (load p s2) s2;
        if q = page then Some (snd (page_ref_dec page s2)) else page_remove_pte pgdir la p s2
      }
      else Some s2)"

lemma page_insert_alt:
  "page_insert pgdir page la perm s = do {
     (ptep, s1) \<leftarrow> get_pte pgdir la True s;
     case ptep of
       None \<Rightarrow> Some (- E_NO_MEM, s1)
     | Some p \<Rightarrow> do {
         s3 \<leftarrow> insert_prepare pgdir page la p (snd (page_ref_inc page s1));
         Some (0, tlb_invalidate pgdir la (store p (page2pa page OR PTE_P OR perm) s3))
       }
   }"
  unfolding page_insert_def insert_prepare_def Let_def case_prod_beta by (rule refl)

definition kmem_ok :: "pmm_manager \<Rightarrow> (phys_mem \<Rightarrow> bool) \<Rightarrow> kmem \<Rightarrow> bool" where
  "kmem_ok mgr mok s \<longleftrightarrow> km_mgr s = mgr \<and> mok (km_phys s)"

definition may_map :: "nat set \<Rightarrow> nat \<Rightarrow> nat \<Rightarrow> u32 \<Rightarrow> u32 \<Rightarrow> kmem \<Rightarrow> bool" where
  "may_map fs pd page la perm s \<longleftrightarrow> la < KERNBASE \<and> flags_only perm \<and> frame_ok fs page s \<and>
     page \<notin> insert pd (tables pd s) \<and> 0 \<le> page_ref page s \<and> (\<not> km_swap_init_ok s \<or> fs \<noteq> {})"

text \<open>TLB entries of the directory in \<open>cr3\<close> that survive still agree with the page table.\<close>

definition tlb_step :: "nat \<Rightarrow> kmem \<Rightarrow> kmem \<Rightarrow> bool" where
  "tlb_step pd s s' \<longleftrightarrow> (km_cr3 s = pd \<longrightarrow> (\<forall>v<UVPN. km_tlb s' v = None \<or>
     km_tlb s' v = km_tlb s v \<and> walk pd v s' = walk pd v s))"

definition unmaps :: "nat \<Rightarrow> nat \<Rightarrow> nat \<Rightarrow> kmem \<Rightarrow> kmem \<Rightarrow> bool" where
  "unmaps pd m n s s' \<longleftrightarrow> globals_kept s s' \<and> tlb_step pd s s' \<and>
     (\<forall>v<UVPN. walk pd v s' = (if m \<le> v \<and> v < n \<and> present (walk pd v s) then 0 else walk pd v s))"

lemma tlb_step_trans:
  assumes a: "tlb_step pd s s'" and b: "tlb_step pd s' s''" and g: "globals_kept s s'"
  shows "tlb_step pd s s''"
  unfolding tlb_step_def
proof (intro impI allI)
  fix v assume c: "km_cr3 s = pd" and v: "v < UVPN"
  have "km_cr3 s' = pd" using c g by (simp add: globals_kept_def)
  then have "km_tlb s'' v = None \<or> km_tlb s'' v = km_tlb s' v \<and> walk pd v s'' = walk pd v s'"
    using b v by (simp add: tlb_step_def)
  moreover have "km_tlb s' v = None \<or> km_tlb s' v = km_tlb s v \<and> walk pd v s' = walk pd v s"
    using a c v by (simp add: tlb_step_def)
  ultimately show "km_tlb s'' v = None \<or> km_tlb s'' v = km_tlb s v \<and> walk pd v s'' = walk pd v s" by metis
qed

lemma unmaps_trans:
  assumes a: "unmaps pd m n s s'" and b: "unmaps pd n n' s' s''" and le: "m \<le> n" "n \<le> n'"
  shows "unmaps pd m n' s s''"
proof -
  have w: "walk pd v s'' = (if m \<le> v \<and> v < n' \<and> present (walk pd v s) then 0 else walk pd v s)" if "v < UVPN" for v
  proof (cases "n \<le> v")
    case True
    then show ?thesis using a b le that unfolding unmaps_def by simp
  next
    case False
    then have "walk pd v s'' = walk pd v s'" using b that unfolding unmaps_def by simp
    then show ?thesis using a False le that unfolding unmaps_def by simp
  qed
  then show ?thesis
    using a b globals_kept_trans [of s s' s''] tlb_step_trans [of pd s s' s''] unfolding unmaps_def by simp
qed

context pmm_contract
begin

abbreviation kok :: "kmem \<Rightarrow> bool" where
  "kok \<equiv> kmem_ok mgr mok"

abbreviation kfree :: "kmem \<Rightarrow> nat set" where
  "kfree s \<equiv> fset (km_phys s)"

lemma alloc_page:
  assumes "kok s" and "\<not> km_swap_init_ok s \<or> kfree s \<noteq> {}"
  shows "\<exists>r ph. alloc_pages 1 s = Some (r, s\<lparr>km_phys := ph\<rparr>) \<and> mok ph \<and> pages_kept {} (km_phys s) ph \<and>
    (case r of None \<Rightarrow> kfree s = {} \<and> ph = km_phys s
     | Some p \<Rightarrow> p \<in> kfree s \<and> fset ph = kfree s - {p})"
proof -
  have mok: "mok (km_phys s)" and m: "km_mgr s = mgr" using assms(1) by (simp_all add: kmem_ok_def)
  obtain r ph where a: "pmm_alloc_pages mgr 1 (km_phys s) = Some (r, ph)"
    using alloc_returns [OF mok, of 1] by auto
  show ?thesis
  proof (cases r)
    case None
    have "kfree s = {}" using alloc_one_iff [OF mok] a None by auto
    moreover have "ph = km_phys s" using alloc_none [OF mok _ a [unfolded None]] by simp
    ultimately show ?thesis using None assms(2) a m mok
      by (intro exI [of _ None] exI [of _ ph]) (subst alloc_pages.simps, simp add: pages_kept_def)
  next
    case (Some p)
    then have "mok ph" "p \<in> kfree s" "fset ph = kfree s - {p}" "pages_kept {} (km_phys s) ph"
      using alloc_some [OF mok _ a [unfolded Some]] by (auto simp: atLeastLessThanSuc)
    then show ?thesis using Some a m
      by (intro exI [of _ r] exI [of _ ph]) (subst alloc_pages.simps, simp)
  qed
qed

lemma frame1:
  assumes "mok ph" and "p \<notin> fset ph"
  shows "mok (upd_page p (\<lambda>pg. pg\<lparr>pg_ref := v\<rparr>) ph)" and "fset (upd_page p (\<lambda>pg. pg\<lparr>pg_ref := v\<rparr>) ph) = fset ph"
  using frame [OF assms, where v = v and a = "pg_pra_vaddr (pages ph p)"] by (simp_all add: fun_upd_def)

lemma free_page_ok:
  assumes "kok s" and "frame_ok (kfree s) f s"
  shows "\<exists>ph. free_pages f 1 s = Some (s\<lparr>km_phys := ph\<rparr>) \<and> mok ph \<and> fset ph = insert f (kfree s) \<and>
    pages_kept {f} (km_phys s) ph"
proof -
  have "releasable fset (km_phys s) f 1" using assms(2) by (auto simp: releasable_def frame_ok_def)
  from free_some [OF _ this] assms(1) show ?thesis
    by (auto simp: kmem_ok_def free_pages_def atLeastLessThanSuc)
qed

text \<open>Dropping the entry of \<open>la\<close>: one reference less, and the frame is free when it was the last.\<close>

lemma remove_pte_ref:
  assumes k: "kok s" and f: "frame_ok (kfree s) f s"
  shows "\<exists>ph. (let (r, s1) = page_ref_dec f s in if r = 0 then free_pages f 1 s1 else Some s1) =
      Some (s\<lparr>km_phys := ph\<rparr>) \<and> mok ph \<and> fset ph = (if page_ref f s = 1 then insert f (kfree s) else kfree s) \<and>
    globals_kept s (s\<lparr>km_phys := ph\<rparr>) \<and> (\<forall>q. q \<noteq> f \<longrightarrow> pg_ref (pages ph q) = page_ref q s) \<and>
    (page_ref f s \<noteq> 1 \<longrightarrow> pg_ref (pages ph f) = page_ref f s - 1)"
proof -
  let ?s1 = "upd_kpage f (\<lambda>pg. pg\<lparr>pg_ref := pg_ref pg - 1\<rparr>) s"
  have nf: "f \<notin> kfree s" and mok: "mok (km_phys s)" using f k by (auto simp: frame_ok_def kmem_ok_def)
  note fr = frame1 [OF mok nf, of "page_ref f s - 1"]
  have s1: "kok ?s1" "kfree ?s1 = kfree s" "frame_ok (kfree ?s1) f ?s1"
    using fr k f by (auto simp: kmem_ok_def page_ref_def frame_ok_def)
  have g: "globals_kept s ?s1" by (simp add: globals_kept_def)
  show ?thesis
  proof (cases "page_ref f s = 1")
    case True
    from free_page_ok [OF s1(1,3)] obtain ph where ph: "free_pages f 1 ?s1 = Some (?s1\<lparr>km_phys := ph\<rparr>)" "mok ph"
      "fset ph = insert f (kfree ?s1)" "pages_kept {f} (km_phys ?s1) ph" by blast
    then show ?thesis using True s1(2)
      by (intro exI [of _ ph]) (auto simp: page_ref_dec_def pages_kept_def globals_kept_def page_ref_def)
  next
    case False
    then show ?thesis using s1 g
      by (intro exI [of _ "km_phys ?s1"]) (auto simp: page_ref_dec_def kmem_ok_def page_ref_def)
  qed
qed

lemma page_remove_pte_ok:
  assumes k: "kok s" and ok: "pgdir_ok (kfree s) pd s" and la: "la < KERNBASE"
    and pde: "present (km_frames s pd (PDX la))" and pr: "present (walk pd (PPN la) s)"
  shows "\<exists>s'. page_remove_pte pd la (PPN (km_frames s pd (PDX la)), PTX la) s = Some s' \<and> kok s' \<and>
    pgdir_ok (kfree s') pd s' \<and> globals_kept s s' \<and> km_frames s' pd = km_frames s pd \<and>
    (\<forall>vpn<UVPN. walk pd vpn s' = (if vpn = PPN la then 0 else walk pd vpn s)) \<and>
    kfree s' = (if page_ref (PPN (walk pd (PPN la) s)) s = 1
      then insert (PPN (walk pd (PPN la) s)) (kfree s) else kfree s) \<and>
    (\<forall>q. q \<noteq> PPN (walk pd (PPN la) s) \<longrightarrow> page_ref q s' = page_ref q s) \<and>
    km_tlb s' = (if km_cr3 s = pd then (km_tlb s)(PPN la := None) else km_tlb s)"
proof -
  let ?f = "PPN (walk pd (PPN la) s)" and ?p = "(PPN (km_frames s pd (PDX la)), PTX la)"
  note u = user_la [OF la]
  have vpn: "PPN la < UVPN" and i: "PDX la < UPDE" using u by auto
  have f: "frame_ok (kfree s) ?f s" by (rule pgdir_okD(7) [OF ok vpn pr])
  have w: "load ?p s = walk pd (PPN la) s" using pde by (simp add: load_def walk_la)
  have pg: "pte2page (walk pd (PPN la) s) s = Some ?f"
    using pr f by (simp add: pte2page_def pa2page_def frame_ok_def)
  from remove_pte_ref [OF k f] obtain ph where ph:
    "(let (r, s1) = page_ref_dec ?f s in if r = 0 then free_pages ?f 1 s1 else Some s1) = Some (s\<lparr>km_phys := ph\<rparr>)"
    "mok ph" "fset ph = (if page_ref ?f s = 1 then insert ?f (kfree s) else kfree s)"
    "globals_kept s (s\<lparr>km_phys := ph\<rparr>)" "\<forall>q. q \<noteq> ?f \<longrightarrow> pg_ref (pages ph q) = page_ref q s"
    "page_ref ?f s \<noteq> 1 \<longrightarrow> pg_ref (pages ph ?f) = page_ref ?f s - 1" by blast
  let ?s2 = "s\<lparr>km_phys := ph\<rparr>"
  let ?s' = "tlb_invalidate pd la (store ?p 0 ?s2)"
  have run: "page_remove_pte pd la ?p s = Some ?s'"
    using w pr pg ph(1) unfolding page_remove_pte_def by (auto simp: Let_def split: prod.splits)
  have pt: "PPN (km_frames s pd (PDX la)) \<noteq> pd" by (rule pgdir_okD(5) [OF ok i pde])
  have wk: "walk pd v ?s' = (if v = PPN la then 0 else walk pd v s)" if "v < UVPN" for v
    using walk_store [OF ok that la pde, of 0] walk_frames_cong [of ?s' "store ?p 0 s"] by (simp add: store_def)
  have row: "km_frames ?s' pd = km_frames s pd" using pt by (simp add: store_def)
  have g: "globals_kept s ?s'" using ph(4) by simp
  have m: "mapped_at pd q ?s' = mapped_at pd q s - {PPN la}" for q
    using wk by (auto simp: mapped_at_def split: if_splits)
  have mem: "PPN la \<in> mapped_at pd ?f s" using vpn pr by (simp add: mapped_at_def)
  have last: "mapped_at pd ?f s = {PPN la}" if "page_ref ?f s = 1"
    using pgdir_okD(10) [OF ok, of ?f] mem that card_le_Suc0_iff_eq [OF finite_mapped_at, of pd ?f s] by fastforce
  have "pgdir_ok (kfree ?s') pd ?s'"
  proof (rule pgdir_ok_entries [OF ok _ g])
    show "km_frames ?s' pd i = km_frames s pd i" for i using row by simp
    show "f \<in> kfree s \<or> f \<notin> insert pd (tables pd s)" if "f \<in> kfree ?s'" for f
      using that ph(3) pgdir_okD(8,9) [OF ok vpn pr] by (auto split: if_splits)
    show "frame_ok (kfree ?s') (PPN (walk pd v ?s')) s \<and> PPN (walk pd v ?s') \<notin> insert pd (tables pd s)"
      if v: "v < UVPN" and p: "present (walk pd v ?s')" for v
    proof -
      have ne: "v \<noteq> PPN la" "walk pd v ?s' = walk pd v s" using p wk [OF v] by (auto split: if_splits)
      have "PPN (walk pd v s) \<noteq> ?f" if "page_ref ?f s = 1"
        using last [OF that] ne v p by (auto simp: mapped_at_def)
      then show ?thesis using pgdir_okD(7-9) [OF ok v] p ne(2) ph(3) by (auto simp: frame_ok_def)
    qed
    show "int (card (mapped_at pd q ?s')) \<le> page_ref q ?s'" if q: "mapped_at pd q ?s' \<noteq> {}" for q
    proof (cases "q = ?f")
      case True
      have "page_ref ?f s \<noteq> 1" using q last m [of ?f] unfolding True by blast
      then have "page_ref ?f ?s' = page_ref ?f s - 1" using ph(6) by (simp add: page_ref_def)
      moreover have "int (card (mapped_at pd ?f s)) \<le> page_ref ?f s" using pgdir_okD(10) [OF ok] mem by blast
      ultimately show ?thesis unfolding True m card.remove [OF finite_mapped_at mem] by simp
    next
      case False
      then have "mapped_at pd q s - {PPN la} = mapped_at pd q s" by (auto simp: mapped_at_def)
      moreover have "page_ref q ?s' = page_ref q s" using ph(5) False by (simp add: page_ref_def)
      ultimately show ?thesis using pgdir_okD(10) [OF ok, of q] q unfolding m by simp
    qed
  qed
  moreover have "km_tlb ?s' = (if km_cr3 s = pd then (km_tlb s)(PPN la := None) else km_tlb s)"
    by (simp add: tlb_invalidate_def store_def)
  ultimately show ?thesis
    using run k ph(2,3,5) g wk row by (intro exI [of _ ?s']) (auto simp: kmem_ok_def page_ref_def)
qed

text \<open>A fresh page table leaves all translations as they were.\<close>

lemma new_table_ok:
  assumes ok: "pgdir_ok (kfree s) pd s" and la: "la < KERNBASE" and np: "\<not> present (km_frames s pd (PDX la))"
    and p: "p \<in> kfree s" "p < npage (km_phys s)" "\<not> PageReserved (pages (km_phys s) p)"
    and fs: "fs' = kfree s - {p}" and g: "globals_kept s s'"
    and fr: "km_frames s' = (km_frames s)(p := (\<lambda>_. 0), pd := (km_frames s pd)(PDX la := page2pa p OR PTE_USER))"
    and ref: "\<And>q. q \<noteq> p \<Longrightarrow> page_ref q s' = page_ref q s"
  shows "pgdir_ok fs' pd s' \<and> (\<forall>vpn<UVPN. walk pd vpn s' = walk pd vpn s) \<and>
    tables pd s' \<subseteq> insert p (tables pd s)"
proof -
  note ok' = pgdir_okD [OF ok]
  have i: "PDX la < UPDE" using user_la [OF la] by simp
  have pd: "p \<noteq> pd" using ok'(3) p(1) by auto
  have p20: "p < 2 ^ 20" using p(2) ok'(1) by simp
  have pde: "km_frames s' pd j = (if j = PDX la then page2pa p OR PTE_USER else km_frames s pd j)" for j
    by (simp add: fr)
  have pp: "PPN (page2pa p OR PTE_USER) = p" using p20 by simp
  have tp: "PPN (km_frames s pd j) \<noteq> p" if "j < UPDE" "present (km_frames s pd j)" for j
    using ok'(4) [OF that] p(1) by (auto simp: frame_ok_def)
  have wk: "walk pd v s' = walk pd v s" if v: "v < UVPN" for v
  proof -
    have j: "v div 1024 < UPDE" using v by (simp add: UVPN_def less_mult_imp_div_less)
    show ?thesis using np tp [OF j] ok'(5) [OF j] pd pp by (auto simp: walk_def fr)
  qed
  have tb: "tables pd s' \<subseteq> insert p (tables pd s)"
    using pp by (auto simp: tables_def pde split: if_splits)
  have fo: "frame_ok fs' f s' = (frame_ok (kfree s) f s \<or> f = p)" for f
    using g p fs by (auto simp: frame_ok_def globals_kept_def)
  have m: "mapped_at pd f s' = mapped_at pd f s" for f using wk by (auto simp: mapped_at_def)
  have lp: "PPN (walk pd v s) \<noteq> p" if "v < UVPN" "present (walk pd v s)" for v
    using ok'(7) [OF that] p(1) by (auto simp: frame_ok_def)
  have "pgdir_ok fs' pd s'"
    unfolding pgdir_ok_def
  proof (intro conjI allI impI)
    show "npage (km_phys s') \<le> 2 ^ 20" "pd < npage (km_phys s')" "pd \<notin> fs'"
      using ok'(1-3) g fs by (auto simp: globals_kept_def)
    show "frame_ok fs' (PPN (km_frames s' pd j)) s'" "PPN (km_frames s' pd j) \<noteq> pd"
      if "j < UPDE" "present (km_frames s' pd j)" for j
      using ok'(4,5) [of j] that pd pp unfolding fo pde by (auto split: if_splits)
    show "j = k" if "j < UPDE" "k < UPDE" "present (km_frames s' pd j)" "present (km_frames s' pd k)"
      "PPN (km_frames s' pd j) = PPN (km_frames s' pd k)" for j k
      using ok'(6) [of j k] tp [of j] tp [of k] that pp unfolding pde
      by (cases "j = PDX la"; cases "k = PDX la") simp_all
    show "frame_ok fs' (PPN (walk pd v s')) s'" "PPN (walk pd v s') \<noteq> pd" "PPN (walk pd v s') \<notin> tables pd s'"
      if "v < UVPN" "present (walk pd v s')" for v
      using ok'(7-9) [of v] lp [of v] that tb wk [OF that(1)] unfolding fo by auto
    show "int (card (mapped_at pd f s')) \<le> page_ref f s' \<or> mapped_at pd f s' = {}" for f
    proof (cases "f = p")
      case True
      then show ?thesis using lp unfolding m by (auto simp: mapped_at_def)
    next
      case False
      then show ?thesis using ok'(10) [of f] ref [of f] unfolding m by auto
    qed
  qed
  then show ?thesis using wk tb by blast
qed

lemma get_pte_create:
  assumes k: "kok s" and ok: "pgdir_ok (kfree s) pd s" and la: "la < KERNBASE"
    and sw: "\<not> km_swap_init_ok s \<or> kfree s \<noteq> {}"
  shows "\<exists>r s'. get_pte pd la True s = Some (r, s') \<and> kok s' \<and> pgdir_ok (kfree s') pd s' \<and> globals_kept s s' \<and>
    (\<forall>vpn<UVPN. walk pd vpn s' = walk pd vpn s) \<and> kfree s' \<subseteq> kfree s \<and> km_tlb s' = km_tlb s \<and>
    (\<forall>q. q \<notin> kfree s \<longrightarrow> page_ref q s' = page_ref q s) \<and>
    tables pd s' \<subseteq> tables pd s \<union> kfree s \<and>
    (case r of None \<Rightarrow> kfree s = {} \<and> s' = s
     | Some p \<Rightarrow> present (km_frames s' pd (PDX la)) \<and> p = (PPN (km_frames s' pd (PDX la)), PTX la))"
proof (cases "present (km_frames s pd (PDX la))")
  case True
  then have "get_pte pd la True s = get_pte_with (alloc_pages 1) pd la False s"
    by (simp add: get_pte_def get_pte_with_def load_def)
  then show ?thesis using get_pte_find [OF ok la] True k ok
    by (intro exI [of _ "Some (PPN (km_frames s pd (PDX la)), PTX la)"] exI [of _ s]) simp
next
  case False
  from alloc_page [OF k sw] obtain r ph where al: "alloc_pages 1 s = Some (r, s\<lparr>km_phys := ph\<rparr>)" "mok ph"
    "pages_kept {} (km_phys s) ph"
    "case r of None \<Rightarrow> kfree s = {} \<and> ph = km_phys s | Some p \<Rightarrow> p \<in> kfree s \<and> fset ph = kfree s - {p}" by blast
  show ?thesis
  proof (cases r)
    case None
    then show ?thesis using al False k ok
      by (intro exI [of _ None] exI [of _ s]) (simp add: get_pte_def get_pte_with_def load_def)
  next
    case (Some p)
    then have p: "p \<in> kfree s" "fset ph = kfree s - {p}" using al(4) by auto
    have fp: "p < npage (km_phys s)" "\<not> PageReserved (pages (km_phys s) p)"
      using free_page [of "km_phys s" p] k p(1) by (auto simp: kmem_ok_def)
    have p20: "p < 2 ^ 20" using fp pgdir_okD(1) [OF ok] by simp
    have npd: "p \<noteq> pd" using pgdir_okD(3) [OF ok] p(1) by auto
    have np: "npage ph = npage (km_phys s)" using al(3) by (simp add: pages_kept_def)
    let ?ph = "upd_page p (set_page_ref 1) ph"
    let ?s' = "s\<lparr>km_phys := ?ph, km_frames := (km_frames s)(p := (\<lambda>_. 0),
      pd := (km_frames s pd)(PDX la := page2pa p OR PTE_USER))\<rparr>"
    have run: "get_pte pd la True s = Some (Some (p, PTX la), ?s')"
      using al(1) Some False p20 npd np fp(1)
      by (simp add: get_pte_def get_pte_with_def load_def KADDR_def store_def Let_def)
    have "mok ?ph" "fset ?ph = kfree s - {p}"
      using frame1 [OF al(2), of p 1] p(2) by (simp_all add: set_page_ref_def)
    then have k': "kok ?s'" "kfree ?s' = kfree s - {p}" using k by (simp_all add: kmem_ok_def)
    have g: "globals_kept s ?s'" using al(3) by (auto simp: globals_kept_def pages_kept_def)
    have ref: "page_ref q ?s' = page_ref q s" if "q \<noteq> p" for q
      using al(3) that by (simp add: page_ref_def pages_kept_def)
    have nt: "pgdir_ok (kfree s - {p}) pd ?s' \<and> (\<forall>vpn<UVPN. walk pd vpn ?s' = walk pd vpn s) \<and>
        tables pd ?s' \<subseteq> insert p (tables pd s)"
      by (rule new_table_ok [OF ok la False p(1) fp refl g _ ref]) simp_all
    show ?thesis
    proof (intro exI conjI)
      show "get_pte pd la True s = Some (Some (p, PTX la), ?s')" by (rule run)
      show "pgdir_ok (kfree ?s') pd ?s'" "\<forall>vpn<UVPN. walk pd vpn ?s' = walk pd vpn s"
        using nt unfolding k'(2) by blast+
      show "tables pd ?s' \<subseteq> tables pd s \<union> kfree s" using nt p(1) by blast
      show "\<forall>q. q \<notin> kfree s \<longrightarrow> page_ref q ?s' = page_ref q s" using ref p(1) by metis
      show "kfree ?s' \<subseteq> kfree s" unfolding k'(2) by blast
    qed (use k' g p20 in simp_all)
  qed
qed

lemma kok_simps [simp]:
  "kok (store p v s) = kok s" "kok (tlb_invalidate pd la s) = kok s"
  by (simp_all add: kmem_ok_def)

lemma insert_prepare_ok:
  assumes k: "kok s" and ok: "pgdir_ok (kfree s) pd s" and la: "la < KERNBASE"
    and pde: "present (km_frames s pd (PDX la))"
    and page: "frame_ok (kfree s) page s" "page \<notin> insert pd (tables pd s)" "0 \<le> page_ref page s"
  shows "\<exists>s3. insert_prepare pd page la (PPN (km_frames s pd (PDX la)), PTX la) (snd (page_ref_inc page s)) = Some s3 \<and>
    kok s3 \<and> pgdir_ok (kfree s3) pd s3 \<and> globals_kept s s3 \<and> km_frames s3 pd = km_frames s pd \<and>
    (\<forall>v<UVPN. v \<noteq> PPN la \<longrightarrow> walk pd v s3 = walk pd v s) \<and> frame_ok (kfree s3) page s3 \<and>
    int (card (insert (PPN la) (mapped_at pd page s3))) \<le> page_ref page s3 \<and>
    (km_tlb s3 = km_tlb s \<or> km_cr3 s = pd \<and> km_tlb s3 = (km_tlb s)(PPN la := None))"
proof -
  let ?p = "(PPN (km_frames s pd (PDX la)), PTX la)" and ?w = "walk pd (PPN la) s"
  let ?s2 = "snd (page_ref_inc page s)"
  have vpn: "PPN la < UVPN" using user_la [OF la] by simp
  have nf: "page \<notin> kfree s" and mok: "mok (km_phys s)" using page(1) k by (auto simp: frame_ok_def kmem_ok_def)
  have s2: "km_frames ?s2 = km_frames s" "globals_kept s ?s2" "km_tlb ?s2 = km_tlb s"
    "\<And>q. page_ref q ?s2 = (if q = page then page_ref page s + 1 else page_ref q s)"
    by (auto simp: page_ref_inc_def globals_kept_def page_ref_def)
  have k2: "kok ?s2" "kfree ?s2 = kfree s"
    using frame1 [OF mok nf, of "page_ref page s + 1"] k by (simp_all add: kmem_ok_def page_ref_inc_def page_ref_def)
  have ok2: "pgdir_ok (kfree ?s2) pd ?s2"
    unfolding k2(2) by (rule pgdir_ok_refs [OF ok s2(1,2)]) (simp add: s2(4))
  have w2: "walk pd v ?s2 = walk pd v s" for v by (rule walk_frames_cong [OF s2(1)])
  have m2: "mapped_at pd f ?s2 = mapped_at pd f s" for f by (simp add: mapped_at_def w2)
  have ld: "load ?p ?s2 = ?w" using pde s2(1) by (simp add: load_def walk_la)
  have fo: "frame_ok (kfree ?s2) page ?s2" using page(1) s2(2) k2(2) by (simp add: frame_ok_def globals_kept_def)
  have cnt: "int (card (mapped_at pd page s)) \<le> page_ref page s"
    using pgdir_okD(10) [OF ok, of page] page(3) by (cases "mapped_at pd page s = {}") auto
  have pg: "pte2page ?w ?s2 = Some (PPN ?w)" if "present ?w"
    using that pgdir_okD(7) [OF ok vpn that] s2(2) by (simp add: pte2page_def pa2page_def frame_ok_def globals_kept_def)
  consider "\<not> present ?w" | "present ?w" "PPN ?w = page" | "present ?w" "PPN ?w \<noteq> page" by blast
  then show ?thesis
  proof cases
    case 1
    then have "PPN la \<notin> mapped_at pd page s" by (simp add: mapped_at_def)
    then have "int (card (insert (PPN la) (mapped_at pd page ?s2))) \<le> page_ref page ?s2"
      using cnt by (simp add: m2 s2(4))
    then show ?thesis using 1 ld s2 k2 ok2 w2 fo by (intro exI [of _ ?s2]) (simp add: insert_prepare_def)
  next
    case 2
    let ?s3 = "snd (page_ref_dec page ?s2)"
    have s3: "km_frames ?s3 = km_frames s" "globals_kept s ?s3" "km_tlb ?s3 = km_tlb s" "\<And>q. page_ref q ?s3 = page_ref q s"
      by (auto simp: page_ref_inc_def page_ref_dec_def globals_kept_def page_ref_def)
    have "kok ?s3" "kfree ?s3 = kfree s"
      using frame1 [of "km_phys ?s2" page "page_ref page s"] k2 nf
      by (simp_all add: kmem_ok_def page_ref_dec_def page_ref_def s2(4) [unfolded page_ref_def])
    moreover have "pgdir_ok (kfree s) pd ?s3" by (rule pgdir_ok_refs [OF ok s3(1,2)]) (simp add: s3(4))
    moreover have "walk pd v ?s3 = walk pd v s" for v by (rule walk_frames_cong [OF s3(1)])
    moreover have "PPN la \<in> mapped_at pd page s" using 2 vpn by (simp add: mapped_at_def)
    moreover have "frame_ok (kfree s) page ?s3" using page(1) s3(2) by (simp add: frame_ok_def globals_kept_def)
    ultimately show ?thesis
      using 2 ld pg [OF 2(1)] s3 cnt
      by (intro exI [of _ ?s3]) (simp add: insert_prepare_def mapped_at_def insert_absorb)
  next
    case 3
    have pde2: "present (km_frames ?s2 pd (PDX la))" "present (walk pd (PPN la) ?s2)" using pde 3 s2(1) w2 by simp_all
    from page_remove_pte_ok [OF k2(1) ok2 la pde2] obtain s3 where
      s3: "page_remove_pte pd la ?p ?s2 = Some s3" "kok s3" "pgdir_ok (kfree s3) pd s3" "globals_kept ?s2 s3"
        "km_frames s3 pd = km_frames s pd" "\<forall>v<UVPN. walk pd v s3 = (if v = PPN la then 0 else walk pd v s)"
        "kfree s3 = (if page_ref (PPN ?w) ?s2 = 1 then insert (PPN ?w) (kfree s) else kfree s)"
        "\<forall>q. q \<noteq> PPN ?w \<longrightarrow> page_ref q s3 = page_ref q ?s2"
        "km_tlb s3 = (if km_cr3 ?s2 = pd then (km_tlb s)(PPN la := None) else km_tlb s)"
      unfolding s2(1,3) w2 k2(2) by blast
    have m3: "mapped_at pd page s3 = mapped_at pd page s" "PPN la \<notin> mapped_at pd page s"
      using s3(6) 3(2) by (auto simp: mapped_at_def split: if_splits)
    have "frame_ok (kfree s3) page s3"
      using fo s3(4,7) 3(2) k2(2) by (auto simp: frame_ok_def globals_kept_def)
    moreover have "int (card (insert (PPN la) (mapped_at pd page s3))) \<le> page_ref page s3"
      using cnt m3 s3(8) 3(2) by (simp add: s2(4))
    moreover have "km_cr3 ?s2 = km_cr3 s" using s2(2) by (simp add: globals_kept_def)
    ultimately show ?thesis
      using 3 ld pg [OF 3(1)] s3 globals_kept_trans [OF s2(2) s3(4)]
      by (intro exI [of _ s3]) (simp add: insert_prepare_def)
  qed
qed

lemma page_insert_ok:
  assumes k: "kok s" and ok: "pgdir_ok (kfree s) pd s" and mm: "may_map (kfree s) pd page la perm s"
  shows "\<exists>r s'. page_insert pd page la perm s = Some (r, s') \<and> kok s' \<and> pgdir_ok (kfree s') pd s' \<and> globals_kept s s' \<and>
    (r = 0 \<and> (\<forall>v<UVPN. walk pd v s' = (if v = PPN la then page2pa page OR (PTE_P OR perm) else walk pd v s)) \<and>
       km_tlb s' = (if km_cr3 s = pd then (km_tlb s)(PPN la := None) else km_tlb s) \<or>
     r = - E_NO_MEM \<and> kfree s = {} \<and> s' = s)"
proof -
  have la: "la < KERNBASE" and perm: "flags_only perm" and page: "frame_ok (kfree s) page s"
    "page \<notin> insert pd (tables pd s)" "0 \<le> page_ref page s" and sw: "\<not> km_swap_init_ok s \<or> kfree s \<noteq> {}"
    using mm by (simp_all add: may_map_def)
  from get_pte_create [OF k ok la sw] obtain p s1 where
    s1: "get_pte pd la True s = Some (p, s1)" "kok s1" "pgdir_ok (kfree s1) pd s1" "globals_kept s s1"
      "\<forall>vpn<UVPN. walk pd vpn s1 = walk pd vpn s" "kfree s1 \<subseteq> kfree s" "km_tlb s1 = km_tlb s"
      "\<forall>q. q \<notin> kfree s \<longrightarrow> page_ref q s1 = page_ref q s" "tables pd s1 \<subseteq> tables pd s \<union> kfree s"
      "case p of None \<Rightarrow> kfree s = {} \<and> s1 = s
       | Some p \<Rightarrow> present (km_frames s1 pd (PDX la)) \<and> p = (PPN (km_frames s1 pd (PDX la)), PTX la)" by blast
  show ?thesis
  proof (cases p)
    case None
    then show ?thesis using s1 k ok by (auto simp: page_insert_def)
  next
    case (Some pte)
    then have pde: "present (km_frames s1 pd (PDX la))" and pte: "pte = (PPN (km_frames s1 pd (PDX la)), PTX la)"
      using s1(10) by auto
    have nf: "page \<notin> kfree s" using page(1) by (simp add: frame_ok_def)
    have page1: "frame_ok (kfree s1) page s1" "page \<notin> insert pd (tables pd s1)" "0 \<le> page_ref page s1"
      using page nf s1(4,6,8,9) by (auto simp: frame_ok_def globals_kept_def)
    from insert_prepare_ok [OF s1(2,3) la pde page1] obtain s3 where
      s3: "insert_prepare pd page la pte (snd (page_ref_inc page s1)) = Some s3" "kok s3" "pgdir_ok (kfree s3) pd s3"
        "globals_kept s1 s3" "km_frames s3 pd = km_frames s1 pd" "\<forall>v<UVPN. v \<noteq> PPN la \<longrightarrow> walk pd v s3 = walk pd v s1"
        "frame_ok (kfree s3) page s3" "int (card (insert (PPN la) (mapped_at pd page s3))) \<le> page_ref page s3"
        "km_tlb s3 = km_tlb s1 \<or> km_cr3 s1 = pd \<and> km_tlb s3 = (km_tlb s1)(PPN la := None)"
      unfolding pte by blast
    let ?e = "page2pa page OR (PTE_P OR perm)"
    let ?s' = "tlb_invalidate pd la (store pte ?e s3)"
    have run: "page_insert pd page la perm s = Some (0, ?s')"
      using s1(1) s3(1) Some by (simp add: page_insert_alt)
    have pde3: "present (km_frames s3 pd (PDX la))" "page \<notin> insert pd (tables pd s3)"
      using pde page1(2) s3(5) by (simp_all add: tables_def)
    have ok': "pgdir_ok (kfree s3) pd (store pte ?e s3)"
      using set_entry_ok [OF s3(3) la pde3(1) s3(7) pde3(2) perm s3(8)] by (simp add: pte s3(5))
    have wk: "walk pd v ?s' = (if v = PPN la then ?e else walk pd v s)" if "v < UVPN" for v
      using walk_store [OF s3(3) that la pde3(1), of ?e] s3(5,6) s1(5) that by (simp add: pte)
    have tl: "km_tlb ?s' = (if km_cr3 s = pd then (km_tlb s)(PPN la := None) else km_tlb s)"
      using s3(4,9) s1(4,7) by (auto simp: tlb_invalidate_def store_def globals_kept_def)
    show ?thesis
      using run s3(2) ok' wk tl globals_kept_trans [OF s1(4) s3(4)] by (intro exI [of _ 0] exI [of _ ?s']) simp
  qed
qed

text \<open>
  Unmapping a range. Entries of swapped-out pages are left in place: \<open>page_remove_pte\<close> only
  acts on present entries.
\<close>

lemma unmap_step_ok:
  assumes k: "kok s" and ok: "pgdir_ok (kfree s) pd s" and start: "start < USERTOP" "start mod PGSIZE = 0"
  shows "\<exists>start' s'. unmap_step pd start s = Some (start', s') \<and>
    kok s' \<and> pgdir_ok (kfree s') pd s' \<and>
    (\<forall>m. PPN start < m \<and> m \<le> PPN start' \<longrightarrow> unmaps pd (PPN start) m s s') \<and>
    PPN start < PPN start' \<and> start' \<noteq> 0 \<and> start' mod PGSIZE = 0"
proof -
  have la: "start < KERNBASE" using start(1) by (simp add: USERTOP_def KERNBASE_def word_less_nat_alt)
  note gp = get_pte_find [OF ok la, of "alloc_pages 1", folded get_pte_def]
  show ?thesis
  proof (cases "present (km_frames s pd (PDX start))")
    case False
    have "walk pd v s = 0" if "PPN start \<le> v" "v < Suc (PDX start) * 1024" for v
    proof -
      have "v div 1024 = PDX start" using that unfolding PDX_PPN by (simp add: div_nat_eqI dividend_less_times_div)
      then show ?thesis using False by (simp add: walk_def)
    qed
    then have "unmaps pd (PPN start) m s s" if "m \<le> Suc (PDX start) * 1024" for m
      using that k ok by (auto simp: unmaps_def tlb_step_def)
    moreover have "PPN start < Suc (PDX start) * 1024" unfolding PDX_PPN by (simp add: dividend_less_div_times)
    ultimately show ?thesis using False gp next_table [OF start(1)] k ok by (simp add: unmap_step_def)
  next
    case True
    let ?p = "(PPN (km_frames s pd (PDX start)), PTX start)"
    have ld: "load ?p s = walk pd (PPN start) s" using True by (simp add: load_def walk_la)
    show ?thesis
    proof (cases "present (walk pd (PPN start) s)")
      case False
      then have "page_remove_pte pd start ?p s = Some s" by (simp add: page_remove_pte_def ld)
      moreover have "unmaps pd (PPN start) (Suc (PPN start)) s s" using False k ok by (auto simp: unmaps_def tlb_step_def less_Suc_eq)
      ultimately show ?thesis using True gp next_page [OF start] k ok
        by (simp add: unmap_step_def) (auto simp: le_Suc_eq)
    next
      case pr: True
      from page_remove_pte_ok [OF k ok la True pr] obtain s' where s': "page_remove_pte pd start ?p s = Some s'"
        "kok s'" "pgdir_ok (kfree s') pd s'" "globals_kept s s'"
        "\<forall>vpn<UVPN. walk pd vpn s' = (if vpn = PPN start then 0 else walk pd vpn s)"
        "km_tlb s' = (if km_cr3 s = pd then (km_tlb s)(PPN start := None) else km_tlb s)" by blast
      have "unmaps pd (PPN start) (Suc (PPN start)) s s'"
        using s' pr by (auto simp: unmaps_def tlb_step_def less_Suc_eq)
      moreover have "load ?p s \<noteq> 0" using ld pr by (metis not_present_0)
      ultimately show ?thesis using True gp next_page [OF start] s'(1-3)
        by (simp add: unmap_step_def) (auto simp: le_Suc_eq)
    qed
  qed
qed

lemma unmap_loop_ok:
  assumes "kok s" and "pgdir_ok (kfree s) pd s" and "start < stop" and "stop \<le> USERTOP"
    and "start mod PGSIZE = 0" and "stop mod PGSIZE = 0"
  shows "\<exists>s'. unmap_loop pd start stop s = Some s' \<and> kok s' \<and> pgdir_ok (kfree s') pd s' \<and>
    unmaps pd (PPN start) (PPN stop) s s'"
  using assms
proof (induction "PPN stop - PPN start" arbitrary: start s rule: less_induct)
  case less
  have "start < USERTOP" using less.prems(3,4) by simp
  from unmap_step_ok [OF less.prems(1,2) this less.prems(5)] obtain start' s1 where
    st: "unmap_step pd start s = Some (start', s1)" and ok1: "kok s1" "pgdir_ok (kfree s1) pd s1"
    and st': "\<forall>m. PPN start < m \<and> m \<le> PPN start' \<longrightarrow> unmaps pd (PPN start) m s s1"
      "PPN start < PPN start'" "start' \<noteq> 0" "start' mod PGSIZE = 0"
    by (elim exE conjE) (rule that)
  have lt: "PPN start < PPN stop" by (rule aligned_PPN_less [OF less.prems(5,6,3)])
  show ?case
  proof (cases "start' < stop")
    case False
    then have "PPN stop \<le> PPN start'" by (simp add: PPN_div word_less_nat_alt div_le_mono)
    then show ?thesis using st st'(1) ok1 lt False by (subst unmap_loop.simps) auto
  next
    case True
    have "PPN start' < PPN stop"
      by (rule aligned_PPN_less [OF st'(4) less.prems(6) True])
    then have "PPN stop - PPN start' < PPN stop - PPN start" using st'(2) by linarith
    then have "\<exists>s'. unmap_loop pd start' stop s1 = Some s' \<and> kok s' \<and> pgdir_ok (kfree s') pd s' \<and>
        unmaps pd (PPN start') (PPN stop) s1 s'"
      by (rule less.hyps [OF _ ok1 True less.prems(4) st'(4) less.prems(6)])
    then obtain s' where s': "unmap_loop pd start' stop s1 = Some s'" "kok s'" "pgdir_ok (kfree s') pd s'"
      "unmaps pd (PPN start') (PPN stop) s1 s'" by blast
    have "unmaps pd (PPN start) (PPN start') s s1" using st'(1,2) by blast
    from unmaps_trans [OF this s'(4)] have "unmaps pd (PPN start) (PPN stop) s s'"
      using st'(2) \<open>PPN start' < PPN stop\<close> by simp
    then show ?thesis using st st'(3) True s' by (subst unmap_loop.simps) auto
  qed
qed

end

section \<open>Swapping out and in\<close>

text \<open>A page written to good sectors of the swap disk is read back word for word.\<close>

definition swap_slot_ok :: "u32 \<Rightarrow> kmem \<Rightarrow> bool" where
  "swap_slot_ok entry s \<longleftrightarrow> 0 < unat (drop_bit 8 entry) \<and> unat (drop_bit 8 entry) < km_max_swap_offset s \<and>
     VALID_IDE SWAP_DEV_NO (km_ide s) \<and> km_max_swap_offset s * PAGE_NSECT \<le> MAX_DISK_NSECS \<and>
     (\<forall>i<PAGE_NSECT. \<not> ide_bad (km_ide s) SWAP_DEV_NO (unat (drop_bit 8 entry) * PAGE_NSECT + i))"

lemma swap_slot_bound: "off < (m::nat) \<Longrightarrow> m * PAGE_NSECT \<le> n \<Longrightarrow> off * PAGE_NSECT + PAGE_NSECT \<le> n"
proof -
  assume "off < m" "m * PAGE_NSECT \<le> n"
  have "Suc off * PAGE_NSECT \<le> m * PAGE_NSECT" by (rule mult_le_mono1) (use \<open>off < m\<close> in simp)
  then show ?thesis using \<open>m * PAGE_NSECT \<le> n\<close> by simp
qed

lemma swapfs_write_ok:
  assumes ok: "swap_slot_ok entry s" and pg: "page < npage (km_phys s)" "npage (km_phys s) \<le> 2 ^ 20"
  shows "\<exists>d. swapfs_write entry page s = Some (0, s\<lparr>km_ide := d\<rparr>) \<and>
    d = (km_ide s)\<lparr>ide_data := ide_data d\<rparr> \<and>
    ide_write_loop SWAP_DEV_NO (unat (drop_bit 8 entry) * PAGE_NSECT) PAGE_NSECT 0 (km_frames s page) (km_ide s) = (0, d)"
proof -
  let ?off = "unat (drop_bit 8 entry)"
  have good: "\<forall>i<PAGE_NSECT. \<not> ide_bad (km_ide s) SWAP_DEV_NO (?off * PAGE_NSECT + i)"
    using ok by (simp add: swap_slot_ok_def)
  from ide_write_loop_ok [OF good, of 0 "km_frames s page"] obtain d where
    d: "ide_write_loop SWAP_DEV_NO (?off * PAGE_NSECT) PAGE_NSECT 0 (km_frames s page) (km_ide s) = (0, d)"
      "d = (km_ide s)\<lparr>ide_data := ide_data d\<rparr>" by auto
  have "?off * PAGE_NSECT + PAGE_NSECT \<le> MAX_DISK_NSECS"
    using swap_slot_bound ok by (auto simp: swap_slot_ok_def)
  then have "?off * PAGE_NSECT < MAX_DISK_NSECS" "PAGE_NSECT \<le> MAX_NSECS" by (auto simp: PAGE_NSECT_def MAX_NSECS_def)
  then show ?thesis
    using d ok pg \<open>?off * PAGE_NSECT + PAGE_NSECT \<le> MAX_DISK_NSECS\<close>
    by (intro exI [of _ d]) (simp add: swapfs_write_def swap_offset_def swap_slot_ok_def page2kva_def KADDR_def
      ide_write_secs_def Let_def)
qed

lemma swapfs_read_back:
  assumes ok: "swap_slot_ok entry s" and w: "swapfs_write entry page s = Some (r, s1)"
    and pg: "page < npage (km_phys s)" "npage (km_phys s) \<le> 2 ^ 20"
    and s2: "km_ide s2 = km_ide s1" "km_max_swap_offset s2 = km_max_swap_offset s1"
    and q: "q < npage (km_phys s2)" "npage (km_phys s2) \<le> 2 ^ 20"
  shows "\<exists>s3. swapfs_read entry q s2 = Some (0, s3) \<and> (\<forall>i<1024. km_frames s3 q i = km_frames s page i)"
proof -
  let ?off = "unat (drop_bit 8 entry)"
  from swapfs_write_ok [OF ok pg] w obtain d where d: "s1 = s\<lparr>km_ide := d\<rparr>" "d = (km_ide s)\<lparr>ide_data := ide_data d\<rparr>"
    "ide_write_loop SWAP_DEV_NO (?off * PAGE_NSECT) PAGE_NSECT 0 (km_frames s page) (km_ide s) = (0, d)" by auto
  have good: "\<forall>i<PAGE_NSECT. \<not> ide_bad (km_ide s) SWAP_DEV_NO (?off * PAGE_NSECT + i)"
    using ok by (simp add: swap_slot_ok_def)
  from ide_write_read [OF good d(3), of "km_frames s2 q"] obtain buf where
    buf: "ide_read_loop SWAP_DEV_NO (?off * PAGE_NSECT) PAGE_NSECT 0 (km_frames s2 q) d = (0, buf)"
      "\<forall>i<PAGE_NSECT * SECTWORDS. buf i = km_frames s page i" by blast
  have v: "VALID_IDE SWAP_DEV_NO d" using ok by (subst d(2)) (simp add: swap_slot_ok_def VALID_IDE_def)
  have "?off * PAGE_NSECT + PAGE_NSECT \<le> MAX_DISK_NSECS"
    using swap_slot_bound ok by (auto simp: swap_slot_ok_def)
  then have b: "?off * PAGE_NSECT + PAGE_NSECT \<le> MAX_DISK_NSECS" "?off * PAGE_NSECT < MAX_DISK_NSECS" "PAGE_NSECT \<le> MAX_NSECS"
    by (auto simp: PAGE_NSECT_def MAX_NSECS_def)
  have "swapfs_read entry q s2 = Some (0, s2\<lparr>km_frames := (km_frames s2)(q := buf)\<rparr>)"
    using ok q s2 d(1) v b buf(1)
    by (simp add: swapfs_read_def swap_offset_def swap_slot_ok_def page2kva_def KADDR_def ide_read_secs_def Let_def)
  then show ?thesis using buf(2) by (simp add: PAGE_NSECT_def SECTWORDS_def)
qed

text \<open>
  Memory is exhausted: the oldest page of the FIFO list is written out, its entry becomes the swap
  entry, and the frame is handed out.
\<close>

definition evictable :: "mm_swap \<Rightarrow> nat \<Rightarrow> nat \<times> nat \<Rightarrow> kmem \<Rightarrow> bool" where
  "evictable mm pg ptep s \<longleftrightarrow> km_swap_init_ok s \<and> km_check_mm s = Some mm \<and> mms_sm_priv mm \<and>
     npage (km_phys s) \<le> 2 ^ 20 \<and>
     (let v = pg_pra_vaddr (pages (km_phys s) pg); pde = km_frames s (mms_pgdir mm) (PDX v) in
      present pde \<and> PPN pde < npage (km_phys s) \<and> ptep = (PPN pde, PTX v) \<and> present (load ptep s) \<and>
      swap_slot_ok (swap_entry_of v) s)"

lemma swap_entry_not_present: "\<not> present (swap_entry_of v)"
  unfolding present_bit by (simp add: swap_entry_of_def bit_simps)

lemma kmem_ide_inj: "s\<lparr>km_ide := b\<rparr> = s\<lparr>km_ide := d\<rparr> \<longleftrightarrow> b = d"
  by (cases s) auto

lemma alloc_pages_retry:
  assumes "pmm_alloc_pages (km_mgr s) 1 (km_phys s) = Some (None, km_phys s)" and "km_swap_init_ok s"
  shows "alloc_pages 1 s = do { (i, s2) \<leftarrow> swap_out (km_check_mm s) 1 False s; alloc_pages 1 s2 }"
  by (subst alloc_pages.simps) (simp add: assms [simplified])

context pmm_contract
begin

lemma swap_out_one:
  assumes k: "kok s" and ev: "evictable mm pg ptep s" and fifo: "km_pra_list s = xs @ [pg]"
    and pg: "frame_ok (kfree s) pg s"
  shows "\<exists>d ph. swap_out (km_check_mm s) 1 False s = Some (1, tlb_invalidate (mms_pgdir mm) (pg_pra_vaddr (pages (km_phys s) pg))
      ((store ptep (swap_entry_of (pg_pra_vaddr (pages (km_phys s) pg))) (s\<lparr>km_pra_list := xs, km_ide := d\<rparr>))\<lparr>km_phys := ph\<rparr>)) \<and>
    mok ph \<and> fset ph = insert pg (kfree s) \<and> pages_kept {pg} (km_phys s) ph \<and>
    swapfs_write (swap_entry_of (pg_pra_vaddr (pages (km_phys s) pg))) pg s = Some (0, s\<lparr>km_ide := d\<rparr>)"
proof -
  let ?v = "pg_pra_vaddr (pages (km_phys s) pg)"
  let ?e = "swap_entry_of ?v"
  let ?pde = "km_frames s (mms_pgdir mm) (PDX ?v)"
  have e: "km_check_mm s = Some mm" "mms_sm_priv mm" "npage (km_phys s) \<le> 2 ^ 20" "present ?pde"
    "PPN ?pde < npage (km_phys s)" "ptep = (PPN ?pde, PTX ?v)" "present (load ptep s)" "swap_slot_ok ?e s"
    using ev unfolding evictable_def Let_def by blast+
  have "pg < npage (km_phys s)" using pg by (simp add: frame_ok_def)
  from swapfs_write_ok [OF e(8) this e(3)] obtain d where w: "swapfs_write ?e pg s = Some (0, s\<lparr>km_ide := d\<rparr>)" by blast
  then have w': "swapfs_write ?e pg (s\<lparr>km_pra_list := xs\<rparr>) = Some (0, s\<lparr>km_pra_list := xs, km_ide := d\<rparr>)"
    by (auto simp: swapfs_write_def swap_offset_def page2kva_def KADDR_def Let_def kmem_ide_inj
        elim!: bind_SomeE split: prod.splits)
  let ?s3 = "store ptep ?e (s\<lparr>km_pra_list := xs, km_ide := d\<rparr>)"
  have s3: "kok ?s3" "kfree ?s3 = kfree s" "frame_ok (kfree ?s3) pg ?s3"
    using k pg by (simp_all add: kmem_ok_def frame_ok_def store_def)
  from free_page_ok [OF s3(1,3)] obtain ph where ph: "free_pages pg 1 ?s3 = Some (?s3\<lparr>km_phys := ph\<rparr>)" "mok ph"
    "fset ph = insert pg (kfree s)" "pages_kept {pg} (km_phys s) ph" using s3(2) by auto
  have "swap_out (km_check_mm s) 1 False s =
      Some (1, tlb_invalidate (mms_pgdir mm) ?v (?s3\<lparr>km_phys := ph\<rparr>))"
    using e fifo w' ph(1)
    by (simp add: swap_out_def fifo_swap_out_victim_def lookup_pte_def get_pte_with_def load_def KADDR_def store_def Let_def)
  then show ?thesis using ph w by auto
qed

lemma alloc_evicts:
  assumes k: "kok s" and full: "kfree s = {}" and ev: "evictable mm pg ptep s" and fifo: "km_pra_list s = xs @ [pg]"
    and pg: "frame_ok (kfree s) pg s"
  shows "\<exists>s'. alloc_pages 1 s = Some (Some pg, s') \<and> kok s' \<and> kfree s' = {} \<and> km_pra_list s' = xs \<and>
    (\<forall>q. load q s' = (if q = ptep then swap_entry_of (pg_pra_vaddr (pages (km_phys s) pg)) else load q s)) \<and>
    npage (km_phys s') = npage (km_phys s) \<and> km_max_swap_offset s' = km_max_swap_offset s \<and>
    swapfs_write (swap_entry_of (pg_pra_vaddr (pages (km_phys s) pg))) pg s = Some (0, s\<lparr>km_ide := km_ide s'\<rparr>)"
proof -
  let ?v = "pg_pra_vaddr (pages (km_phys s) pg)"
  have mok: "mok (km_phys s)" and m: "km_mgr s = mgr" using k by (simp_all add: kmem_ok_def)
  obtain s0 where "pmm_alloc_pages mgr 1 (km_phys s) = Some (None, s0)" using alloc_one_iff [OF mok] full by blast
  moreover from this have "s0 = km_phys s" using alloc_none [OF mok, of 1 s0] by simp
  ultimately have retry: "alloc_pages 1 s = do { (i, s2) \<leftarrow> swap_out (km_check_mm s) 1 False s; alloc_pages 1 s2 }"
    using ev m by (intro alloc_pages_retry) (simp_all add: evictable_def)
  from swap_out_one [OF k ev fifo pg] obtain d ph where so:
    "swap_out (km_check_mm s) 1 False s = Some (1, tlb_invalidate (mms_pgdir mm) ?v
      ((store ptep (swap_entry_of ?v) (s\<lparr>km_pra_list := xs, km_ide := d\<rparr>))\<lparr>km_phys := ph\<rparr>))" (is "_ = Some (1, ?s2)")
    "mok ph" "fset ph = insert pg (kfree s)" "pages_kept {pg} (km_phys s) ph"
    "swapfs_write (swap_entry_of ?v) pg s = Some (0, s\<lparr>km_ide := d\<rparr>)" by blast
  have k2: "kok ?s2" "kfree ?s2 = {pg}" using so(2,3) full m by (simp_all add: kmem_ok_def store_def)
  from alloc_page [OF k2(1)] k2(2) obtain r ph' where al: "alloc_pages 1 ?s2 = Some (r, ?s2\<lparr>km_phys := ph'\<rparr>)" "mok ph'"
    "pages_kept {} (km_phys ?s2) ph'" "case r of None \<Rightarrow> kfree ?s2 = {} \<and> ph' = km_phys ?s2 | Some p \<Rightarrow> p \<in> kfree ?s2 \<and> fset ph' = kfree ?s2 - {p}"
    by blast
  have r: "r = Some pg" "fset ph' = {}" using al(4) k2(2) by (auto split: option.splits)
  have "alloc_pages 1 s = Some (Some pg, ?s2\<lparr>km_phys := ph'\<rparr>)" using retry so(1) al(1) r(1) by simp
  moreover have "npage ph' = npage (km_phys s)" using al(3) so(4) by (simp add: pages_kept_def)
  moreover have "load q (?s2\<lparr>km_phys := ph'\<rparr>) = (if q = ptep then swap_entry_of ?v else load q s)" for q
    by (cases q, cases ptep) (auto simp: load_def store_def tlb_invalidate_def)
  ultimately show ?thesis
    using k m so(5) al(2) r(2)
    by (intro exI [of _ "?s2\<lparr>km_phys := ph'\<rparr>"]) (simp add: kmem_ok_def store_def tlb_invalidate_def)
qed

end

section \<open>Properties\<close>

text \<open>A machine with a page directory in frame 2 and a page in frame 3; frames 4 to 6 are free.\<close>

definition pm_two :: phys_mem where
  "pm_two = snd (the (default_alloc_pages 1 (snd (the (default_alloc_pages 1 pm_small)))))"

definition km_small :: kmem where
  "km_small = \<lparr>km_mgr = default_pmm_manager, km_phys = pm_two, km_frames = (\<lambda>_ _. 0), km_cr3 = 2, km_tlb = (\<lambda>_. None),
     km_swap_init_ok = False, km_check_mm = None, km_pra_list = [],
     km_ide = \<lparr>ide_valid = (\<lambda>_. True), ide_size = (\<lambda>_. 8192), ide_data = (\<lambda>_ _ _. 0), ide_bad = (\<lambda>_ _. False)\<rparr>,
     km_max_swap_offset = 1024\<rparr>"

lemma pm_two:
  "pmm_inv pm_two" "free_set pm_two = {4..<7}" "npage pm_two = 8"
  "\<And>q. q \<in> {2..<7} \<Longrightarrow> \<not> PageReserved (pages pm_two q) \<and> pg_ref (pages pm_two q) = 0"
proof -
  have "\<exists>s1 s2. default_alloc_pages 1 pm_small = Some (Some 2, s1) \<and> default_alloc_pages 1 s1 = Some (Some 3, s2)"
    by (simp add: pm_small_def default_init_memmap_def default_init_def pm_boot_def default_alloc_pages_def
      eval_nat_numeral Let_def)
  then obtain s1 s2 where s: "default_alloc_pages 1 pm_small = Some (Some 2, s1)" "default_alloc_pages 1 s1 = Some (Some 3, s2)"
    by blast
  note a = alloc_SomeD [OF pm_small(2) _ s(1)]
  have a1: "pmm_inv s1" using a by simp
  note b = alloc_SomeD [OF a1 _ s(2)]
  have e: "pm_two = s2" by (simp only: pm_two_def s option.sel snd_conv)
  have ivl: "{2..<7} - {2..<3} - {3..<4} = {4..<7::nat}" by auto
  show "pmm_inv pm_two" "free_set pm_two = {4..<7}" "npage pm_two = 8"
    using a b pm_small(3,4) ivl by (simp_all add: e alloc_effect_def)
  show "\<not> PageReserved (pages pm_two q) \<and> pg_ref (pages pm_two q) = 0" if "q \<in> {2..<7}" for q
    using a b pm_small(2,3) that by (simp add: e alloc_effect_def pmm_inv_def)
qed

lemma km_small:
  "kmem_ok default_pmm_manager pmm_inv km_small" "free_set (km_phys km_small) = {4..<7}"
  "pgdir_ok (free_set (km_phys km_small)) 2 km_small"
  "may_map (free_set (km_phys km_small)) 2 3 0x800000 PTE_W km_small"
proof -
  show "kmem_ok default_pmm_manager pmm_inv km_small" "free_set (km_phys km_small) = {4..<7}"
    using pm_two by (simp_all add: km_small_def kmem_ok_def)
  have w: "walk 2 v km_small = 0" "km_frames km_small 2 i = 0" for v i by (simp_all add: walk_def km_small_def)
  show "pgdir_ok (free_set (km_phys km_small)) 2 km_small"
    using pm_two(2,3) by (simp add: pgdir_ok_def mapped_at_def w) (simp add: km_small_def)
  show "may_map (free_set (km_phys km_small)) 2 3 0x800000 PTE_W km_small"
    using pm_two(2-4) by (simp add: may_map_def KERNBASE_def tables_def flags_only_def PTE_W_def frame_ok_def page_ref_def km_small_def)
qed



text \<open>
  C8: \<open>unmap_range\<close> of a page-aligned user range returns, removes every present mapping in the
  range, leaves every other user mapping alone, and keeps memory and directory well-formed.
\<close>

theorem unmap_range_unmaps:
  assumes "kmem_ok default_pmm_manager pmm_inv s" and "pgdir_ok (free_set (km_phys s)) pd s"
    and "start mod PGSIZE = 0" and "stop mod PGSIZE = 0" and "USER_ACCESS start stop"
  shows "\<exists>s'. unmap_range pd start stop s = Some s' \<and>
    kmem_ok default_pmm_manager pmm_inv s' \<and> pgdir_ok (free_set (km_phys s')) pd s' \<and>
    (\<forall>v<UVPN. walk pd v s' = (if PPN start \<le> v \<and> v < PPN stop \<and> present (walk pd v s) then 0 else walk pd v s))"
proof -
  have "start < stop" "stop \<le> USERTOP" using assms(5) by (simp_all add: USER_ACCESS_def)
  from default_pmm.unmap_loop_ok [OF assms(1,2) this assms(3,4)] show ?thesis
    using assms(3-5) by (auto simp: unmap_range_def unmaps_def)
qed

theorem unmap_range_unmaps_witness:
  "\<exists>s1 s2. page_insert 2 3 0x800000 PTE_W km_small = Some (0, s1) \<and> walk 2 0x800 s1 = 0x3003 \<and>
     unmap_range 2 0x800000 0x802000 s1 = Some s2 \<and> walk 2 0x800 s2 = 0"
proof -
  have v: "PPN 0x800000 = 0x800" "PPN 0x802000 = 0x802" "0x800 < UVPN" by (simp_all add: PPN_div UVPN_def UPDE_def)
  have e: "page2pa 3 OR (PTE_P OR PTE_W) = 0x3003" by (simp add: page2pa_def PTE_P_def PTE_W_def PTXSHIFT_def)
  obtain s1 where s1: "page_insert 2 3 0x800000 PTE_W km_small = Some (0, s1)" "kmem_ok default_pmm_manager pmm_inv s1"
    "pgdir_ok (free_set (km_phys s1)) 2 s1" "walk 2 0x800 s1 = 0x3003"
    using default_pmm.page_insert_ok [OF km_small(1,3,4)] unfolding km_small(2) v(1) e using v(3) by fastforce
  have "present 0x3003" by (simp add: PTE_P_def)
  moreover have "(0x800000 :: u32) mod PGSIZE = 0" "(0x802000 :: u32) mod PGSIZE = 0" "USER_ACCESS 0x800000 0x802000"
    by (simp_all add: PGSIZE_def USER_ACCESS_def USERBASE_def USERTOP_def)
  ultimately show ?thesis
    using unmap_range_unmaps [OF s1(2,3), of "0x800000" "0x802000"] s1(1,4) v by fastforce
qed

definition tlb_coherent :: "kmem \<Rightarrow> bool" where
  "tlb_coherent s \<longleftrightarrow> (\<forall>v<UVPN. \<forall>e. km_tlb s v = Some e \<longrightarrow> walk (km_cr3 s) v s = e)"

text \<open>
  C9: the TLB never goes stale. If every cached user translation of the current directory agrees
  with its page table, this is still so after \<open>page_insert\<close> and after \<open>unmap_range\<close> on it.
\<close>

theorem tlb_stays_coherent:
  assumes "kmem_ok default_pmm_manager pmm_inv s" and "pgdir_ok (free_set (km_phys s)) (km_cr3 s) s"
    and "tlb_coherent s"
  shows "(may_map (free_set (km_phys s)) (km_cr3 s) page la perm s \<longrightarrow>
      (\<exists>r s'. page_insert (km_cr3 s) page la perm s = Some (r, s') \<and> tlb_coherent s')) \<and>
    (start mod PGSIZE = 0 \<and> stop mod PGSIZE = 0 \<and> USER_ACCESS start stop \<longrightarrow>
      (\<exists>s'. unmap_range (km_cr3 s) start stop s = Some s' \<and> tlb_coherent s'))"
proof (intro conjI impI)
  assume "may_map (free_set (km_phys s)) (km_cr3 s) page la perm s"
  from default_pmm.page_insert_ok [OF assms(1,2) this] assms(3)
  show "\<exists>r s'. page_insert (km_cr3 s) page la perm s = Some (r, s') \<and> tlb_coherent s'"
    by (fastforce simp: tlb_coherent_def globals_kept_def split: if_splits)
next
  assume a: "start mod PGSIZE = 0 \<and> stop mod PGSIZE = 0 \<and> USER_ACCESS start stop"
  then have "start < stop" "stop \<le> USERTOP" by (simp_all add: USER_ACCESS_def)
  from default_pmm.unmap_loop_ok [OF assms(1,2) this] a obtain s' where
    s': "unmap_loop (km_cr3 s) start stop s = Some s'" "unmaps (km_cr3 s) (PPN start) (PPN stop) s s'" by blast
  have "tlb_coherent s'"
    unfolding tlb_coherent_def
  proof (intro allI impI)
    fix v e assume v: "v < UVPN" and e: "km_tlb s' v = Some e"
    have "tlb_step (km_cr3 s) s s'" using s'(2) unfolding unmaps_def by blast
    then have "km_tlb s' v = None \<or> km_tlb s' v = km_tlb s v \<and> walk (km_cr3 s) v s' = walk (km_cr3 s) v s"
      using v by (simp add: tlb_step_def)
    moreover have "km_cr3 s' = km_cr3 s" using s'(2) by (simp add: unmaps_def globals_kept_def)
    ultimately show "walk (km_cr3 s') v s' = e" using assms(3) v e by (simp add: tlb_coherent_def)
  qed
  then show "\<exists>s'. unmap_range (km_cr3 s) start stop s = Some s' \<and> tlb_coherent s'"
    using s'(1) a by (simp add: unmap_range_def)
qed

theorem tlb_stays_coherent_witness:
  "\<exists>r s'. page_insert 2 3 0x800000 PTE_W km_small = Some (r, s') \<and> tlb_coherent s'"
proof -
  have c: "km_cr3 km_small = 2" and t: "tlb_coherent km_small" by (simp_all add: km_small_def tlb_coherent_def)
  show ?thesis using tlb_stays_coherent [OF km_small(1) _ t, of 3 "0x800000" PTE_W] km_small(3,4) unfolding c by blast
qed

text \<open>
  C10: with no free page left, \<open>alloc_pages(1)\<close> evicts the oldest page of the FIFO list: its entry
  becomes the swap entry of its address, no other entry changes, its frame is returned, and reading
  the swap entry back into any frame later restores its 1024 words.
\<close>

theorem swap_evicts_fifo:
  assumes "kmem_ok default_pmm_manager pmm_inv s" and "free_set (km_phys s) = {}"
    and ev: "evictable mm pg ptep s" and "km_pra_list s = xs @ [pg]" and pg: "frame_ok {} pg s"
  shows "\<exists>s'. alloc_pages 1 s = Some (Some pg, s') \<and> km_pra_list s' = xs \<and>
    (\<forall>q. load q s' = (if q = ptep then swap_entry_of (pg_pra_vaddr (pages (km_phys s) pg)) else load q s)) \<and>
    \<not> present (load ptep s') \<and>
    (\<forall>f<npage (km_phys s). \<exists>s3. swapfs_read (load ptep s') f s' = Some (0, s3) \<and>
       (\<forall>i<1024. km_frames s3 f i = km_frames s pg i))"
proof -
  let ?e = "swap_entry_of (pg_pra_vaddr (pages (km_phys s) pg))"
  have np: "npage (km_phys s) \<le> 2 ^ 20" and slot: "swap_slot_ok ?e s" and lt: "pg < npage (km_phys s)"
    using ev pg unfolding evictable_def Let_def frame_ok_def by blast+
  from default_pmm.alloc_evicts [OF assms(1,2) ev assms(4)] pg assms(2) obtain s' where
    s': "alloc_pages 1 s = Some (Some pg, s')" "km_pra_list s' = xs"
      "\<forall>q. load q s' = (if q = ptep then ?e else load q s)" "npage (km_phys s') = npage (km_phys s)"
      "km_max_swap_offset s' = km_max_swap_offset s" "swapfs_write ?e pg s = Some (0, s\<lparr>km_ide := km_ide s'\<rparr>)" by auto
  have "\<exists>s3. swapfs_read ?e f s' = Some (0, s3) \<and> (\<forall>i<1024. km_frames s3 f i = km_frames s pg i)"
    if "f < npage (km_phys s)" for f
    using swapfs_read_back [OF slot s'(6) lt np, of s' f] s'(4,5) np that by simp
  moreover have "load ptep s' = ?e" using s'(3) by metis
  ultimately show ?thesis using s'(1-3) swap_entry_not_present by (intro exI [of _ s']) metis
qed

text \<open>A full machine: directory 2, page table 3, and page 4 mapped at 0x800000 and swappable.\<close>

definition pm_full :: phys_mem where
  "pm_full = upd_page 4 (\<lambda>pg. pg\<lparr>pg_ref := 1, pg_pra_vaddr := 0x800000\<rparr>) (snd (the (default_alloc_pages 3 pm_two)))"

definition km_full :: kmem where
  "km_full = km_small\<lparr>km_phys := pm_full, km_frames := (\<lambda>f i. if f = 2 \<and> i = 2 then 0x3007
     else if f = 3 \<and> i = 0 then 0x4003 else of_nat i), km_swap_init_ok := True,
     km_check_mm := Some \<lparr>mms_pgdir = 2, mms_sm_priv = True\<rparr>, km_pra_list := [4], km_max_swap_offset := 4096\<rparr>"

lemma pm_full:
  "pmm_inv pm_full" "free_set pm_full = {}" "npage pm_full = 8" "\<not> PageReserved (pages pm_full 4)"
  "pg_pra_vaddr (pages pm_full 4) = 0x800000"
proof -
  obtain r s where s: "default_alloc_pages 3 pm_two = Some (r, s)" using alloc_total [OF pm_two(1), of 3] by auto
  have "\<not> (\<nexists>p. {p..<p + 3} \<subseteq> free_set pm_two)" using pm_two(2) by (auto intro!: exI [of _ 4])
  then obtain p where p: "r = Some p" using alloc_NoneD [OF pm_two(1), of 3 s] s by (cases r) auto
  note a = alloc_SomeD [OF pm_two(1) _ s [unfolded p]]
  have "{p..<p + 3} \<subseteq> {4..<7}" using a pm_two(2) by simp
  then have "p = 4" by auto
  then have f: "pmm_inv s" "free_set s = {}" "npage s = 8" "\<not> PageReserved (pages s 4)"
    using a pm_two by (auto simp: alloc_effect_def)
  have e: "pm_full = upd_page 4 (\<lambda>pg. pg\<lparr>pg_ref := 1, pg_pra_vaddr := 0x800000\<rparr>) s"
    by (simp only: pm_full_def s option.sel snd_conv)
  show "pmm_inv pm_full" "free_set pm_full = {}" unfolding e
    using default_pmm.frame [OF f(1), where p = 4 and v = 1 and a = "0x800000"] f(2) by simp_all
  show "npage pm_full = 8" "\<not> PageReserved (pages pm_full 4)" "pg_pra_vaddr (pages pm_full 4) = 0x800000"
    using f by (simp_all add: e)
qed

lemma km_full:
  "kmem_ok default_pmm_manager pmm_inv km_full" "free_set (km_phys km_full) = {}"
  "evictable \<lparr>mms_pgdir = 2, mms_sm_priv = True\<rparr> 4 (3, 0) km_full" "frame_ok {} 4 km_full"
proof -
  show "kmem_ok default_pmm_manager pmm_inv km_full" "free_set (km_phys km_full) = {}" "frame_ok {} 4 km_full"
    using pm_full by (simp_all add: km_full_def km_small_def kmem_ok_def frame_ok_def)
  have "PDX 0x800000 = 2" "PTX 0x800000 = 0" "PPN 0x3007 = 3" by (simp_all add: PDX_PPN PTX_PPN PPN_div)
  then show "evictable \<lparr>mms_pgdir = 2, mms_sm_priv = True\<rparr> 4 (3, 0) km_full"
    using pm_full(3,5)
    by (simp add: evictable_def km_full_def km_small_def load_def swap_slot_ok_def swap_entry_of_def PGSIZE_def
      PTE_P_def VALID_IDE_def MAX_IDE_def SWAP_DEV_NO_def PAGE_NSECT_def MAX_DISK_NSECS_def)
qed

theorem swap_evicts_fifo_witness:
  "\<exists>s'. alloc_pages 1 km_full = Some (Some 4, s') \<and> load (3, 0) s' = 0x80100 \<and> km_pra_list s' = []"
proof -
  have "km_pra_list km_full = [] @ [4]" by (simp add: km_full_def)
  from swap_evicts_fifo [OF km_full(1-3) this km_full(4)]
  obtain s' where "alloc_pages 1 km_full = Some (Some 4, s')" "km_pra_list s' = []"
    "load (3, 0) s' = swap_entry_of (pg_pra_vaddr (pages (km_phys km_full) 4))" by auto
  moreover have "swap_entry_of (pg_pra_vaddr (pages (km_phys km_full) 4)) = 0x80100"
    using pm_full(5) by (simp add: km_full_def swap_entry_of_def PGSIZE_def)
  ultimately show ?thesis by auto
qed



end
