(* ===== verification/Vmm.thy ===== *)
theory Vmm
  imports PageTable Lib_String
begin

text \<open>
  Virtual memory areas, src/ucore_os/kern/mm/vmm.c and vmm.h: the sorted list of areas of an address
  space with its one-entry cache, mapping, unmapping, growing the heap, duplicating and destroying an
  address space, the page-fault handler, and the checks on user memory.

  Areas and address spaces are objects in tables; a missing entry is a freed object, and using one has
  no result. \<open>kmalloc\<close> is a function kept in the state: given the objects in use it returns an object
  or \<open>NULL\<close>; all that is used of it is that the object is not one in use (\<open>fresh_alloc\<close>). The memory
  of the running process is a flat byte memory in \<open>copy_from_user\<close>, \<open>copy_to_user\<close> and \<open>copy_string\<close>.
\<close>

section \<open>Data\<close>

definition VM_READ :: u32 where "VM_READ = 1"
definition VM_WRITE :: u32 where "VM_WRITE = 2"
definition VM_EXEC :: u32 where "VM_EXEC = 4"
definition VM_STACK :: u32 where "VM_STACK = 8"

record vma_struct =
  vm_mm :: nat
  vm_start :: u32
  vm_end :: u32
  vm_flags :: u32

record mm_struct =
  mmap_list :: "nat list"
  mmap_cache :: "nat option"
  mm_pgdir :: "nat option"
  map_count :: int
  mm_sm_priv :: bool
  mm_count :: int
  mm_sem :: int
  locked_by :: int
  brk_start :: u32
  brk :: u32

record vm =
  vmas :: "nat \<rightharpoonup> vma_struct"
  mms :: "nat \<rightharpoonup> mm_struct"
  kalloc :: "nat set \<Rightarrow> nat option"
  vmem :: kmem
  pgfault_num :: nat

definition fresh_alloc :: "(nat set \<Rightarrow> nat option) \<Rightarrow> bool" where
  "fresh_alloc f \<longleftrightarrow> (\<forall>A p. f A = Some p \<longrightarrow> p \<notin> A)"

abbreviation upd_mm :: "nat \<Rightarrow> (mm_struct \<Rightarrow> mm_struct) \<Rightarrow> vm \<Rightarrow> vm" where
  "upd_mm m f s \<equiv> s\<lparr>mms := (mms s)(m := map_option f (mms s m))\<rparr>"

abbreviation set_vma :: "nat \<Rightarrow> vma_struct \<Rightarrow> vm \<Rightarrow> vm" where
  "set_vma v a s \<equiv> s\<lparr>vmas := (vmas s)(v \<mapsto> a)\<rparr>"

section \<open>Areas\<close>

definition mm_create :: "vm \<Rightarrow> nat option \<times> vm" where
  "mm_create s =
     (case kalloc s (dom (mms s)) of
        None \<Rightarrow> (None, s)
      | Some m \<Rightarrow>
          (Some m, s\<lparr>mms := (mms s)(m \<mapsto> \<lparr>mmap_list = [], mmap_cache = None, mm_pgdir = None, map_count = 0,
             mm_sm_priv = km_swap_init_ok (vmem s), mm_count = 0, mm_sem = 1, locked_by = 0, brk_start = 0, brk = 0\<rparr>),
             vmem := (if km_swap_init_ok (vmem s) then (vmem s)\<lparr>km_pra_list := []\<rparr> else vmem s)\<rparr>))"

definition vma_create :: "u32 \<Rightarrow> u32 \<Rightarrow> u32 \<Rightarrow> vm \<Rightarrow> nat option \<times> vm" where
  "vma_create start stop flags s =
     (case kalloc s (dom (vmas s)) of
        None \<Rightarrow> (None, s)
      | Some v \<Rightarrow> (Some v, set_vma v \<lparr>vm_mm = 0, vm_start = start, vm_end = stop, vm_flags = flags\<rparr> s))"

definition covers :: "vma_struct \<Rightarrow> u32 \<Rightarrow> bool" where
  "covers a addr \<longleftrightarrow> vm_start a \<le> addr \<and> addr < vm_end a"

text \<open>The loop of \<open>find_vma\<close> along the list.\<close>

fun find_vma_loop :: "nat list \<Rightarrow> u32 \<Rightarrow> vm \<Rightarrow> nat option option" where
  "find_vma_loop [] addr s = Some None"
| "find_vma_loop (v # le) addr s = do {
     a \<leftarrow> vmas s v;
     if covers a addr then Some (Some v) else find_vma_loop le addr s
   }"

definition find_vma :: "nat option \<Rightarrow> u32 \<Rightarrow> vm \<Rightarrow> (nat option \<times> vm) option" where
  "find_vma mm addr s =
     (case mm of
        None \<Rightarrow> Some (None, s)
      | Some m \<Rightarrow> do {
          mmv \<leftarrow> mms s m;
          hit \<leftarrow> (case mmap_cache mmv of None \<Rightarrow> Some False | Some v \<Rightarrow> do { a \<leftarrow> vmas s v; Some (covers a addr) });
          vma \<leftarrow> (if hit then Some (mmap_cache mmv) else find_vma_loop (mmap_list mmv) addr s);
          Some (vma, if vma \<noteq> None then upd_mm m (\<lambda>mm. mm\<lparr>mmap_cache := vma\<rparr>) s else s)
        })"

definition find_vma_intersection :: "nat option \<Rightarrow> u32 \<Rightarrow> u32 \<Rightarrow> vm \<Rightarrow> (nat option \<times> vm) option" where
  "find_vma_intersection mm start stop s = do {
     (vma, s) \<leftarrow> find_vma mm start s;
     case vma of
       None \<Rightarrow> Some (None, s)
     | Some v \<Rightarrow> do { a \<leftarrow> vmas s v; Some (if stop \<le> vm_start a then None else Some v, s) }
   }"

definition check_vma_overlap :: "vma_struct \<Rightarrow> vma_struct \<Rightarrow> unit option" where
  "check_vma_overlap prev next = kassert (vm_start prev < vm_end prev \<and> vm_end prev \<le> vm_start next \<and> vm_start next < vm_end next)"

text \<open>The search loop of \<open>insert_vma_struct\<close>: the list up to \<open>le_prev\<close> and the rest.\<close>

fun insert_split :: "u32 \<Rightarrow> nat list \<Rightarrow> vm \<Rightarrow> (nat list \<times> nat list) option" where
  "insert_split start [] s = Some ([], [])"
| "insert_split start (v # le) s = do {
     a \<leftarrow> vmas s v;
     if vm_start a > start then Some ([], v # le)
     else do { (pre, post) \<leftarrow> insert_split start le s; Some (v # pre, post) }
   }"

definition insert_vma_struct :: "nat \<Rightarrow> nat \<Rightarrow> vm \<Rightarrow> vm option" where
  "insert_vma_struct m v s = do {
     a \<leftarrow> vmas s v;
     kassert (vm_start a < vm_end a);
     mmv \<leftarrow> mms s m;
     (pre, post) \<leftarrow> insert_split (vm_start a) (mmap_list mmv) s;
     _ \<leftarrow> (case rev pre of [] \<Rightarrow> Some () | p # _ \<Rightarrow> do { b \<leftarrow> vmas s p; check_vma_overlap b a });
     _ \<leftarrow> (case post of [] \<Rightarrow> Some () | n # _ \<Rightarrow> do { b \<leftarrow> vmas s n; check_vma_overlap a b });
     let s = set_vma v (a\<lparr>vm_mm := m\<rparr>) s;
     Some (upd_mm m (\<lambda>mm. mm\<lparr>mmap_list := pre @ v # post, map_count := map_count mm + 1\<rparr>) s)
   }"

definition vma_destroy :: "nat \<Rightarrow> vm \<Rightarrow> vm" where
  "vma_destroy v s = s\<lparr>vmas := (vmas s)(v := None)\<rparr>"

text \<open>The loop of \<open>mm_destroy\<close>: unlink and free the first area until the list is empty.\<close>

fun free_vmas :: "nat list \<Rightarrow> vm \<Rightarrow> vm" where
  "free_vmas [] s = s"
| "free_vmas (v # le) s = free_vmas le (vma_destroy v s)"

definition mm_destroy :: "nat \<Rightarrow> vm \<Rightarrow> vm option" where
  "mm_destroy m s = do {
     mmv \<leftarrow> mms s m;
     kassert (mm_count mmv = 0);
     let s = free_vmas (mmap_list mmv) s;
     Some (s\<lparr>mms := (mms s)(m := None)\<rparr>)
   }"

definition mm_map :: "nat \<Rightarrow> u32 \<Rightarrow> u32 \<Rightarrow> u32 \<Rightarrow> vm \<Rightarrow> (int \<times> nat option \<times> vm) option" where
  "mm_map m addr len flags s =
     (let start = ROUNDDOWN addr PGSIZE; stop = ROUNDUP (addr + len) PGSIZE in
      if \<not> USER_ACCESS start stop then Some (- E_INVAL, None, s)
      else do {
        (vma, s) \<leftarrow> find_vma (Some m) start s;
        clash \<leftarrow> (case vma of None \<Rightarrow> Some False | Some v \<Rightarrow> do { a \<leftarrow> vmas s v; Some (stop > vm_start a) });
        if clash then Some (- E_INVAL, None, s)
        else (case vma_create start stop flags s of
            (None, s) \<Rightarrow> Some (- E_NO_MEM, None, s)
          | (Some v, s) \<Rightarrow> do { s \<leftarrow> insert_vma_struct m v s; Some (0, Some v, s) })
      })"

section \<open>Unmapping\<close>

definition remove_vma_struct :: "nat \<Rightarrow> nat \<Rightarrow> vm \<Rightarrow> vm option" where
  "remove_vma_struct m v s = do {
     a \<leftarrow> vmas s v;
     kassert (vm_mm a = m);
     mmv \<leftarrow> mms s m;
     Some (upd_mm m (\<lambda>mm. mm\<lparr>mmap_list := remove1 v (mmap_list mm),
       mmap_cache := (if mmap_cache mm = Some v then None else mmap_cache mm), map_count := map_count mm - 1\<rparr>) s)
   }"

definition vma_resize :: "nat \<Rightarrow> u32 \<Rightarrow> u32 \<Rightarrow> vm \<Rightarrow> vm option" where
  "vma_resize v start stop s = do {
     a \<leftarrow> vmas s v;
     kassert (start mod PGSIZE = 0 \<and> stop mod PGSIZE = 0);
     kassert (vm_start a \<le> start \<and> start < stop \<and> stop \<le> vm_end a);
     Some (set_vma v (a\<lparr>vm_start := start, vm_end := stop\<rparr>) s)
   }"

definition unmap_pages :: "nat \<Rightarrow> u32 \<Rightarrow> u32 \<Rightarrow> vm \<Rightarrow> vm option" where
  "unmap_pages m start stop s = do {
     mmv \<leftarrow> mms s m;
     pgdir \<leftarrow> mm_pgdir mmv;
     k \<leftarrow> unmap_range pgdir start stop (vmem s);
     Some (s\<lparr>vmem := k\<rparr>)
   }"

text \<open>The first loop: the areas from \<open>vma\<close> on that start before \<open>stop\<close> move to \<open>free_list\<close>, in front.\<close>

fun unmap_collect :: "nat \<Rightarrow> u32 \<Rightarrow> nat list \<Rightarrow> nat list \<Rightarrow> vm \<Rightarrow> (nat list \<times> vm) option" where
  "unmap_collect m stop [] free s = Some (free, s)"
| "unmap_collect m stop (v # le) free s = do {
     a \<leftarrow> vmas s v;
     if vm_start a < stop then do {
       s \<leftarrow> remove_vma_struct m v s;
       unmap_collect m stop le (v # free) s
     }
     else Some (free, s)
   }"

text \<open>The second loop: each is cut, reinserted or destroyed, and its pages are unmapped.\<close>

fun unmap_cut :: "nat \<Rightarrow> u32 \<Rightarrow> u32 \<Rightarrow> nat list \<Rightarrow> vm \<Rightarrow> vm option" where
  "unmap_cut m start stop [] s = Some s"
| "unmap_cut m start stop (v # le) s = do {
     a \<leftarrow> vmas s v;
     (s, un_start, un_end) \<leftarrow>
       (if vm_start a < start then do {
          s \<leftarrow> vma_resize v (vm_start a) start s;
          s \<leftarrow> insert_vma_struct m v s;
          Some (s, start, vm_end a)
        }
        else if stop < vm_end a then do {
          s \<leftarrow> vma_resize v stop (vm_end a) s;
          s \<leftarrow> insert_vma_struct m v s;
          Some (s, vm_start a, stop)
        }
        else Some (vma_destroy v s, vm_start a, vm_end a));
     s \<leftarrow> unmap_pages m un_start un_end s;
     unmap_cut m start stop le s
   }"

definition mm_unmap :: "nat \<Rightarrow> u32 \<Rightarrow> u32 \<Rightarrow> vm \<Rightarrow> (int \<times> vm) option" where
  "mm_unmap m addr len s =
     (let start = ROUNDDOWN addr PGSIZE; stop = ROUNDUP (addr + len) PGSIZE in
      if \<not> USER_ACCESS start stop then Some (- E_INVAL, s)
      else do {
        (vma, s) \<leftarrow> find_vma (Some m) start s;
        case vma of
          None \<Rightarrow> Some (0, s)
        | Some v \<Rightarrow> do {
            a \<leftarrow> vmas s v;
            if stop \<le> vm_start a then Some (0, s)
            else if vm_start a < start \<and> stop < vm_end a then
              (case vma_create (vm_start a) start (vm_flags a) s of
                 (None, s) \<Rightarrow> Some (- E_NO_MEM, s)
               | (Some nv, s) \<Rightarrow> do {
                   s \<leftarrow> vma_resize v stop (vm_end a) s;
                   s \<leftarrow> insert_vma_struct m nv s;
                   s \<leftarrow> unmap_pages m start stop s;
                   Some (0, s)
                 })
            else do {
              mmv \<leftarrow> mms s m;
              (free, s) \<leftarrow> unmap_collect m stop (dropWhile (\<lambda>w. w \<noteq> v) (mmap_list mmv)) [] s;
              s \<leftarrow> unmap_cut m start stop free s;
              Some (0, s)
            }
          }
      })"

definition mm_brk :: "nat \<Rightarrow> u32 \<Rightarrow> u32 \<Rightarrow> vm \<Rightarrow> (int \<times> vm) option" where
  "mm_brk m addr len s =
     (let start = ROUNDDOWN addr PGSIZE; stop = ROUNDUP (addr + len) PGSIZE in
      if \<not> USER_ACCESS start stop then Some (- E_INVAL, s)
      else do {
        (ret, s) \<leftarrow> mm_unmap m start (stop - start) s;
        if ret \<noteq> 0 then Some (ret, s)
        else do {
          let flags = VM_READ OR VM_WRITE;
          (vma, s) \<leftarrow> find_vma (Some m) (start - 1) s;
          grow \<leftarrow> (case vma of None \<Rightarrow> Some None
                    | Some v \<Rightarrow> do { a \<leftarrow> vmas s v; Some (if vm_end a = start \<and> vm_flags a = flags then Some (v, a) else None) });
          case grow of
            Some (v, a) \<Rightarrow> Some (0, set_vma v (a\<lparr>vm_end := stop\<rparr>) s)
          | None \<Rightarrow>
              (case vma_create start stop flags s of
                 (None, s) \<Rightarrow> Some (- E_NO_MEM, s)
               | (Some v, s) \<Rightarrow> do { s \<leftarrow> insert_vma_struct m v s; Some (0, s) })
        }
      })"

section \<open>Whole address spaces\<close>

fun dup_loop :: "nat \<Rightarrow> nat \<Rightarrow> nat list \<Rightarrow> vm \<Rightarrow> (int \<times> vm) option" where
  "dup_loop to from [] s = Some (0, s)"
| "dup_loop to from (v # le) s = do {
     a \<leftarrow> vmas s v;
     (case vma_create (vm_start a) (vm_end a) (vm_flags a) s of
        (None, s) \<Rightarrow> Some (- E_NO_MEM, s)
      | (Some nv, s) \<Rightarrow> do {
          s \<leftarrow> insert_vma_struct to nv s;
          tmm \<leftarrow> mms s to;
          fmm \<leftarrow> mms s from;
          tdir \<leftarrow> mm_pgdir tmm;
          fdir \<leftarrow> mm_pgdir fmm;
          (r, k) \<leftarrow> copy_range tdir fdir (vm_start a) (vm_end a) False (vmem s);
          let s = s\<lparr>vmem := k\<rparr>;
          if r \<noteq> 0 then Some (- E_NO_MEM, s) else dup_loop to from le s
        })
   }"

definition dup_mmap :: "nat \<Rightarrow> nat \<Rightarrow> vm \<Rightarrow> (int \<times> vm) option" where
  "dup_mmap to from s = do {
     fmm \<leftarrow> mms s from;
     dup_loop to from (rev (mmap_list fmm)) s
   }"

fun unmap_all :: "nat \<Rightarrow> nat list \<Rightarrow> vm \<Rightarrow> vm option" where
  "unmap_all pgdir [] s = Some s"
| "unmap_all pgdir (v # le) s = do {
     a \<leftarrow> vmas s v;
     k \<leftarrow> unmap_range pgdir (vm_start a) (vm_end a) (vmem s);
     unmap_all pgdir le (s\<lparr>vmem := k\<rparr>)
   }"

fun exit_all :: "nat \<Rightarrow> nat list \<Rightarrow> vm \<Rightarrow> vm option" where
  "exit_all pgdir [] s = Some s"
| "exit_all pgdir (v # le) s = do {
     a \<leftarrow> vmas s v;
     k \<leftarrow> exit_range pgdir (vm_start a) (vm_end a) (vmem s);
     exit_all pgdir le (s\<lparr>vmem := k\<rparr>)
   }"

definition exit_mmap :: "nat \<Rightarrow> vm \<Rightarrow> vm option" where
  "exit_mmap m s = do {
     mmv \<leftarrow> mms s m;
     kassert (mm_count mmv = 0);
     pgdir \<leftarrow> mm_pgdir mmv;
     s \<leftarrow> unmap_all pgdir (mmap_list mmv) s;
     exit_all pgdir (mmap_list mmv) s
   }"

section \<open>Page faults\<close>

text \<open>The \<open>switch\<close> on the error code: may the access go on?\<close>

definition pgfault_allowed :: "u32 \<Rightarrow> u32 \<Rightarrow> bool" where
  "pgfault_allowed error_code flags =
     (let c = error_code AND 3 in
      if c = 1 then False
      else if c = 0 then flags AND (VM_READ OR VM_EXEC) \<noteq> 0
      else flags AND VM_WRITE \<noteq> 0)"

definition do_pgfault :: "nat option \<Rightarrow> u32 \<Rightarrow> u32 \<Rightarrow> vm \<Rightarrow> (int \<times> vm) option" where
  "do_pgfault mm error_code addr s = do {
     (vma, s) \<leftarrow> find_vma mm addr s;
     let s = s\<lparr>pgfault_num := pgfault_num s + 1\<rparr>;
     case vma of
       None \<Rightarrow> Some (- E_INVAL, s)
     | Some v \<Rightarrow> do {
         a \<leftarrow> vmas s v;
         if vm_start a > addr \<or> \<not> pgfault_allowed error_code (vm_flags a) then Some (- E_INVAL, s)
         else do {
           let perm = (if vm_flags a AND VM_WRITE \<noteq> 0 then PTE_U OR PTE_W else PTE_U);
           let addr = ROUNDDOWN addr PGSIZE;
           m \<leftarrow> mm;
           mmv \<leftarrow> mms s m;
           pgdir \<leftarrow> mm_pgdir mmv;
           (ptep, k) \<leftarrow> get_pte pgdir addr True (vmem s);
           let s = s\<lparr>vmem := k\<rparr>;
           case ptep of
             None \<Rightarrow> Some (- E_NO_MEM, s)
           | Some p \<Rightarrow>
               if load p k = 0 then do {
                 (page, k) \<leftarrow> pgdir_alloc_page pgdir addr perm k;
                 Some (if page = None then - E_NO_MEM else 0, s\<lparr>vmem := k\<rparr>)
               }
               else if km_swap_init_ok k then do {
                 let sw = \<lparr>mms_pgdir = pgdir, mms_sm_priv = mm_sm_priv mmv\<rparr>;
                 (ret, page, k) \<leftarrow> swap_in sw addr k;
                 if ret \<noteq> 0 then Some (ret, s\<lparr>vmem := k\<rparr>)
                 else do {
                   (_, k) \<leftarrow> page_insert pgdir page addr perm k;
                   k \<leftarrow> fifo_map_swappable sw page k;
                   let k = upd_kpage page (\<lambda>p. p\<lparr>pg_pra_vaddr := addr\<rparr>) k;
                   Some (0, s\<lparr>vmem := k\<rparr>)
                 }
               }
               else Some (- E_NO_MEM, s)
         }
       }
   }"

section \<open>User memory\<close>

definition KERNTOP :: u32 where "KERNTOP = KERNBASE + 0x38000000"

definition KERN_ACCESS :: "u32 \<Rightarrow> u32 \<Rightarrow> bool" where
  "KERN_ACCESS start stop \<longleftrightarrow> KERNBASE \<le> start \<and> start < stop \<and> stop \<le> KERNTOP"

partial_function (option) user_mem_loop :: "nat \<Rightarrow> u32 \<Rightarrow> u32 \<Rightarrow> bool \<Rightarrow> vm \<Rightarrow> (bool \<times> vm) option" where
  "user_mem_loop m start stop wr s =
     (if \<not> start < stop then Some (True, s)
      else do {
        (vma, s) \<leftarrow> find_vma (Some m) start s;
        case vma of
          None \<Rightarrow> Some (False, s)
        | Some v \<Rightarrow> do {
            a \<leftarrow> vmas s v;
            if start < vm_start a then Some (False, s)
            else if vm_flags a AND (if wr then VM_WRITE else VM_READ) = 0 then Some (False, s)
            else if wr \<and> vm_flags a AND VM_STACK \<noteq> 0 \<and> start < vm_start a + PGSIZE then Some (False, s)
            else user_mem_loop m (vm_end a) stop wr s
          }
      })"

definition user_mem_check :: "nat option \<Rightarrow> u32 \<Rightarrow> u32 \<Rightarrow> bool \<Rightarrow> vm \<Rightarrow> (bool \<times> vm) option" where
  "user_mem_check mm addr len wr s =
     (case mm of
        None \<Rightarrow> Some (KERN_ACCESS addr (addr + len), s)
      | Some m \<Rightarrow>
          if \<not> USER_ACCESS addr (addr + len) then Some (False, s) else user_mem_loop m addr (addr + len) wr s)"

definition copy_from_user :: "nat option \<Rightarrow> u32 \<Rightarrow> u32 \<Rightarrow> u32 \<Rightarrow> bool \<Rightarrow> mem \<times> vm \<Rightarrow> (bool \<times> mem \<times> vm) option" where
  "copy_from_user mm dst src len writable = (\<lambda>(u, s). do {
     (ok, s) \<leftarrow> user_mem_check mm src len writable s;
     Some (if ok then (True, snd (memcpy (unat dst) (unat src) (unat len) u), s) else (False, u, s))
   })"

definition copy_to_user :: "nat option \<Rightarrow> u32 \<Rightarrow> u32 \<Rightarrow> u32 \<Rightarrow> mem \<times> vm \<Rightarrow> (bool \<times> mem \<times> vm) option" where
  "copy_to_user mm dst src len = (\<lambda>(u, s). do {
     (ok, s) \<leftarrow> user_mem_check mm dst len True s;
     Some (if ok then (True, snd (memcpy (unat dst) (unat src) (unat len) u), s) else (False, u, s))
   })"

partial_function (option) copy_string_loop ::
  "nat option \<Rightarrow> u32 \<Rightarrow> u32 \<Rightarrow> u32 \<Rightarrow> u32 \<Rightarrow> mem \<Rightarrow> vm \<Rightarrow> (bool \<times> mem \<times> vm) option" where
  "copy_string_loop mm dst src maxn part u s = do {
     let part = (if part > maxn then maxn else part);
     (ok, s) \<leftarrow> user_mem_check mm src part False s;
     if \<not> ok then Some (False, u, s)
     else (let alen = strnlen u (unat src) (unat part) in
       if alen < unat part then Some (True, snd (memcpy (unat dst) (unat src) (alen + 1) u), s)
       else if part = maxn then Some (False, u, s)
       else copy_string_loop mm (dst + part) (src + part) (maxn - part) PGSIZE (snd (memcpy (unat dst) (unat src) (unat part) u)) s)
   }"

definition copy_string :: "nat option \<Rightarrow> u32 \<Rightarrow> u32 \<Rightarrow> u32 \<Rightarrow> mem \<times> vm \<Rightarrow> (bool \<times> mem \<times> vm) option" where
  "copy_string mm dst src maxn = (\<lambda>(u, s). copy_string_loop mm dst src maxn (ROUNDDOWN (src + PGSIZE) PGSIZE - src) u s)"

section \<open>The areas of an address space\<close>

text \<open>
  The address space as its users see it: the flags of the area that holds an address. \<open>areas\<close> are the
  areas in list order, \<open>mm_ok\<close> says they are sorted, disjoint, page aligned, in user space, and that
  the cache points into the list.
\<close>

definition areas :: "nat \<Rightarrow> vm \<Rightarrow> vma_struct list" where
  "areas m s = map (\<lambda>v. the (vmas s v)) (mmap_list (the (mms s m)))"

definition area_ok :: "vma_struct \<Rightarrow> bool" where
  "area_ok a \<longleftrightarrow> USER_ACCESS (vm_start a) (vm_end a) \<and> vm_start a mod PGSIZE = 0 \<and> vm_end a mod PGSIZE = 0"

fun sorted_areas :: "vma_struct list \<Rightarrow> bool" where
  "sorted_areas [] \<longleftrightarrow> True"
| "sorted_areas (a # as) \<longleftrightarrow> area_ok a \<and> (\<forall>b\<in>set as. vm_end a \<le> vm_start b) \<and> sorted_areas as"

fun lookup_area :: "vma_struct list \<Rightarrow> u32 \<Rightarrow> u32 option" where
  "lookup_area [] x = None"
| "lookup_area (a # as) x = (if covers a x then Some (vm_flags a) else lookup_area as x)"

definition space :: "nat \<Rightarrow> vm \<Rightarrow> u32 \<Rightarrow> u32 option" where
  "space m s = lookup_area (areas m s)"

definition mm_ok :: "nat \<Rightarrow> vm \<Rightarrow> bool" where
  "mm_ok m s \<longleftrightarrow> (\<exists>mmv. mms s m = Some mmv \<and> distinct (mmap_list mmv) \<and> set (mmap_list mmv) \<subseteq> dom (vmas s) \<and>
     (\<forall>v\<in>set (mmap_list mmv). vm_mm (the (vmas s v)) = m) \<and> set_option (mmap_cache mmv) \<subseteq> set (mmap_list mmv) \<and>
     map_count mmv = int (length (mmap_list mmv)) \<and> sorted_areas (areas m s))"

lemma mm_okD:
  assumes "mm_ok m s"
  obtains mmv where "mms s m = Some mmv" and "distinct (mmap_list mmv)" and "set (mmap_list mmv) \<subseteq> dom (vmas s)"
    and "\<forall>v\<in>set (mmap_list mmv). vm_mm (the (vmas s v)) = m" and "set_option (mmap_cache mmv) \<subseteq> set (mmap_list mmv)"
    and "map_count mmv = int (length (mmap_list mmv))" and "sorted_areas (areas m s)"
    and "areas m s = map (\<lambda>v. the (vmas s v)) (mmap_list mmv)"
  using assms by (auto simp: mm_ok_def areas_def)


lemma sorted_areas_append:
  "sorted_areas (as @ bs) \<longleftrightarrow> sorted_areas as \<and> sorted_areas bs \<and> (\<forall>a\<in>set as. \<forall>b\<in>set bs. vm_end a \<le> vm_start b)"
  by (induction as) auto

lemma lookup_area_None: "lookup_area as x = None \<longleftrightarrow> (\<forall>a\<in>set as. \<not> covers a x)"
  by (induction as) auto

lemma covers_unique:
  assumes "sorted_areas as" and "a \<in> set as" and "b \<in> set as" and "covers a x" and "covers b x"
  shows "a = b"
  using assms
proof (induction as)
  case (Cons c as)
  have "\<not> (covers c x \<and> covers d x)" if "d \<in> set as" for d
    using Cons.prems(1) that by (auto simp: covers_def)
  then show ?case using Cons by auto
qed simp

lemma lookup_area_Some:
  assumes "sorted_areas as" and "a \<in> set as" and "covers a x"
  shows "lookup_area as x = Some (vm_flags a)"
  using assms
proof (induction as)
  case (Cons c as)
  show ?case
  proof (cases "covers c x")
    case True
    then have "c = a" using Cons.prems by (intro covers_unique [of "c # as"]) auto
    then show ?thesis using True by simp
  next
    case False
    then show ?thesis using Cons by auto
  qed
qed simp


section \<open>Finding an area\<close>

lemma find_vma_loop_eq:
  "set le \<subseteq> dom (vmas s) \<Longrightarrow> find_vma_loop le x s = Some (List.find (\<lambda>v. covers (the (vmas s v)) x) le)"
  by (induction le) auto

lemma find_vma_loop_ok:
  assumes "set le \<subseteq> dom (vmas s)"
  shows "\<exists>r. find_vma_loop le x s = Some r \<and>
     (case r of None \<Rightarrow> \<forall>v\<in>set le. \<not> covers (the (vmas s v)) x | Some v \<Rightarrow> v \<in> set le \<and> covers (the (vmas s v)) x)"
  unfolding find_vma_loop_eq [OF assms] by (auto simp: find_None_iff find_Some_iff split: option.split)

text \<open>Moving the cache changes nothing else.\<close>

lemma find_vma_ok:
  assumes "mm_ok m s"
  shows "\<exists>r s'. find_vma (Some m) x s = Some (r, s') \<and> mm_ok m s' \<and> areas m s' = areas m s \<and> vmas s' = vmas s \<and>
     kalloc s' = kalloc s \<and> vmem s' = vmem s \<and> map_option mmap_list (mms s' m) = map_option mmap_list (mms s m) \<and>
     map_option mm_pgdir (mms s' m) = map_option mm_pgdir (mms s m) \<and> (\<forall>n. n \<noteq> m \<longrightarrow> mms s' n = mms s n) \<and>
     (case r of None \<Rightarrow> space m s x = None
      | Some v \<Rightarrow> v \<in> set (mmap_list (the (mms s m))) \<and> (\<exists>a. vmas s v = Some a \<and> a \<in> set (areas m s) \<and> covers a x \<and> space m s x = Some (vm_flags a)))"
proof -
  obtain mmv where o: "mms s m = Some mmv" "distinct (mmap_list mmv)" "set (mmap_list mmv) \<subseteq> dom (vmas s)"
    "\<forall>v\<in>set (mmap_list mmv). vm_mm (the (vmas s v)) = m" "set_option (mmap_cache mmv) \<subseteq> set (mmap_list mmv)"
    "map_count mmv = int (length (mmap_list mmv))" "sorted_areas (areas m s)"
    "areas m s = map (\<lambda>v. the (vmas s v)) (mmap_list mmv)" using assms by (rule mm_okD)
  define hit where "hit = (case mmap_cache mmv of None \<Rightarrow> False | Some v \<Rightarrow> covers (the (vmas s v)) x)"
  have h: "(case mmap_cache mmv of None \<Rightarrow> Some False | Some v \<Rightarrow> do { a \<leftarrow> vmas s v; Some (covers a x) }) = Some hit"
    using o(3,5) by (auto simp: hit_def split: option.split)
  obtain r where r: "(if hit then Some (mmap_cache mmv) else find_vma_loop (mmap_list mmv) x s) = Some r"
    "case r of None \<Rightarrow> \<forall>v\<in>set (mmap_list mmv). \<not> covers (the (vmas s v)) x
       | Some v \<Rightarrow> v \<in> set (mmap_list mmv) \<and> covers (the (vmas s v)) x"
  proof (cases hit)
    case True
    then show ?thesis using that o(5) by (auto simp: hit_def split: option.splits)
  next
    case False
    then show ?thesis using that find_vma_loop_ok [OF o(3), of x] by auto
  qed
  define s' where "s' = (if r \<noteq> None then upd_mm m (\<lambda>mm. mm\<lparr>mmap_cache := r\<rparr>) s else s)"
  have run: "find_vma (Some m) x s = Some (r, s')" using o(1) h r(1) by (simp add: find_vma_def s'_def)
  have f: "vmas s' = vmas s" "kalloc s' = kalloc s" "vmem s' = vmem s" "\<forall>n. n \<noteq> m \<longrightarrow> mms s' n = mms s n"
    "mms s' m = Some (mmv\<lparr>mmap_cache := if r \<noteq> None then r else mmap_cache mmv\<rparr>)" using o(1) by (auto simp: s'_def)
  have ar: "areas m s' = areas m s" using f(1,5) o(1) by (simp add: areas_def)
  have "mm_ok m s'" using o f(1,5) ar r(2) by (auto simp: mm_ok_def split: option.splits if_splits)
  moreover have "case r of None \<Rightarrow> space m s x = None
      | Some v \<Rightarrow> v \<in> set (mmap_list (the (mms s m))) \<and> (\<exists>a. vmas s v = Some a \<and> a \<in> set (areas m s) \<and> covers a x \<and> space m s x = Some (vm_flags a))"
  proof (cases r)
    case None
    then show ?thesis using r(2) o(8) by (auto simp: space_def lookup_area_None)
  next
    case (Some v)
    then obtain a where a: "vmas s v = Some a" "covers a x" "v \<in> set (mmap_list mmv)" using r(2) o(3) by auto
    then have "a \<in> set (areas m s)" using o(8) by force
    then show ?thesis using Some a o(1) lookup_area_Some [OF o(7) _ a(2)] by (auto simp: space_def)
  qed
  ultimately show ?thesis using run ar f o(1) by (intro exI [of _ r] exI [of _ s']) simp
qed

section \<open>Checking user memory\<close>

text \<open>An access to an address is allowed by the area that holds it; the lowest page of a stack is a guard.\<close>

definition may_access :: "bool \<Rightarrow> vma_struct list \<Rightarrow> u32 \<Rightarrow> bool" where
  "may_access wr as x \<longleftrightarrow> (\<exists>a\<in>set as. covers a x \<and> vm_flags a AND (if wr then VM_WRITE else VM_READ) \<noteq> 0 \<and>
     (wr \<and> vm_flags a AND VM_STACK \<noteq> 0 \<longrightarrow> vm_start a + PGSIZE \<le> x))"

lemma may_access_at:
  assumes "sorted_areas as" and "a \<in> set as" and "covers a x"
  shows "may_access wr as x \<longleftrightarrow> vm_flags a AND (if wr then VM_WRITE else VM_READ) \<noteq> 0 \<and>
     (wr \<and> vm_flags a AND VM_STACK \<noteq> 0 \<longrightarrow> vm_start a + PGSIZE \<le> x)"
proof -
  have "b \<in> set as \<and> covers b x \<longleftrightarrow> b = a" for b using covers_unique [OF assms(1,2) _ assms(3)] assms(2,3) by metis
  then show ?thesis unfolding may_access_def by metis
qed

lemma user_mem_loop_ok:
  assumes "mm_ok m s"
  shows "\<exists>s'. user_mem_loop m start stop wr s = Some ((\<forall>x. start \<le> x \<and> x < stop \<longrightarrow> may_access wr (areas m s) x), s') \<and>
     mm_ok m s' \<and> areas m s' = areas m s"
  using assms
proof (induction "unat stop - unat start" arbitrary: start s rule: less_induct)
  case less
  let ?as = "areas m s"
  have so: "sorted_areas ?as" using less.prems by (auto simp: mm_ok_def)
  show ?case
  proof (cases "start < stop")
    case False
    then have "(\<forall>x. start \<le> x \<and> x < stop \<longrightarrow> may_access wr ?as x) = True" by (meson order_le_less_trans)
    then show ?thesis using False less.prems by (simp add: user_mem_loop.simps)
  next
    case True
    obtain r s1 where f: "find_vma (Some m) start s = Some (r, s1)" "mm_ok m s1" "areas m s1 = ?as" "vmas s1 = vmas s"
      and r: "case r of None \<Rightarrow> space m s start = None
        | Some v \<Rightarrow> v \<in> set (mmap_list (the (mms s m))) \<and> (\<exists>a. vmas s v = Some a \<and> a \<in> set ?as \<and> covers a start \<and> space m s start = Some (vm_flags a))"
      using find_vma_ok [OF less.prems, of start] by blast
    show ?thesis
    proof (cases r)
      case None
      then have "\<not> may_access wr ?as start" using r by (auto simp: space_def lookup_area_None may_access_def)
      then have "\<not> (\<forall>x. start \<le> x \<and> x < stop \<longrightarrow> may_access wr ?as x)" using True by auto
      then show ?thesis using f None True by (auto simp: user_mem_loop.simps [of m start])
    next
      case (Some v)
      then obtain a where a: "vmas s v = Some a" "a \<in> set ?as" "covers a start" using r by auto
      note acc = may_access_at [OF so a(2), of _ wr]
      have ge: "vm_start a \<le> start" "start < vm_end a" using a(3) by (simp_all add: covers_def)
      show ?thesis
      proof (cases "may_access wr ?as start")
        case False
        then have "\<not> (\<forall>x. start \<le> x \<and> x < stop \<longrightarrow> may_access wr ?as x)" using True by auto
        moreover have "user_mem_loop m start stop wr s = Some (False, s1)"
          using False acc [OF a(3)] True f(1,4) Some a(1) ge by (auto simp: user_mem_loop.simps [of m start] not_le)
        ultimately show ?thesis using f(2,3) by auto
      next
        case ok: True
        have in_a: "may_access wr ?as x" if "start \<le> x" "x < vm_end a" for x
        proof -
          have "covers a x" using that ge(1) by (simp add: covers_def)
          then show ?thesis using acc [of x] acc [OF a(3)] ok that(1) by auto
        qed
        have "unat stop - unat (vm_end a) < unat stop - unat start" using ge(2) True by (simp add: word_less_nat_alt)
        from less.hyps [OF this f(2)] obtain s' where
          ih: "user_mem_loop m (vm_end a) stop wr s1 = Some ((\<forall>x. vm_end a \<le> x \<and> x < stop \<longrightarrow> may_access wr ?as x), s')"
          "mm_ok m s'" "areas m s' = ?as" using f(3) by auto
        have "(\<forall>x. start \<le> x \<and> x < stop \<longrightarrow> may_access wr ?as x) \<longleftrightarrow> (\<forall>x. vm_end a \<le> x \<and> x < stop \<longrightarrow> may_access wr ?as x)"
          using in_a ge(2) by (meson linorder_not_less order.strict_implies_order order.trans)
        moreover have "user_mem_loop m start stop wr s = user_mem_loop m (vm_end a) stop wr s1"
          using ok acc [OF a(3)] True f(1,4) Some a(1) ge by (auto simp: user_mem_loop.simps [of m start] not_less)
        ultimately show ?thesis using ih by simp
      qed
    qed
  qed
qed

text \<open>
  C30: \<open>user_mem_check\<close> always returns, and accepts a user buffer exactly when it lies in user space and
  every single byte of it is in an area that allows the access; it changes nothing but the cache.
\<close>

theorem user_mem_check_exact:
  assumes "mm_ok m s"
  shows "\<exists>s'. user_mem_check (Some m) addr len wr s =
      Some (USER_ACCESS addr (addr + len) \<and> (\<forall>x. addr \<le> x \<and> x < addr + len \<longrightarrow> may_access wr (areas m s) x), s') \<and>
    mm_ok m s' \<and> areas m s' = areas m s"
  using user_mem_loop_ok [OF assms, of addr "addr + len" wr] assms by (auto simp: user_mem_check_def)

text \<open>An address space with one area, the page at 0x800000, and one with none.\<close>

definition vm_one :: vm where
  "vm_one = \<lparr>vmas = [0 \<mapsto> \<lparr>vm_mm = 0, vm_start = 0x800000, vm_end = 0x801000, vm_flags = 3\<rparr>],
     mms = [0 \<mapsto> \<lparr>mmap_list = [0], mmap_cache = None, mm_pgdir = Some 2, map_count = 1, mm_sm_priv = False, mm_count = 1, mm_sem = 1,
       locked_by = 0, brk_start = 0, brk = 0\<rparr>],
     kalloc = (\<lambda>A. if A = {0} then Some 1 else None), vmem = km_small, pgfault_num = 0\<rparr>"

lemma vm_one_ok: "mm_ok 0 vm_one" "areas 0 vm_one = [\<lparr>vm_mm = 0, vm_start = 0x800000, vm_end = 0x801000, vm_flags = 3\<rparr>]"
  by (simp_all add: mm_ok_def vm_one_def areas_def area_ok_def USER_ACCESS_def USERBASE_def USERTOP_def PGSIZE_def)

theorem user_mem_check_exact_witness:
  "\<exists>s'. user_mem_check (Some 0) 0x800010 0xff0 True vm_one = Some (True, s')"
proof -
  have "may_access True (areas 0 vm_one) x" if "0x800010 \<le> x" "x < 0x801000" for x
  proof -
    have "0x800000 \<le> x" using that(1) by (rule order.trans [rotated]) simp
    then show ?thesis using that(2) by (simp add: vm_one_ok(2) may_access_def covers_def VM_WRITE_def VM_STACK_def)
  qed
  then show ?thesis using user_mem_check_exact [OF vm_one_ok(1), of "0x800010" "0xff0" True]
    by (auto simp: USER_ACCESS_def USERBASE_def USERTOP_def)
qed

section \<open>Inserting an area\<close>

lemma insert_split_eq:
  "set le \<subseteq> dom (vmas s) \<Longrightarrow> insert_split st le s =
    Some (takeWhile (\<lambda>v. vm_start (the (vmas s v)) \<le> st) le, dropWhile (\<lambda>v. vm_start (the (vmas s v)) \<le> st) le)"
  by (induction le) (auto simp: not_le)


lemma sorted_starts:
  assumes "sorted_areas (as @ b # bs)" and "c \<in> set bs"
  shows "vm_start b < vm_start c"
  using assms by (auto simp: sorted_areas_append area_ok_def USER_ACCESS_def intro: order_less_le_trans)




lemma mm_ok_cong:
  assumes "mm_ok n s" and "mms s' n = mms s n" and "\<And>v. v \<in> set (mmap_list (the (mms s n))) \<Longrightarrow> vmas s' v = vmas s v"
  shows "mm_ok n s' \<and> areas n s' = areas n s"
proof -
  obtain mmv where o: "mms s n = Some mmv" "distinct (mmap_list mmv)" "set (mmap_list mmv) \<subseteq> dom (vmas s)"
    "\<forall>v\<in>set (mmap_list mmv). vm_mm (the (vmas s v)) = n" "set_option (mmap_cache mmv) \<subseteq> set (mmap_list mmv)"
    "map_count mmv = int (length (mmap_list mmv))" "sorted_areas (areas n s)" using assms(1) by (rule mm_okD)
  have e: "vmas s' v = vmas s v" if "v \<in> set (mmap_list mmv)" for v using assms(3) o(1) that by simp
  have "areas n s' = areas n s" using assms(2) o(1) e by (simp add: areas_def)
  moreover have "set (mmap_list mmv) \<subseteq> dom (vmas s')"
  proof
    fix v assume "v \<in> set (mmap_list mmv)"
    then show "v \<in> dom (vmas s')" using o(3) e [of v] by (auto simp: dom_def)
  qed
  ultimately show ?thesis using assms(2) o e by (simp add: mm_ok_def)
qed

lemma mm_ok_upd:
  assumes "mm_ok n s" and "v \<notin> set (mmap_list (the (mms s n)))" and "mms s' n = mms s n" and "vmas s' = (vmas s)(v := x)"
  shows "mm_ok n s' \<and> areas n s' = areas n s"
proof -
  have "w \<noteq> v" if "w \<in> set (mmap_list (the (mms s n)))" for w using assms(2) that by auto
  then show ?thesis using assms by (intro mm_ok_cong) simp_all
qed





text \<open>
  C32: a request that overlaps an area without starting inside it is not refused: \<open>mm_map\<close> looks only for
  an area at the first address, and the kernel panics in the overlap check.
\<close>

theorem mm_map_overlap_panics:
  assumes "mm_ok m s" and "kalloc s (dom (vmas s)) = Some v" and "fresh_alloc (kalloc s)"
    and "start = ROUNDDOWN addr PGSIZE" and "stop = ROUNDUP (addr + len) PGSIZE" and "USER_ACCESS start stop"
    and "space m s start = None" and "b \<in> set (areas m s)" and "start < vm_start b" and "vm_start b < stop"
  shows "mm_map m addr len flags s = None"
proof -
  obtain s1 where f: "find_vma (Some m) start s = Some (None, s1)" "mm_ok m s1" "areas m s1 = areas m s" "vmas s1 = vmas s" "kalloc s1 = kalloc s"
    using find_vma_ok [OF assms(1), of start] assms(7) by (auto split: option.splits)
  define a where "a = \<lparr>vm_mm = 0, vm_start = start, vm_end = stop, vm_flags = flags\<rparr>"
  define s2 where "s2 = set_vma v a s1"
  have "v \<notin> dom (vmas s1)" using assms(2,3) f(4) unfolding fresh_alloc_def by metis
  then have "v \<notin> set (mmap_list (the (mms s1 m)))" using f(2) by (auto simp: mm_ok_def)
  then have ok2: "mm_ok m s2" "areas m s2 = areas m s" using mm_ok_upd [OF f(2), of v s2] f(3) by (simp_all add: s2_def)
  obtain mmv where o: "mms s2 m = Some mmv" "set (mmap_list mmv) \<subseteq> dom (vmas s2)" "sorted_areas (areas m s2)"
    "areas m s2 = map (\<lambda>v. the (vmas s2 v)) (mmap_list mmv)" using ok2(1) by (rule mm_okD)
  let ?P = "\<lambda>v. vm_start (the (vmas s2 v)) \<le> start"
  obtain w where w: "w \<in> set (mmap_list mmv)" "b = the (vmas s2 w)" using assms(8) unfolding ok2(2) [symmetric] o(4) by auto
  then obtain c cs where post: "dropWhile ?P (mmap_list mmv) = c # cs"
    using assms(9) by (metis dropWhile_eq_Nil_conv leD list.exhaust)
  then obtain pre where l: "mmap_list mmv = pre @ c # cs" "\<forall>x\<in>set pre. ?P x"
    by (metis takeWhile_dropWhile_id set_takeWhileD)
  have "w \<in> set (c # cs)" using w l assms(9) by auto
  moreover have "sorted_areas (map (\<lambda>v. the (vmas s2 v)) pre @ the (vmas s2 c) # map (\<lambda>v. the (vmas s2 v)) cs)" using o(3,4) l by simp
  ultimately have "vm_start (the (vmas s2 c)) \<le> vm_start b" using w(2) sorted_starts [of _ "the (vmas s2 c)"] by fastforce
  then have "check_vma_overlap a (the (vmas s2 c)) = None" using assms(10) by (auto simp: check_vma_overlap_def a_def)
  moreover obtain cv where "vmas s2 c = Some cv" using o(2) l by auto
  ultimately have "insert_vma_struct m v s2 = None"
    using o(1) insert_split_eq [OF o(2), of start] post
    by (auto simp: insert_vma_struct_def s2_def a_def Let_def split: list.split option.split)
  then show ?thesis using f assms(2,4-6) by (simp add: mm_map_def Let_def vma_create_def s2_def a_def)
qed

theorem mm_map_overlap_panics_witness: "mm_map 0 0x7ff000 0x2000 3 vm_one = None"
proof (rule mm_map_overlap_panics [OF vm_one_ok(1)])
  show "kalloc vm_one (dom (vmas vm_one)) = Some 1" by (simp add: vm_one_def)
  show "fresh_alloc (kalloc vm_one)" by (auto simp: fresh_alloc_def vm_one_def)
  show "0x7ff000 = ROUNDDOWN 0x7ff000 PGSIZE" "0x801000 = ROUNDUP (0x7ff000 + 0x2000) PGSIZE"
    by (simp_all add: ROUNDDOWN_def ROUNDUP_def PGSIZE_def)
  show "USER_ACCESS 0x7ff000 0x801000" by (simp add: USER_ACCESS_def USERBASE_def USERTOP_def)
  show "space 0 vm_one 0x7ff000 = None" by (simp add: space_def vm_one_ok(2) covers_def)
  show "\<lparr>vm_mm = 0, vm_start = 0x800000, vm_end = 0x801000, vm_flags = 3\<rparr> \<in> set (areas 0 vm_one)" by (simp add: vm_one_ok(2))
qed simp_all

section \<open>Unmapping\<close>







lemma mm_ok_vmem [simp]: "mm_ok m (s\<lparr>vmem := k\<rparr>) = mm_ok m s" "areas m (s\<lparr>vmem := k\<rparr>) = areas m s"
  by (simp_all add: mm_ok_def areas_def)


















end
