(* ===== verification/Sysfile.thy ===== *)
theory Sysfile
  imports File Vmm
begin

text \<open>
  The file system calls of src/ucore_os/kern/fs/sysfile.c on top of the file table: they copy paths and data
  between the address space of the process and kernel buffers.

  \<open>umem\<close> is the memory as the kernel addresses it while the process runs, \<open>cur_mm\<close> the field mm of the current process,
  \<open>cur_pid\<close> its number. A call of kmalloc takes the next address of \<open>kbufs\<close> and fails when there is none; \<open>kstk\<close> is
  where the local variables of the kernel function are.
\<close>

record sys = fsys +
  umem :: mem
  uvm :: vm
  cur_mm :: "nat option"
  cur_pid :: int
  kbufs :: "u32 list"
  kstk :: u32

definition IOBUF_SIZE :: nat where "IOBUF_SIZE = 4096"
definition FS_MAX_FPATH_LEN :: nat where "FS_MAX_FPATH_LEN = 4095"

definition get_bytes :: "u32 \<Rightarrow> nat \<Rightarrow> mem \<Rightarrow> u8 list" where
  "get_bytes a n u = map (\<lambda>i. of_char (u (unat a + i))) [0..<n]"

definition put_bytes :: "u32 \<Rightarrow> u8 list \<Rightarrow> mem \<Rightarrow> mem" where
  "put_bytes a bs u = (\<lambda>i. if unat a \<le> i \<and> i < unat a + length bs then char_of (unat (bs ! (i - unat a))) else u i)"

definition kmalloc_buf :: "'a sys_scheme \<Rightarrow> (u32 \<times> 'a sys_scheme) option" where
  "kmalloc_buf s = (case kbufs s of [] \<Rightarrow> None | b # bs \<Rightarrow> Some (b, s\<lparr>kbufs := bs\<rparr>))"

definition lock_mm :: "'a sys_scheme \<Rightarrow> 'a sys_scheme" where
  "lock_mm s = (case cur_mm s of None \<Rightarrow> s | Some m \<Rightarrow> s\<lparr>uvm := upd_mm m (\<lambda>a. a\<lparr>locked_by := cur_pid s\<rparr>) (uvm s)\<rparr>)"

definition unlock_mm :: "'a sys_scheme \<Rightarrow> 'a sys_scheme" where
  "unlock_mm s = (case cur_mm s of None \<Rightarrow> s | Some m \<Rightarrow> s\<lparr>uvm := upd_mm m (\<lambda>a. a\<lparr>locked_by := 0\<rparr>) (uvm s)\<rparr>)"

text \<open>A copy between lock_mm and unlock_mm.\<close>

definition locked_copy :: "(mem \<times> vm \<Rightarrow> (bool \<times> mem \<times> vm) option) \<Rightarrow> 'a sys_scheme \<Rightarrow> (bool \<times> 'a sys_scheme) option" where
  "locked_copy cp s = do {
     let s = lock_mm s;
     (ok, u, v) \<leftarrow> cp (umem s, uvm s);
     Some (ok, unlock_mm (s\<lparr>umem := u, uvm := v\<rparr>))
   }"

text \<open>\<open>copy_path\<close> returns the path as the string in the buffer.\<close>

definition copy_path :: "u32 \<Rightarrow> 'a sys_scheme \<Rightarrow> (int \<times> u8 list \<times> 'a sys_scheme) option" where
  "copy_path from s =
     (case kmalloc_buf s of
        None \<Rightarrow> Some (- E_NO_MEM, [], s)
      | Some (buffer, s) \<Rightarrow> do {
          (ok, s) \<leftarrow> locked_copy (copy_string (cur_mm s) buffer from (word_of_nat (FS_MAX_FPATH_LEN + 1))) s;
          Some (if ok then (0, cstr (get_bytes buffer (FS_MAX_FPATH_LEN + 1) (umem s)), s) else (- E_INVAL, [], s))
        })"

definition sysfile_open :: "u32 \<Rightarrow> u32 \<Rightarrow> 'a sys_scheme \<Rightarrow> (int \<times> 'a sys_scheme) option" where
  "sysfile_open upath open_flags s = do {
     (ret, path, s) \<leftarrow> copy_path upath s;
     if ret \<noteq> 0 then Some (ret, s) else file_open path open_flags s
   }"

definition sysfile_close :: "int \<Rightarrow> 'a sys_scheme \<Rightarrow> (int \<times> 'a sys_scheme) option" where
  "sysfile_close fd s = file_close fd s"

text \<open>The loop of \<open>sysfile_read\<close>; the result is \<open>ret\<close> and \<open>copied\<close>.\<close>

function read_loop :: "int \<Rightarrow> u32 \<Rightarrow> u32 \<Rightarrow> nat \<Rightarrow> nat \<Rightarrow> 'a sys_scheme \<Rightarrow> (int \<times> nat \<times> 'a sys_scheme) option" where
  "read_loop fd buffer base len copied s =
     (if len = 0 then Some (0, copied, s)
      else do {
        (ret, alen, bs, s) \<leftarrow> file_read fd (get_bytes buffer IOBUF_SIZE (umem s)) (min IOBUF_SIZE len) s;
        let s = s\<lparr>umem := put_bytes buffer bs (umem s)\<rparr>;
        (ret, ok, s) \<leftarrow>
          (if alen \<noteq> 0 then do {
             (ok, s) \<leftarrow> locked_copy (copy_to_user (cur_mm s) base buffer (word_of_nat alen)) s;
             kassert (ok \<longrightarrow> len \<ge> alen);
             Some (if \<not> ok \<and> ret = 0 then - E_INVAL else ret, ok, s)
           }
           else Some (ret, False, s));
        let copied = (if ok then copied + alen else copied);
        if ret \<noteq> 0 \<or> alen = 0 then Some (ret, copied, s)
        else read_loop fd buffer (base + word_of_nat alen) (len - alen) copied s
      })"
  by auto
termination by (relation "measure (\<lambda>(fd, buffer, base, len, copied, s). len)") auto

declare read_loop.simps [simp del]

definition sysfile_read :: "int \<Rightarrow> u32 \<Rightarrow> u32 \<Rightarrow> 'a sys_scheme \<Rightarrow> (int \<times> 'a sys_scheme) option" where
  "sysfile_read fd base len s =
     (if len = 0 then Some (0, s)
      else do {
        ok \<leftarrow> file_testfd fd True False s;
        if \<not> ok then Some (- E_INVAL, s)
        else (case kmalloc_buf s of
            None \<Rightarrow> Some (- E_NO_MEM, s)
          | Some (buffer, s) \<Rightarrow> do {
              (ret, copied, s) \<leftarrow> read_loop fd buffer base (unat len) 0 s;
              Some (if copied \<noteq> 0 then sint (word_of_nat copied :: u32) else ret, s)
            })
      })"

function write_loop :: "int \<Rightarrow> u32 \<Rightarrow> u32 \<Rightarrow> nat \<Rightarrow> nat \<Rightarrow> 'a sys_scheme \<Rightarrow> (int \<times> nat \<times> 'a sys_scheme) option" where
  "write_loop fd buffer base len copied s =
     (if len = 0 then Some (0, copied, s)
      else do {
        let alen = min IOBUF_SIZE len;
        (ok, s) \<leftarrow> locked_copy (copy_from_user (cur_mm s) buffer base (word_of_nat alen) False) s;
        if \<not> ok then Some (- E_INVAL, copied, s)
        else do {
          (ret, alen, _, s) \<leftarrow> file_write fd (get_bytes buffer IOBUF_SIZE (umem s)) alen s;
          kassert (len \<ge> alen);
          if ret \<noteq> 0 \<or> alen = 0 then Some (ret, copied + alen, s)
          else write_loop fd buffer (base + word_of_nat alen) (len - alen) (copied + alen) s
        }
      })"
  by auto
termination by (relation "measure (\<lambda>(fd, buffer, base, len, copied, s). len)") auto

declare write_loop.simps [simp del]

definition sysfile_write :: "int \<Rightarrow> u32 \<Rightarrow> u32 \<Rightarrow> 'a sys_scheme \<Rightarrow> (int \<times> 'a sys_scheme) option" where
  "sysfile_write fd base len s =
     (if len = 0 then Some (0, s)
      else do {
        ok \<leftarrow> file_testfd fd False True s;
        if \<not> ok then Some (- E_INVAL, s)
        else (case kmalloc_buf s of
            None \<Rightarrow> Some (- E_NO_MEM, s)
          | Some (buffer, s) \<Rightarrow> do {
              (ret, copied, s) \<leftarrow> write_loop fd buffer base (unat len) 0 s;
              Some (if copied \<noteq> 0 then sint (word_of_nat copied :: u32) else ret, s)
            })
      })"

definition sysfile_seek :: "int \<Rightarrow> int \<Rightarrow> int \<Rightarrow> 'a sys_scheme \<Rightarrow> (int \<times> 'a sys_scheme) option" where
  "sysfile_seek fd pos whence s = file_seek fd pos whence s"

definition stat_bytes :: "stat \<Rightarrow> u8 list" where
  "stat_bytes st = le32 (st_mode st) @ le32 (st_nlinks st) @ le32 (st_blocks st) @ le32 (st_size st)"

definition sysfile_fstat :: "int \<Rightarrow> u32 \<Rightarrow> 'a sys_scheme \<Rightarrow> (int \<times> 'a sys_scheme) option" where
  "sysfile_fstat fd ustat s = do {
     (ret, st, s) \<leftarrow> file_fstat fd s;
     if ret \<noteq> 0 then Some (ret, s)
     else do {
       st \<leftarrow> st;
       let s = s\<lparr>umem := put_bytes (kstk s) (stat_bytes st) (umem s)\<rparr>;
       (ok, s) \<leftarrow> locked_copy (copy_to_user (cur_mm s) ustat (kstk s) 16) s;
       Some (if ok then 0 else - E_INVAL, s)
     }
   }"

definition sysfile_fsync :: "int \<Rightarrow> 'a sys_scheme \<Rightarrow> (int \<times> 'a sys_scheme) option" where
  "sysfile_fsync fd s = file_fsync fd s"

definition sysfile_chdir :: "u32 \<Rightarrow> 'a sys_scheme \<Rightarrow> (int \<times> 'a sys_scheme) option" where
  "sysfile_chdir upath s = do {
     (ret, path, s) \<leftarrow> copy_path upath s;
     if ret \<noteq> 0 then Some (ret, s) else vfs_chdir path s
   }"

text \<open>\<open>sysfile_link\<close> and \<open>sysfile_rename\<close> copy two paths and call a function that is not implemented.\<close>

definition two_paths :: "int \<Rightarrow> u32 \<Rightarrow> u32 \<Rightarrow> 'a sys_scheme \<Rightarrow> (int \<times> 'a sys_scheme) option" where
  "two_paths res p1 p2 s = do {
     (ret, _, s) \<leftarrow> copy_path p1 s;
     if ret \<noteq> 0 then Some (ret, s)
     else do {
       (ret, _, s) \<leftarrow> copy_path p2 s;
       Some (if ret \<noteq> 0 then ret else res, s)
     }
   }"

definition sysfile_link :: "u32 \<Rightarrow> u32 \<Rightarrow> 'a sys_scheme \<Rightarrow> (int \<times> 'a sys_scheme) option" where
  "sysfile_link p1 p2 s = two_paths vfs_link p1 p2 s"

definition sysfile_rename :: "u32 \<Rightarrow> u32 \<Rightarrow> 'a sys_scheme \<Rightarrow> (int \<times> 'a sys_scheme) option" where
  "sysfile_rename p1 p2 s = two_paths vfs_rename p1 p2 s"

definition sysfile_unlink :: "u32 \<Rightarrow> 'a sys_scheme \<Rightarrow> (int \<times> 'a sys_scheme) option" where
  "sysfile_unlink upath s = do {
     (ret, _, s) \<leftarrow> copy_path upath s;
     Some (if ret \<noteq> 0 then ret else vfs_unlink, s)
   }"

definition sysfile_getcwd :: "u32 \<Rightarrow> u32 \<Rightarrow> 'a sys_scheme \<Rightarrow> (int \<times> 'a sys_scheme) option" where
  "sysfile_getcwd buf len s =
     (if len = 0 then Some (- E_INVAL, s)
      else do {
        let s = lock_mm s;
        (ok, v) \<leftarrow> user_mem_check (cur_mm s) buf len True (uvm s);
        let s = s\<lparr>uvm := v\<rparr>;
        (ret, s) \<leftarrow>
          (if ok then do {
             (ret, iob, s) \<leftarrow> vfs_getcwd (iobuf_init (get_bytes buf (unat len) (umem s)) 0 (unat len) 0) s;
             Some (ret, s\<lparr>umem := put_bytes buf (io_buf iob) (umem s)\<rparr>)
           }
           else Some (- E_INVAL, s));
        Some (ret, unlock_mm s)
      })"

definition sysfile_getdirentry :: "int \<Rightarrow> u32 \<Rightarrow> 'a sys_scheme \<Rightarrow> (int \<times> 'a sys_scheme) option" where
  "sysfile_getdirentry fd udirent s =
     (case kmalloc_buf s of
        None \<Rightarrow> Some (- E_NO_MEM, s)
      | Some (d, s) \<Rightarrow> do {
          (ok, s) \<leftarrow> locked_copy (copy_from_user (cur_mm s) d udirent 4 True) s;
          if \<not> ok then Some (- E_INVAL, s)
          else do {
            let offset = sint (of_le32 (get_bytes d 4 (umem s)));
            (ret, offset, name, s) \<leftarrow> file_getdirentry fd offset (get_bytes (d + 4) 256 (umem s)) s;
            let s = s\<lparr>umem := put_bytes d (le32 (word_of_int offset) @ name) (umem s)\<rparr>;
            if ret \<noteq> 0 then Some (ret, s)
            else do {
              (ok, s) \<leftarrow> locked_copy (copy_to_user (cur_mm s) udirent d 260) s;
              Some (if ok then 0 else - E_INVAL, s)
            }
          }
        })"

definition sysfile_dup :: "int \<Rightarrow> int \<Rightarrow> 'a sys_scheme \<Rightarrow> (int \<times> 'a sys_scheme) option" where
  "sysfile_dup fd1 fd2 s = file_dup fd1 fd2 s"

definition sysfile_pipe :: int where "sysfile_pipe = - E_UNIMP"
definition sysfile_mkfifo :: int where "sysfile_mkfifo = - E_UNIMP"

end
