(* ===== verification/Spec2Isabelle.thy ===== *)
theory Spec2Isabelle
  imports Lib_List Lib_Printfmt Lib_Heap Dining Bitmap Sysfile
begin

text \<open>
  Verification of the uCore teaching kernel (src/ucore_os).
\<close>

end
